(* ===== verification/Prelude.thy ===== *)
theory Prelude
  imports Complex_Main "HOL-Library.AList" "HOL-Library.Multiset"
begin

text \<open>
  Shared vocabulary of the development.

  \<^item> \<open>i64\<close> is the two's complement wrap-around of Go's \<open>int64\<close> (and of \<open>int\<close> on the
    64-bit platforms the services are built for); every addition and subtraction of the
    source that could leave the range is wrapped in it.
  \<^item> A Go map is an association list with distinct keys. Its list order stands for the
    order in which \<open>range\<close> happens to visit the map, which Go leaves unspecified;
    statements about maps are about \<open>map_of\<close> and never depend on it.
  \<^item> \<open>gomap_simps\<close> and \<open>i64_simps\<close> collect the rewrite rules that the
    component theories pass to the simplifier.
\<close>

named_theorems i64_simps \<open>int64 wrap-around disappears in range\<close>
named_theorems gomap_simps \<open>lookups in updated Go maps\<close>

section \<open>Signed 64-bit integers\<close>

definition i64 :: "int \<Rightarrow> int" where
  "i64 x = (x + 2 ^ 63) mod 2 ^ 64 - 2 ^ 63"

definition is_i64 :: "int \<Rightarrow> bool" where
  "is_i64 x \<longleftrightarrow> - (2 ^ 63) \<le> x \<and> x < 2 ^ 63"

lemma i64_range: "is_i64 (i64 x)"
  unfolding is_i64_def i64_def by simp

lemma i64_id [i64_simps]: "is_i64 x \<Longrightarrow> i64 x = x"
  unfolding is_i64_def i64_def by (simp add: mod_pos_pos_trivial)

lemma i64_0 [simp]: "i64 0 = 0"
  by (simp add: i64_def)

lemma i64_eq_mod: "i64 x = i64 y \<longleftrightarrow> x mod 2 ^ 64 = y mod 2 ^ 64"
proof -
  have "i64 x = i64 y \<longleftrightarrow> (x + 2 ^ 63) mod 2 ^ 64 = (y + 2 ^ 63) mod 2 ^ 64"
    by (simp add: i64_def)
  also have "\<dots> \<longleftrightarrow> x mod 2 ^ 64 = y mod 2 ^ 64"
    by (simp add: mod_eq_dvd_iff)
  finally show ?thesis .
qed

lemma i64_mod: "i64 x mod 2 ^ 64 = x mod 2 ^ 64"
  by (simp add: i64_def mod_simps)

lemma i64_i64 [simp]: "i64 (i64 x) = i64 x"
  by (rule i64_id) (rule i64_range)

lemma i64_add_left [simp]: "i64 (i64 x + y) = i64 (x + y)"
  by (simp only: i64_eq_mod) (metis i64_mod mod_add_left_eq)

lemma i64_add_right [simp]: "i64 (x + i64 y) = i64 (x + y)"
  by (simp only: i64_eq_mod) (metis i64_mod mod_add_right_eq)

lemma i64_sub_left [simp]: "i64 (i64 x - y) = i64 (x - y)"
  by (simp only: i64_eq_mod) (metis i64_mod mod_diff_left_eq)

lemma i64_sub_right [simp]: "i64 (x - i64 y) = i64 (x - y)"
  by (simp only: i64_eq_mod) (metis i64_mod mod_diff_right_eq)

lemma i64_nonneg [i64_simps]: "0 \<le> x \<Longrightarrow> x < 2 ^ 63 \<Longrightarrow> i64 x = x"
  by (rule i64_id) (simp add: is_i64_def)

text \<open>Go's quotient and remainder of integers truncate towards zero; the divisors are positive in the services.\<close>

definition go_quot :: "int \<Rightarrow> int \<Rightarrow> int" where
  "go_quot a b = (if 0 \<le> a then a div b else - ((- a) div b))"

definition go_rem :: "int \<Rightarrow> int \<Rightarrow> int" where
  "go_rem a b = a - b * go_quot a b"

lemma go_rem_nonneg: "0 \<le> a \<Longrightarrow> go_rem a b = a mod b"
  by (simp add: go_rem_def go_quot_def minus_mult_div_eq_mod)

section \<open>Go maps\<close>

type_synonym ('k, 'v) gomap = "('k \<times> 'v) list"

definition gm_ok :: "('k, 'v) gomap \<Rightarrow> bool" where
  "gm_ok m \<longleftrightarrow> distinct (map fst m)"

definition gm_put :: "('k, 'v) gomap \<Rightarrow> 'k \<Rightarrow> 'v \<Rightarrow> ('k, 'v) gomap" where
  "gm_put m k v = AList.update k v m"

definition gm_delete :: "('k, 'v) gomap \<Rightarrow> 'k \<Rightarrow> ('k, 'v) gomap" where
  "gm_delete m k = AList.delete k m"

definition gm_get :: "'v \<Rightarrow> ('k, 'v) gomap \<Rightarrow> 'k \<Rightarrow> 'v" where
  \<comment> \<open>\<open>m[k]\<close> with the zero value of the element type for a missing key\<close>
  "gm_get z m k = (case map_of m k of None \<Rightarrow> z | Some v \<Rightarrow> v)"

lemma map_of_gm_put [simp, gomap_simps]: "map_of (gm_put m k v) = (map_of m)(k \<mapsto> v)"
  by (simp add: gm_put_def update_conv')

lemma map_of_gm_delete [simp, gomap_simps]: "map_of (gm_delete m k) = (map_of m)(k := None)"
  by (simp add: gm_delete_def delete_conv')

lemma gm_ok_Nil [simp]: "gm_ok []"
  by (simp add: gm_ok_def)

lemma gm_ok_put [simp]: "gm_ok m \<Longrightarrow> gm_ok (gm_put m k v)"
  by (simp add: gm_ok_def gm_put_def distinct_update)

lemma gm_ok_delete [simp]: "gm_ok m \<Longrightarrow> gm_ok (gm_delete m k)"
  by (simp add: gm_ok_def gm_delete_def distinct_delete)

lemma gm_get_Nil [simp]: "gm_get z [] k = z"
  by (simp add: gm_get_def)

lemma gm_get_put [simp, gomap_simps]:
  "gm_get z (gm_put m k v) k' = (if k' = k then v else gm_get z m k')"
  by (simp add: gm_get_def)

section \<open>Counter maps\<close>

text \<open>\<open>m[k] += v\<close>, and the loop that does it for every pair of a list or a ranged-over map.\<close>

definition gm_add :: "('k, int) gomap \<Rightarrow> 'k \<Rightarrow> int \<Rightarrow> ('k, int) gomap" where
  "gm_add m k v = gm_put m k (i64 (gm_get 0 m k + v))"

definition gm_adds :: "('k, int) gomap \<Rightarrow> ('k \<times> int) list \<Rightarrow> ('k, int) gomap" where
  "gm_adds m kvs = fold (\<lambda>(k, v) m. gm_add m k v) kvs m"

definition key_sum :: "('k \<times> int) list \<Rightarrow> 'k \<Rightarrow> int" where
  "key_sum kvs k = sum_list (map snd (filter (\<lambda>kv. fst kv = k) kvs))"

lemma gm_adds_simps [simp]:
  "gm_adds m [] = m" "gm_adds m ((k, v) # kvs) = gm_adds (gm_add m k v) kvs"
  "gm_adds m (xs @ ys) = gm_adds (gm_adds m xs) ys"
  by (simp_all add: gm_adds_def)

lemma key_sum_simps [simp]:
  "key_sum [] k = 0" "key_sum ((k', v) # kvs) k = (if k' = k then v else 0) + key_sum kvs k"
  "key_sum (xs @ ys) k = key_sum xs k + key_sum ys k"
  by (simp_all add: key_sum_def)

lemma key_sum_perm: "mset xs = mset ys \<Longrightarrow> key_sum xs k = key_sum ys k"
proof -
  assume "mset xs = mset ys"
  then have "mset (map snd (filter (\<lambda>kv. fst kv = k) xs)) = mset (map snd (filter (\<lambda>kv. fst kv = k) ys))"
    by simp
  then show ?thesis unfolding key_sum_def by (metis sum_mset_sum_list)
qed

lemma key_sum_absent: "k \<notin> fst ` set kvs \<Longrightarrow> key_sum kvs k = 0"
  by (induction kvs) auto

lemma gm_ok_add [simp]: "gm_ok m \<Longrightarrow> gm_ok (gm_add m k v)"
  by (simp add: gm_add_def)

lemma gm_ok_adds [simp]: "gm_ok m \<Longrightarrow> gm_ok (gm_adds m kvs)"
  by (induction kvs arbitrary: m) auto

lemma map_of_gm_adds:
  "map_of (gm_adds m kvs) k =
     (if k \<in> fst ` set kvs then Some (i64 (gm_get 0 m k + key_sum kvs k)) else map_of m k)"
proof (induction kvs arbitrary: m)
  case (Cons kv kvs)
  obtain k' v where "kv = (k', v)" by fastforce
  then show ?case
    using Cons by (auto simp: gm_add_def key_sum_absent add.assoc)
qed simp

lemma gm_get_adds:
  "gm_get 0 (gm_adds m kvs) k =
     (if k \<in> fst ` set kvs then i64 (gm_get 0 m k + key_sum kvs k) else gm_get 0 m k)"
  by (simp add: gm_get_def map_of_gm_adds)

text \<open>Accumulating is insensitive to the order of the additions.\<close>

lemma gm_adds_perm: "mset xs = mset ys \<Longrightarrow> map_of (gm_adds m xs) = map_of (gm_adds m ys)"
  by (rule ext) (metis map_of_gm_adds key_sum_perm mset_eq_setD)

lemma key_sum_gomap: "gm_ok m \<Longrightarrow> key_sum m k = gm_get 0 m k"
proof (induction m)
  case (Cons kv m)
  obtain k' v where kv: "kv = (k', v)" by fastforce
  then have "key_sum m k = gm_get 0 m k" "k' \<notin> fst ` set m"
    using Cons by (simp_all add: gm_ok_def)
  with kv show ?case by (auto simp: gm_get_def key_sum_absent)
qed simp

text \<open>Accumulating an accumulated map is accumulating its increments.\<close>

lemma gm_adds_gm_adds:
  "map_of (gm_adds m (gm_adds [] kvs)) = map_of (gm_adds m kvs)"
proof
  fix k
  have "fst ` set (gm_adds [] kvs) = dom (map_of (gm_adds [] kvs))" by (simp add: dom_map_of_conv_image_fst)
  also have "\<dots> = fst ` set kvs" by (auto simp: map_of_gm_adds dom_def)
  finally have dom: "fst ` set (gm_adds [] kvs) = fst ` set kvs" .
  have "key_sum (gm_adds [] kvs) k = (if k \<in> fst ` set kvs then i64 (key_sum kvs k) else 0)"
    by (simp add: key_sum_gomap gm_get_adds)
  then show "map_of (gm_adds m (gm_adds [] kvs)) k = map_of (gm_adds m kvs) k"
    by (simp add: map_of_gm_adds dom)
qed

lemma gomap_mset_eq:
  assumes "gm_ok m" "gm_ok m'" "map_of m = map_of m'"
  shows "mset m = mset m'"
proof -
  have "set m = set m'" using assms by (auto simp: gm_ok_def) (metis map_of_eq_Some_iff)+
  moreover have "distinct m" "distinct m'" using assms(1,2) by (auto simp: gm_ok_def distinct_map)
  ultimately show ?thesis by (simp add: set_eq_iff_mset_eq_distinct)
qed

section \<open>Lists\<close>

lemma takeWhile_all: "\<forall>x \<in> set xs. P x \<Longrightarrow> takeWhile P (xs @ ys) = xs @ takeWhile P ys"
  by (induction xs) auto

lemma dropWhile_all: "\<forall>x \<in> set xs. P x \<Longrightarrow> dropWhile P (xs @ ys) = dropWhile P ys"
  by (induction xs) auto

lemma takeWhile_none: "xs \<noteq> [] \<Longrightarrow> \<forall>x \<in> set xs. \<not> P x \<Longrightarrow> takeWhile P (xs @ ys) = []"
  by (cases xs) auto

lemma dropWhile_none: "xs \<noteq> [] \<Longrightarrow> \<forall>x \<in> set xs. \<not> P x \<Longrightarrow> dropWhile P (xs @ ys) = xs @ ys"
  by (cases xs) auto

lemma map_nth_update_other: "p \<notin> set ps \<Longrightarrow> map ((!) (h[p := r])) ps = map ((!) h) ps"
  by (induction ps) auto

end
