(* ===== verification/Protocol.thy ===== *)
theory Protocol
  imports Prelude
begin

text \<open>
  The wire types of \<open>internal/protocol/protocol.go\<close>. \<open>Side\<close>, \<open>OrdType\<close> and the status
  are Go strings, so an order with a side or type outside the declared constants is a
  value of the model too. JSON tags have no counterpart: a message is its decoded value.
\<close>

type_synonym Side = string
type_synonym OrdType = string

definition Buy :: Side where "Buy = ''buy''"
definition Sell :: Side where "Sell = ''sell''"
definition Limit :: OrdType where "Limit = ''limit''"
definition Market :: OrdType where "Market = ''market''"

record Order =
  ID :: string
  Side :: Side
  Type :: OrdType
  Price :: int
  Qty :: int

record Fill =
  f_Price :: int
  f_Qty :: int
  MakerID :: string

definition StatusResting :: string where "StatusResting = ''resting''"
definition StatusPartial :: string where "StatusPartial = ''partial''"
definition StatusFilled :: string where "StatusFilled = ''filled''"
definition StatusRejected :: string where "StatusRejected = ''rejected''"
definition StatusCanceled :: string where "StatusCanceled = ''canceled''"
definition StatusUnknown :: string where "StatusUnknown = ''unknown''"

record Ack =
  OrderID :: string
  Seq :: int
  Status :: string
  Fills :: "Fill list"
  TS :: int

record RunJob =
  rj_RunID :: string
  rj_SubmissionID :: string
  rj_Bots :: int
  rj_DurationS :: int
  rj_MaxRPS :: int

record LoadShard =
  ls_RunID :: string
  ls_Target :: string
  ls_Shard :: int
  ls_TotalShards :: int
  ls_Bots :: int
  ls_DurationS :: int
  ls_MaxRPS :: int
  ls_Seed :: int

record TelemetryBatch =
  tb_RunID :: string
  tb_Shard :: int
  tb_TotalShards :: int
  tb_Final :: bool
  tb_Sent :: int
  tb_Acked :: int
  tb_Errors :: int
  tb_Violations :: int
  tb_Hist :: "(int, int) gomap"
  tb_SecAcks :: "(int, int) gomap"
  tb_SecErrs :: "(int, int) gomap"
  tb_Samples :: "string list"

lemmas status_defs = StatusResting_def StatusPartial_def StatusFilled_def
  StatusRejected_def StatusCanceled_def StatusUnknown_def

lemmas kind_defs = Buy_def Sell_def Limit_def Market_def

lemma side_distinct [simp]: "Buy \<noteq> Sell" "Sell \<noteq> Buy"
  by (simp_all add: kind_defs)

lemma type_distinct [simp]: "Limit \<noteq> Market" "Market \<noteq> Limit"
  by (simp_all add: kind_defs)

text \<open>The value of an \<open>int64\<close> field is in range; every decoded order satisfies this.\<close>

definition order_ok :: "Order \<Rightarrow> bool" where
  "order_ok o' \<longleftrightarrow> is_i64 (Price o') \<and> is_i64 (Qty o')"

end
