(* ===== verification/Matching.thy ===== *)
theory Matching
  imports Protocol
begin

text \<open>
  The reference order book of \<open>internal/matching/book.go\<close>, translated operation by
  operation. The code shares each \<open>*resting\<close> between a level's queue and the index
  \<open>byID\<close> and mutates it through the queue, so the book carries an explicit store: a
  pointer is an index into \<open>heap\<close>, allocation appends to it. A \<open>*level\<close> is reachable
  from one slot of one side only and is kept as a value. The two nested loops of
  \<open>Submit\<close> are \<open>match_loop\<close> and \<open>fill_level\<close>, with their termination proofs.
\<close>

section \<open>State\<close>

type_synonym ptr = nat

record resting =
  r_id :: string
  r_side :: Side
  r_price :: int
  r_qty :: int

record level =
  lv_price :: int
  lv_queue :: "ptr list"

record Book =
  bids :: "level list"
  asks :: "level list"
  byID :: "(string, ptr) gomap"
  seq :: int
  heap :: "resting list"

definition New :: Book where
  "New = \<lparr>bids = [], asks = [], byID = [], seq = 0, heap = []\<rparr>"

definition next_seq :: "Book \<Rightarrow> Book \<times> int" where
  "next_seq b = (let s = i64 (seq b + 1) in (b\<lparr>seq := s\<rparr>, s))"

section \<open>Submit\<close>

definition bad_order :: "Order \<Rightarrow> bool" where
  "bad_order od \<longleftrightarrow>
     Qty od \<le> 0 \<or>
     (Side od \<noteq> Buy \<and> Side od \<noteq> Sell) \<or>
     (Type od \<noteq> Limit \<and> Type od \<noteq> Market) \<or>
     (Type od = Limit \<and> Price od \<le> 0)"

text \<open>The inner loop: consume the queue of one level from its front.\<close>

function fill_level ::
  "int \<Rightarrow> ptr list \<Rightarrow> resting list \<Rightarrow> (string, ptr) gomap \<Rightarrow> Fill list \<Rightarrow>
   int \<times> ptr list \<times> resting list \<times> (string, ptr) gomap \<times> Fill list"
where
  "fill_level remaining [] h ix fs = (remaining, [], h, ix, fs)"
| "fill_level remaining (p # ps) h ix fs =
     (if remaining > 0 then
        let maker = h ! p;
            q = min remaining (r_qty maker);
            fs' = fs @ [\<lparr>f_Price = r_price maker, f_Qty = q, MakerID = r_id maker\<rparr>];
            remaining' = i64 (remaining - q);
            mq = i64 (r_qty maker - q);
            h' = h[p := maker\<lparr>r_qty := mq\<rparr>]
        in if mq = 0 then fill_level remaining' ps h' (gm_delete ix (r_id maker)) fs'
           else fill_level remaining' (p # ps) h' ix fs'
      else (remaining, p # ps, h, ix, fs))"
  by pat_completeness auto
termination
  by (relation "measure (\<lambda>(remaining, ps, h, ix, fs). length ps + (if remaining > 0 then 1 else 0))")
     (auto simp: min_def split: if_splits)

declare fill_level.simps(2) [simp del]

lemma fill_level_exit:
  "fst (snd (fill_level remaining ps h ix fs)) \<noteq> [] \<Longrightarrow> fst (fill_level remaining ps h ix fs) \<le> 0"
proof (induction remaining ps h ix fs rule: fill_level.induct)
  case (2 remaining p ps h ix fs)
  then show ?case
    by (subst fill_level.simps(2), subst (asm) (5) fill_level.simps(2))
       (simp add: Let_def split: if_splits)
qed simp

lemma fill_level_exit_eq:
  "(remaining', queue', rest') = fill_level remaining ps h ix fs \<Longrightarrow> queue' \<noteq> [] \<Longrightarrow> remaining' \<le> 0"
  using fill_level_exit [of remaining ps h ix fs] by (metis fst_conv snd_conv)

text \<open>\<open>stops od price\<close>: the two \<open>break\<close> conditions of the outer loop.\<close>

definition stops :: "Order \<Rightarrow> int \<Rightarrow> bool" where
  "stops od price \<longleftrightarrow>
     Type od = Limit \<and>
     ((Side od = Buy \<and> price > Price od) \<or> (Side od = Sell \<and> price < Price od))"

function match_loop ::
  "Order \<Rightarrow> int \<Rightarrow> level list \<Rightarrow> resting list \<Rightarrow> (string, ptr) gomap \<Rightarrow> Fill list \<Rightarrow>
   int \<times> level list \<times> resting list \<times> (string, ptr) gomap \<times> Fill list"
where
  "match_loop od remaining [] h ix fs = (remaining, [], h, ix, fs)"
| "match_loop od remaining (best # opp) h ix fs =
     (if remaining > 0 then
        if stops od (lv_price best) then (remaining, best # opp, h, ix, fs)
        else
          (case fill_level remaining (lv_queue best) h ix fs of
             (remaining', queue', h', ix', fs') \<Rightarrow>
               if queue' = [] then match_loop od remaining' opp h' ix' fs'
               else match_loop od remaining' (best\<lparr>lv_queue := queue'\<rparr> # opp) h' ix' fs')
      else (remaining, best # opp, h, ix, fs))"
  by pat_completeness auto
termination
  by (relation "measure (\<lambda>(od, remaining, opp, h, ix, fs). length opp + (if remaining > 0 then 1 else 0))")
     (auto dest!: fill_level_exit_eq)

declare match_loop.simps(2) [simp del]

definition status_of_match :: "Order \<Rightarrow> int \<Rightarrow> string" where
  "status_of_match od remaining =
     (if remaining = 0 then StatusFilled
      else if Type od = Market then
        if remaining < Qty od then StatusPartial else StatusCanceled
      else if remaining < Qty od then StatusPartial else StatusResting)"

text \<open>
  \<open>rest\<close>: the scan for the insertion point. An equal price appends to that level's
  queue; otherwise a new level is inserted before the first worse one.
\<close>

fun rest_at :: "resting \<Rightarrow> ptr \<Rightarrow> level list \<Rightarrow> level list" where
  "rest_at r p [] = [\<lparr>lv_price = r_price r, lv_queue = [p]\<rparr>]"
| "rest_at r p (lv # lvs) =
     (if lv_price lv = r_price r then lv\<lparr>lv_queue := lv_queue lv @ [p]\<rparr> # lvs
      else if r_side r = Buy \<and> lv_price lv < r_price r
        then \<lparr>lv_price = r_price r, lv_queue = [p]\<rparr> # lv # lvs
      else if r_side r = Sell \<and> lv_price lv > r_price r
        then \<lparr>lv_price = r_price r, lv_queue = [p]\<rparr> # lv # lvs
      else lv # rest_at r p lvs)"

definition rest :: "Book \<Rightarrow> resting \<Rightarrow> Book" where
  "rest b r =
     (let p = length (heap b);
          b1 = b\<lparr>heap := heap b @ [r], byID := gm_put (byID b) (r_id r) p\<rparr>
      in if r_side r = Buy then b1\<lparr>bids := rest_at r p (bids b1)\<rparr>
         else b1\<lparr>asks := rest_at r p (asks b1)\<rparr>)"

definition Submit :: "Book \<Rightarrow> Order \<Rightarrow> Book \<times> Ack" where
  "Submit b0 od =
     (let (b, s) = next_seq b0;
          ack = \<lparr>OrderID = ID od, Seq = s, Status = [], Fills = [], TS = 0\<rparr>
      in if bad_order od then (b, ack\<lparr>Status := StatusRejected\<rparr>)
         else if map_of (byID b) (ID od) \<noteq> None then (b, ack\<lparr>Status := StatusRejected\<rparr>)
         else
           (case match_loop od (Qty od) (if Side od = Sell then bids b else asks b)
                   (heap b) (byID b) [] of
              (remaining, opp, h, ix, fs) \<Rightarrow>
                let b1 = (if Side od = Sell then b\<lparr>bids := opp\<rparr> else b\<lparr>asks := opp\<rparr>)
                           \<lparr>heap := h, byID := ix\<rparr>;
                    b2 = (if remaining = 0 \<or> Type od = Market then b1
                          else rest b1 \<lparr>r_id = ID od, r_side = Side od,
                                        r_price = Price od, r_qty = remaining\<rparr>)
                in (b2, ack\<lparr>Fills := fs, Status := status_of_match od remaining\<rparr>)))"

section \<open>Cancel\<close>

fun cancel_queue :: "resting list \<Rightarrow> string \<Rightarrow> ptr list \<Rightarrow> ptr list" where
  "cancel_queue h i [] = []"
| "cancel_queue h i (p # ps) = (if r_id (h ! p) = i then ps else p # cancel_queue h i ps)"

fun cancel_levels :: "resting list \<Rightarrow> string \<Rightarrow> int \<Rightarrow> level list \<Rightarrow> level list" where
  "cancel_levels h i price [] = []"
| "cancel_levels h i price (lv # lvs) =
     (if lv_price lv \<noteq> price then lv # cancel_levels h i price lvs
      else
        let queue = cancel_queue h i (lv_queue lv)
        in if queue = [] then lvs else lv\<lparr>lv_queue := queue\<rparr> # lvs)"

definition Cancel :: "Book \<Rightarrow> string \<Rightarrow> Book \<times> Ack" where
  "Cancel b0 i =
     (let (b, s) = next_seq b0;
          ack = \<lparr>OrderID = i, Seq = s, Status = [], Fills = [], TS = 0\<rparr>
      in case map_of (byID b) i of
           None \<Rightarrow> (b, ack\<lparr>Status := StatusUnknown\<rparr>)
         | Some p \<Rightarrow>
             let r = heap b ! p;
                 b1 = b\<lparr>byID := gm_delete (byID b) i\<rparr>;
                 b2 = (if r_side r = Buy
                       then b1\<lparr>bids := cancel_levels (heap b1) i (r_price r) (bids b1)\<rparr>
                       else b1\<lparr>asks := cancel_levels (heap b1) i (r_price r) (asks b1)\<rparr>)
             in (b2, ack\<lparr>Status := StatusCanceled\<rparr>))"

end
