(* ===== verification/Priority_Book.thy ===== *)
theory Priority_Book
  imports Matching
begin

text \<open>
  The contract of a price-time-priority book, stated without price levels, pointers and
  index: each side is one list of resting orders in priority order (best price first,
  oldest first within a price). A submit fills the crossing prefix of the opposite side
  from its front; a limit remainder is inserted behind every order that is at least as
  good. The refinement theorems of \<open>Book_Refinement\<close> show that the code implements it.
\<close>

section \<open>The abstract book\<close>

record pbook =
  p_bids :: "resting list"
  p_asks :: "resting list"
  p_seq :: int

definition pb_new :: pbook where
  "pb_new = \<lparr>p_bids = [], p_asks = [], p_seq = 0\<rparr>"

definition fill_of :: "resting \<Rightarrow> int \<Rightarrow> Fill" where
  "fill_of r q = \<lparr>f_Price = r_price r, f_Qty = q, MakerID = r_id r\<rparr>"

fun pb_fill :: "int \<Rightarrow> resting list \<Rightarrow> int \<times> resting list \<times> Fill list" where
  "pb_fill n [] = (n, [], [])"
| "pb_fill n (r # rs) =
     (if n \<le> 0 then (n, r # rs, [])
      else if n < r_qty r then (0, r\<lparr>r_qty := r_qty r - n\<rparr> # rs, [fill_of r n])
      else (case pb_fill (n - r_qty r) rs of
              (n', rs', fs) \<Rightarrow> (n', rs', fill_of r (r_qty r) # fs)))"

definition crosses :: "Order \<Rightarrow> resting \<Rightarrow> bool" where
  "crosses od r \<longleftrightarrow>
     Type od = Market \<or> (if Side od = Buy then r_price r \<le> Price od else Price od \<le> r_price r)"

definition pb_match :: "Order \<Rightarrow> int \<Rightarrow> resting list \<Rightarrow> int \<times> resting list \<times> Fill list" where
  "pb_match od n rs =
     (case pb_fill n (takeWhile (crosses od) rs) of
        (n', es, fs) \<Rightarrow> (n', es @ dropWhile (crosses od) rs, fs))"

definition at_least_as_good :: "resting \<Rightarrow> resting \<Rightarrow> bool" where
  "at_least_as_good r x \<longleftrightarrow>
     (if r_side r = Buy then r_price r \<le> r_price x else r_price x \<le> r_price r)"

definition pb_rest :: "resting \<Rightarrow> resting list \<Rightarrow> resting list" where
  "pb_rest r rs = takeWhile (at_least_as_good r) rs @ r # dropWhile (at_least_as_good r) rs"

definition pb_ids :: "pbook \<Rightarrow> string set" where
  "pb_ids b = r_id ` set (p_bids b @ p_asks b)"

definition pb_submit :: "pbook \<Rightarrow> Order \<Rightarrow> pbook \<times> Ack" where
  "pb_submit b0 od =
     (let s = i64 (p_seq b0 + 1);
          b = b0\<lparr>p_seq := s\<rparr>;
          ack = \<lparr>OrderID = ID od, Seq = s, Status = StatusRejected, Fills = [], TS = 0\<rparr>
      in if bad_order od \<or> ID od \<in> pb_ids b then (b, ack)
         else
           (case pb_match od (Qty od) (if Side od = Buy then p_asks b else p_bids b) of
              (n, opp, fs) \<Rightarrow>
                let b1 = (if Side od = Buy then b\<lparr>p_asks := opp\<rparr> else b\<lparr>p_bids := opp\<rparr>);
                    r = \<lparr>r_id = ID od, r_side = Side od, r_price = Price od, r_qty = n\<rparr>;
                    b2 = (if n = 0 \<or> Type od = Market then b1
                          else if Side od = Buy then b1\<lparr>p_bids := pb_rest r (p_bids b1)\<rparr>
                          else b1\<lparr>p_asks := pb_rest r (p_asks b1)\<rparr>)
                in (b2, ack\<lparr>Fills := fs, Status := status_of_match od n\<rparr>)))"

definition pb_cancel :: "pbook \<Rightarrow> string \<Rightarrow> pbook \<times> Ack" where
  "pb_cancel b0 i =
     (let s = i64 (p_seq b0 + 1);
          b = b0\<lparr>p_seq := s\<rparr>;
          ack = \<lparr>OrderID = i, Seq = s, Status = StatusUnknown, Fills = [], TS = 0\<rparr>
      in if i \<in> pb_ids b
         then (b\<lparr>p_bids := filter (\<lambda>r. r_id r \<noteq> i) (p_bids b),
                 p_asks := filter (\<lambda>r. r_id r \<noteq> i) (p_asks b)\<rparr>,
               ack\<lparr>Status := StatusCanceled\<rparr>)
         else (b, ack))"

section \<open>Filling\<close>

lemma pb_fill_done [simp]: "n \<le> 0 \<Longrightarrow> pb_fill n rs = (n, rs, [])"
  by (cases rs) auto

lemma pb_fill_append:
  "pb_fill n (xs @ ys) =
     (case pb_fill n xs of (n1, xs', f1) \<Rightarrow>
        if xs' = [] then (case pb_fill n1 ys of (n2, ys', f2) \<Rightarrow> (n2, ys', f1 @ f2))
        else (n1, xs' @ ys, f1))"
  by (induction n xs rule: pb_fill.induct) (auto split: prod.splits)

lemma pb_fill_exit: "pb_fill n rs = (n', rs', fs) \<Longrightarrow> rs' \<noteq> [] \<Longrightarrow> n' \<le> 0"
  by (induction n rs arbitrary: n' rs' fs rule: pb_fill.induct)
     (auto split: prod.splits if_splits)

lemma pb_match_nil [simp]: "pb_match od n [] = (n, [], [])"
  by (simp add: pb_match_def)

lemma pb_match_done [simp]: "n \<le> 0 \<Longrightarrow> pb_match od n rs = (n, rs, [])"
  by (simp add: pb_match_def)

lemma pb_match_blocked: "\<not> crosses od r \<Longrightarrow> pb_match od n (r # rs) = (n, r # rs, [])"
  by (simp add: pb_match_def)

text \<open>A block of crossing orders is consumed before the rest of the side is looked at.\<close>

lemma pb_match_block:
  assumes "\<forall>x \<in> set xs. crosses od x" and "pb_fill n xs = (n1, xs', f1)"
  shows "pb_match od n (xs @ ys) =
     (if xs' = [] then (case pb_match od n1 ys of (n2, ys', f2) \<Rightarrow> (n2, ys', f1 @ f2))
      else (n1, xs' @ ys, f1))"
  using assms by (simp add: pb_match_def takeWhile_all dropWhile_all pb_fill_append split: prod.splits)

section \<open>What a match does\<close>

abbreviation filled :: "Fill list \<Rightarrow> int" where
  "filled fs \<equiv> sum_list (map f_Qty fs)"

abbreviation volume :: "resting list \<Rightarrow> int" where
  "volume rs \<equiv> sum_list (map r_qty rs)"

definition positive :: "resting list \<Rightarrow> bool" where
  "positive rs \<longleftrightarrow> (\<forall>r \<in> set rs. 0 < r_qty r)"

lemma positive_simps [simp]:
  "positive []" "positive (r # rs) \<longleftrightarrow> 0 < r_qty r \<and> positive rs"
  "positive (rs @ ss) \<longleftrightarrow> positive rs \<and> positive ss"
  by (auto simp: positive_def)

lemma positive_volume: "positive rs \<Longrightarrow> 0 \<le> volume rs"
  by (induction rs) auto

lemma positive_takeWhile: "positive rs \<Longrightarrow> positive (takeWhile P rs)"
  and positive_dropWhile: "positive rs \<Longrightarrow> positive (dropWhile P rs)"
  by (auto simp: positive_def dest: set_takeWhileD set_dropWhileD)

text \<open>
  \<open>by_priority rs fs\<close>: the fills \<open>fs\<close> were taken from the front of \<open>rs\<close>: one fill per maker
  in list order at the maker's price, each but the last for the maker's whole quantity.
\<close>

fun by_priority :: "resting list \<Rightarrow> Fill list \<Rightarrow> bool" where
  "by_priority rs [] = True"
| "by_priority [] (f # fs) = False"
| "by_priority (r # rs) (f # fs) =
     (MakerID f = r_id r \<and> f_Price f = r_price r \<and> 0 < f_Qty f \<and> f_Qty f \<le> r_qty r \<and>
      (fs \<noteq> [] \<longrightarrow> f_Qty f = r_qty r) \<and> by_priority rs fs)"

lemma pb_fill_account:
  "positive rs \<Longrightarrow> 0 \<le> n \<Longrightarrow> pb_fill n rs = (n', rs', fs) \<Longrightarrow>
   n = n' + filled fs \<and> volume rs = volume rs' + filled fs \<and> 0 \<le> n' \<and> positive rs' \<and>
   (n' = 0 \<or> rs' = [])"
proof (induction n rs arbitrary: n' rs' fs rule: pb_fill.induct)
  case (2 n r rs)
  obtain m ms gs where rec: "pb_fill (n - r_qty r) rs = (m, ms, gs)" by (metis prod_cases3)
  show ?case
  proof (cases "n \<le> 0 \<or> n < r_qty r")
    case True
    then show ?thesis using "2.prems" by (auto simp: fill_of_def split: if_splits)
  next
    case False
    then have "n' = m" "rs' = ms" "fs = fill_of r (r_qty r) # gs"
      using "2.prems"(3) rec by simp_all
    moreover have "n - r_qty r = m + filled gs \<and> volume rs = volume ms + filled gs \<and>
        0 \<le> m \<and> positive ms \<and> (m = 0 \<or> ms = [])"
      using False "2.prems"(1) by (intro "2.IH"[OF _ _ _ _ rec]) simp_all
    then have "n = m + (r_qty r + filled gs)" "volume (r # rs) = volume ms + (r_qty r + filled gs)"
      "0 \<le> m" "positive ms" "m = 0 \<or> ms = []"
      by simp_all
    ultimately show ?thesis by (simp add: fill_of_def)
  qed
qed simp

lemma pb_fill_priority:
  "positive rs \<Longrightarrow> pb_fill n rs = (n', rs', fs) \<Longrightarrow> by_priority rs fs"
  by (induction n rs arbitrary: n' rs' fs rule: pb_fill.induct)
     (auto simp: fill_of_def split: if_splits prod.splits)

lemma pb_fill_ids: "pb_fill n rs = (n', rs', fs) \<Longrightarrow> r_id ` set rs' \<subseteq> r_id ` set rs"
proof (induction n rs arbitrary: n' rs' fs rule: pb_fill.induct)
  case (2 n r rs)
  obtain m ms gs where rec: "pb_fill (n - r_qty r) rs = (m, ms, gs)" by (metis prod_cases3)
  then show ?case
    using "2.prems" "2.IH"[OF _ _ rec] by (simp split: if_splits) auto
qed simp

lemma by_priority_append: "by_priority rs fs \<Longrightarrow> by_priority (rs @ ss) fs"
  by (induction rs fs rule: by_priority.induct) auto

lemma by_priority_takeWhile:
  "by_priority (takeWhile P rs) fs \<Longrightarrow> by_priority rs fs"
  by (metis by_priority_append takeWhile_dropWhile_id)

lemma by_priority_length: "by_priority rs fs \<Longrightarrow> length fs \<le> length rs"
  by (induction rs fs rule: by_priority.induct) auto

lemma by_priority_makers:
  "by_priority rs fs \<Longrightarrow> map MakerID fs = map r_id (take (length fs) rs)"
  by (induction rs fs rule: by_priority.induct) auto

lemma by_priority_prices:
  "by_priority rs fs \<Longrightarrow> map f_Price fs = map r_price (take (length fs) rs)"
  by (induction rs fs rule: by_priority.induct) auto

lemma by_priority_nonneg: "by_priority rs fs \<Longrightarrow> f \<in> set fs \<Longrightarrow> 0 < f_Qty f"
  by (induction rs fs rule: by_priority.induct) auto

lemma pb_match_account:
  assumes "positive rs" "0 \<le> n" "pb_match od n rs = (n', rs', fs)"
  shows "n = n' + filled fs" "volume rs = volume rs' + filled fs" "0 \<le> n'" "positive rs'"
    "by_priority (takeWhile (crosses od) rs) fs"
    "0 < n' \<Longrightarrow> rs' = dropWhile (crosses od) rs"
    "filled fs = min n (volume (takeWhile (crosses od) rs))"
proof -
  let ?E = "takeWhile (crosses od) rs" and ?D = "dropWhile (crosses od) rs"
  obtain es where e: "pb_fill n ?E = (n', es, fs)" "rs' = es @ ?D"
    using assms(3) by (auto simp: pb_match_def split: prod.splits)
  note A = pb_fill_account[OF positive_takeWhile[OF assms(1)] assms(2) e(1)]
  have "volume rs = volume ?E + volume ?D"
    by (metis map_append sum_list.append takeWhile_dropWhile_id)
  then show "volume rs = volume rs' + filled fs" using A e(2) by simp
  show "n = n' + filled fs" "0 \<le> n'" using A by simp_all
  show "positive rs'" using A e(2) assms(1) by (simp add: positive_dropWhile)
  show "by_priority ?E fs"
    using pb_fill_priority[OF positive_takeWhile[OF assms(1)] e(1)] .
  show "rs' = ?D" if "0 < n'" using A e(2) that by simp
  show "filled fs = min n (volume ?E)"
    using A positive_volume[of es] by auto
qed

lemma pb_match_ids:
  assumes "pb_match od n rs = (n', rs', fs)"
  shows "r_id ` set rs' \<subseteq> r_id ` set rs"
proof -
  obtain es where e: "pb_fill n (takeWhile (crosses od) rs) = (n', es, fs)"
    "rs' = es @ dropWhile (crosses od) rs"
    using assms by (auto simp: pb_match_def split: prod.splits)
  have "set rs = set (takeWhile (crosses od) rs) \<union> set (dropWhile (crosses od) rs)"
    by (metis set_append takeWhile_dropWhile_id)
  with e(2) pb_fill_ids[OF e(1)] show ?thesis by auto
qed

lemma set_pb_rest: "set (pb_rest r rs) = insert r (set rs)"
  by (simp add: pb_rest_def) (metis set_append takeWhile_dropWhile_id)

lemma volume_pb_rest: "volume (pb_rest r rs) = r_qty r + volume rs"
  by (simp add: pb_rest_def) (metis map_append sum_list.append takeWhile_dropWhile_id)

lemma filter_pb_rest: "r_id r = i \<Longrightarrow> filter (\<lambda>x. r_id x \<noteq> i) (pb_rest r rs) = filter (\<lambda>x. r_id x \<noteq> i) rs"
  by (simp add: pb_rest_def) (metis filter_append takeWhile_dropWhile_id)

end
