(* ===== verification/Contract.thy ===== *)
theory Contract
  imports Priority_Book
begin

text \<open>
  The engine contract of \<open>SPEC.md\<close> as an interface. An engine has an initial state, a
  submit and a cancel (each given the clock reading that the acknowledgement carries); it
  keeps an invariant and its acknowledgements are those of the abstract book, up to the
  informational timestamp. What the platform concludes about any such engine (run
  equivalence, sequence numbers, soundness of each acknowledgement) is proved here once,
  inside the locale; the reference book and the example engine are its interpretations.
\<close>

section \<open>Runs of operations\<close>

datatype book_op = OpSubmit Order | OpCancel string

definition op_ok :: "book_op \<Rightarrow> bool" where
  "op_ok x = (case x of OpSubmit od \<Rightarrow> order_ok od | OpCancel i \<Rightarrow> True)"

lemma op_ok_simps [simp]: "op_ok (OpSubmit od) = order_ok od" "op_ok (OpCancel i)"
  by (simp_all add: op_ok_def)

fun pb_step :: "pbook \<Rightarrow> book_op \<Rightarrow> pbook \<times> Ack" where
  "pb_step b (OpSubmit od) = pb_submit b od"
| "pb_step b (OpCancel i) = pb_cancel b i"

fun pb_run :: "pbook \<Rightarrow> book_op list \<Rightarrow> pbook \<times> Ack list" where
  "pb_run b [] = (b, [])"
| "pb_run b (x # xs) =
     (let (b1, a) = pb_step b x; (b2, as) = pb_run b1 xs in (b2, a # as))"

fun engine_step ::
  "('s \<Rightarrow> int \<Rightarrow> Order \<Rightarrow> 's \<times> Ack) \<Rightarrow> ('s \<Rightarrow> int \<Rightarrow> string \<Rightarrow> 's \<times> Ack) \<Rightarrow>
   's \<Rightarrow> int \<times> book_op \<Rightarrow> 's \<times> Ack"
where
  "engine_step submit cancel s (t, OpSubmit od) = submit s t od"
| "engine_step submit cancel s (t, OpCancel i) = cancel s t i"

fun engine_run ::
  "('s \<Rightarrow> int \<Rightarrow> Order \<Rightarrow> 's \<times> Ack) \<Rightarrow> ('s \<Rightarrow> int \<Rightarrow> string \<Rightarrow> 's \<times> Ack) \<Rightarrow>
   's \<Rightarrow> (int \<times> book_op) list \<Rightarrow> 's \<times> Ack list"
where
  "engine_run submit cancel s [] = (s, [])"
| "engine_run submit cancel s (x # xs) =
     (let (s1, a) = engine_step submit cancel s x;
          (s2, as) = engine_run submit cancel s1 xs
      in (s2, a # as))"

definition untimed :: "Ack \<Rightarrow> Ack" where
  "untimed a = a\<lparr>TS := 0\<rparr>"

lemma untimed_simps [simp]:
  "OrderID (untimed a) = OrderID a" "Seq (untimed a) = Seq a" "Status (untimed a) = Status a"
  "Fills (untimed a) = Fills a" "TS (untimed a) = 0"
  by (simp_all add: untimed_def)

section \<open>The abstract book's own invariant\<close>

definition pb_inv :: "pbook \<Rightarrow> bool" where
  "pb_inv b \<longleftrightarrow>
     positive (p_bids b) \<and> positive (p_asks b) \<and>
     sorted_wrt (\<lambda>x y. r_price x \<ge> r_price y) (p_bids b) \<and>
     sorted_wrt (\<lambda>x y. r_price x \<le> r_price y) (p_asks b) \<and>
     (\<forall>x \<in> set (p_bids b). \<forall>y \<in> set (p_asks b). r_price x < r_price y) \<and>
     distinct (map r_id (p_bids b @ p_asks b))"

definition accepted :: "pbook \<Rightarrow> Order \<Rightarrow> bool" where
  "accepted b od \<longleftrightarrow> \<not> bad_order od \<and> ID od \<notin> pb_ids b"

definition opposite :: "pbook \<Rightarrow> Order \<Rightarrow> resting list" where
  "opposite b od = (if Side od = Buy then p_asks b else p_bids b)"

definition within_limit :: "Order \<Rightarrow> Fill \<Rightarrow> bool" where
  "within_limit od f \<longleftrightarrow>
     (Type od = Limit \<longrightarrow> (if Side od = Buy then f_Price f \<le> Price od else Price od \<le> f_Price f))"

text \<open>What \<open>SPEC.md\<close> promises of a single acknowledgement of a submit.\<close>

definition ack_sound :: "Order \<Rightarrow> Ack \<Rightarrow> bool" where
  "ack_sound od a \<longleftrightarrow>
     OrderID a = ID od \<and>
     (\<forall>f \<in> set (Fills a). 0 < f_Qty f \<and> within_limit od f) \<and>
     (if Status a = StatusRejected then Fills a = []
      else
        filled (Fills a) \<le> Qty od \<and>
        (Status a = StatusFilled \<longleftrightarrow> filled (Fills a) = Qty od) \<and>
        (Status a = StatusPartial \<longleftrightarrow> Fills a \<noteq> [] \<and> filled (Fills a) < Qty od) \<and>
        (Status a = StatusResting \<longleftrightarrow> Fills a = [] \<and> Type od = Limit) \<and>
        (Status a = StatusCanceled \<longleftrightarrow> Fills a = [] \<and> Type od = Market))"

text \<open>The side an accepted order's remainder \<open>n\<close> is added to.\<close>

definition rested :: "Order \<Rightarrow> int \<Rightarrow> resting list \<Rightarrow> resting list" where
  "rested od n rs =
     (if n = 0 \<or> Type od = Market then rs
      else pb_rest \<lparr>r_id = ID od, r_side = Side od, r_price = Price od, r_qty = n\<rparr> rs)"

lemma pb_submit_accepted:
  assumes "accepted b od" "pb_match od (Qty od) (opposite b od) = (n, opp, fs)"
  shows "snd (pb_submit b od) =
      \<lparr>OrderID = ID od, Seq = i64 (p_seq b + 1), Status = status_of_match od n, Fills = fs, TS = 0\<rparr>"
    "fst (pb_submit b od) =
      \<lparr>p_bids = if Side od = Buy then rested od n (p_bids b) else opp,
       p_asks = if Side od = Buy then opp else rested od n (p_asks b),
       p_seq = i64 (p_seq b + 1)\<rparr>"
proof -
  have "pb_ids (b\<lparr>p_seq := s\<rparr>) = pb_ids b" for s by (simp add: pb_ids_def)
  then show "snd (pb_submit b od) =
      \<lparr>OrderID = ID od, Seq = i64 (p_seq b + 1), Status = status_of_match od n, Fills = fs, TS = 0\<rparr>"
    "fst (pb_submit b od) =
      \<lparr>p_bids = if Side od = Buy then rested od n (p_bids b) else opp,
       p_asks = if Side od = Buy then opp else rested od n (p_asks b),
       p_seq = i64 (p_seq b + 1)\<rparr>"
    using assms by (cases "Side od = Buy"; simp add: accepted_def opposite_def pb_submit_def Let_def rested_def)+
qed

lemma ack_sound_untimed: "ack_sound od (untimed a) \<longleftrightarrow> ack_sound od a"
  unfolding ack_sound_def untimed_simps ..

lemma by_priority_crossing:
  assumes "by_priority (takeWhile (crosses od) rs) fs" "f \<in> set fs"
  shows "within_limit od f"
proof -
  have "f_Price f \<in> set (map f_Price fs)" using assms(2) by simp
  then have "f_Price f \<in> r_price ` set (takeWhile (crosses od) rs)"
    unfolding by_priority_prices[OF assms(1)] by (auto dest: in_set_takeD)
  then show ?thesis by (auto simp: within_limit_def crosses_def dest!: set_takeWhileD)
qed

lemma pb_inv_opposite: "pb_inv b \<Longrightarrow> positive (opposite b od)"
  by (simp add: pb_inv_def opposite_def)

lemma filled_eq_0: "\<forall>f \<in> set fs. 0 < f_Qty f \<Longrightarrow> filled fs = 0 \<longleftrightarrow> fs = []"
  and filled_nonneg: "\<forall>f \<in> set fs. 0 < f_Qty f \<Longrightarrow> 0 \<le> filled fs"
  by (induction fs) (auto simp: add_nonneg_eq_0_iff add_pos_nonneg)

lemma pb_submit_rejected:
  "\<not> accepted b od \<Longrightarrow> snd (pb_submit b od) =
     \<lparr>OrderID = ID od, Seq = i64 (p_seq b + 1), Status = StatusRejected, Fills = [], TS = 0\<rparr>"
  by (auto simp: accepted_def pb_submit_def Let_def pb_ids_def)

lemma pb_submit_sound:
  assumes "pb_inv b"
  shows "ack_sound od (snd (pb_submit b od))"
proof (cases "accepted b od")
  case False
  then show ?thesis by (simp add: pb_submit_rejected ack_sound_def)
next
  case True
  obtain n opp fs where m: "pb_match od (Qty od) (opposite b od) = (n, opp, fs)"
    by (metis prod_cases3)
  note a = pb_submit_accepted(1)[OF True m]
  have q: "0 < Qty od" "Type od = Limit \<or> Type od = Market"
    using True by (auto simp: accepted_def bad_order_def)
  note A = pb_match_account[OF pb_inv_opposite[OF assms] less_imp_le[OF q(1)] m]
  have pos: "\<forall>f \<in> set fs. 0 < f_Qty f" using by_priority_nonneg[OF A(5)] by blast
  have "\<forall>f \<in> set fs. within_limit od f" using by_priority_crossing[OF A(5)] by blast
  moreover have "n = 0 \<longleftrightarrow> filled fs = Qty od" "n < Qty od \<longleftrightarrow> fs \<noteq> []" "filled fs \<le> Qty od"
    using A(1,3) filled_eq_0[OF pos] filled_nonneg[OF pos] by auto
  ultimately show ?thesis
    using a pos q A(1,3)
    by (auto simp: ack_sound_def status_of_match_def status_defs)
qed

section \<open>Resting and canceling\<close>

lemma pb_submit_resting:
  assumes "pb_inv b" "Status (snd (pb_submit b od)) = StatusResting"
  shows "accepted b od \<and> Type od \<noteq> Market \<and> Fills (snd (pb_submit b od)) = [] \<and>
    pb_match od (Qty od) (opposite b od) = (Qty od, opposite b od, [])"
proof -
  have acc: "accepted b od"
    using assms(2) by (rule_tac ccontr) (simp add: pb_submit_rejected status_defs)
  obtain n opp fs where m: "pb_match od (Qty od) (opposite b od) = (n, opp, fs)"
    by (metis prod_cases3)
  have q: "0 < Qty od" using acc by (auto simp: accepted_def bad_order_def)
  note A = pb_match_account[OF pb_inv_opposite[OF assms(1)] less_imp_le[OF q] m]
  have st: "status_of_match od n = StatusResting" using assms(2) pb_submit_accepted(1)[OF acc m] by simp
  then have n: "n = Qty od" "Type od \<noteq> Market"
    using A(1) filled_nonneg[of fs] by_priority_nonneg[OF A(5)]
    by (auto simp: status_of_match_def status_defs split: if_splits)
  then have fs: "fs = []" using A(1) filled_eq_0[of fs] by_priority_nonneg[OF A(5)] by auto
  have "takeWhile (crosses od) (opposite b od) = []"
    using A(7) n q fs positive_takeWhile[OF pb_inv_opposite[OF assms(1)]]
    by (cases "takeWhile (crosses od) (opposite b od)")
       (auto simp: positive_def, metis positive_volume positive_def add_pos_nonneg less_irrefl min_def
          not_less set_takeWhileD list.set_intros)
  then have "dropWhile (crosses od) (opposite b od) = opposite b od"
    by (metis append_Nil takeWhile_dropWhile_id)
  then have "opp = opposite b od" using A(6) n q by simp
  with n fs m show ?thesis using acc pb_submit_accepted(1)[OF acc m] by simp
qed

lemma filter_other_ids: "i \<notin> r_id ` set rs \<Longrightarrow> filter (\<lambda>r. r_id r \<noteq> i) rs = rs"
  by (rule filter_True) auto

lemma pb_rest_cancel:
  assumes "pb_inv b" "Status (snd (pb_submit b od)) = StatusResting"
  defines "b1 \<equiv> fst (pb_submit b od)"
  shows "Status (snd (pb_cancel b1 (ID od))) = StatusCanceled"
    "p_bids (fst (pb_cancel b1 (ID od))) = p_bids b"
    "p_asks (fst (pb_cancel b1 (ID od))) = p_asks b"
    "Status (snd (pb_cancel (fst (pb_cancel b1 (ID od))) (ID od))) = StatusUnknown"
proof -
  note R = pb_submit_resting[OF assms(1,2)]
  have acc: "accepted b od" and m: "pb_match od (Qty od) (opposite b od) = (Qty od, opposite b od, [])"
    using R by blast+
  have q: "0 < Qty od" and fresh: "ID od \<notin> r_id ` set (p_bids b)" "ID od \<notin> r_id ` set (p_asks b)"
    using acc by (auto simp: accepted_def bad_order_def pb_ids_def)
  let ?r = "\<lparr>r_id = ID od, r_side = Side od, r_price = Price od, r_qty = Qty od\<rparr>"
  have b1: "b1 = \<lparr>p_bids = if Side od = Buy then pb_rest ?r (p_bids b) else p_bids b,
       p_asks = if Side od = Buy then p_asks b else pb_rest ?r (p_asks b),
       p_seq = i64 (p_seq b + 1)\<rparr>"
    unfolding b1_def pb_submit_accepted(2)[OF acc m] using R q by (simp add: opposite_def rested_def)
  have mem: "ID od \<in> pb_ids b1" by (auto simp: pb_ids_def b1 set_pb_rest)
  then have c: "pb_cancel b1 (ID od) =
     (\<lparr>p_bids = p_bids b, p_asks = p_asks b, p_seq = i64 (p_seq b1 + 1)\<rparr>,
      \<lparr>OrderID = ID od, Seq = i64 (p_seq b1 + 1), Status = StatusCanceled, Fills = [], TS = 0\<rparr>)"
    using fresh by (auto simp: pb_cancel_def Let_def pb_ids_def b1 filter_pb_rest filter_other_ids)
  then show "Status (snd (pb_cancel b1 (ID od))) = StatusCanceled"
    "p_bids (fst (pb_cancel b1 (ID od))) = p_bids b" "p_asks (fst (pb_cancel b1 (ID od))) = p_asks b"
    by simp_all
  show "Status (snd (pb_cancel (fst (pb_cancel b1 (ID od))) (ID od))) = StatusUnknown"
    unfolding c using fresh by (auto simp: pb_cancel_def Let_def pb_ids_def)
qed

section \<open>Sequence numbers\<close>

lemma pb_step_seq:
  "Seq (snd (pb_step b x)) = i64 (p_seq b + 1)" "p_seq (fst (pb_step b x)) = i64 (p_seq b + 1)"
  by (cases x; simp add: pb_submit_def pb_cancel_def Let_def split: prod.splits)+

lemma pb_run_seq:
  "0 \<le> p_seq b \<Longrightarrow> p_seq b + int (length ops) < 2 ^ 63 \<Longrightarrow>
   map Seq (snd (pb_run b ops)) = map (\<lambda>k. p_seq b + 1 + int k) [0..<length ops]"
proof (induction ops arbitrary: b)
  case (Cons x ops)
  let ?b = "fst (pb_step b x)"
  have seq: "p_seq ?b = p_seq b + 1" "Seq (snd (pb_step b x)) = p_seq b + 1"
    using Cons.prems by (simp_all add: pb_step_seq i64_nonneg)
  then have "map Seq (snd (pb_run ?b ops)) = map (\<lambda>k. p_seq ?b + 1 + int k) [0..<length ops]"
    using Cons.prems by (intro Cons.IH) simp_all
  moreover have "[0..<length (x # ops)] = 0 # map Suc [0..<length ops]"
    by (simp add: upt_conv_Cons map_Suc_upt del: upt_Suc)
  ultimately show ?case
    using seq by (simp add: Let_def split_beta comp_def del: upt_Suc)
qed simp

section \<open>The interface\<close>

locale price_time_engine =
  fixes init :: 's
    and submit :: "'s \<Rightarrow> int \<Rightarrow> Order \<Rightarrow> 's \<times> Ack"
    and cancel :: "'s \<Rightarrow> int \<Rightarrow> string \<Rightarrow> 's \<times> Ack"
    and abs :: "'s \<Rightarrow> pbook"
    and inv :: "'s \<Rightarrow> bool"
  assumes init_inv: "inv init"
    and init_abs: "abs init = pb_new"
    and inv_abs: "inv s \<Longrightarrow> pb_inv (abs s)"
    and submit_inv: "inv s \<Longrightarrow> order_ok od \<Longrightarrow> inv (fst (submit s t od))"
    and submit_abs: "inv s \<Longrightarrow> order_ok od \<Longrightarrow> abs (fst (submit s t od)) = fst (pb_submit (abs s) od)"
    and submit_ack: "inv s \<Longrightarrow> order_ok od \<Longrightarrow> untimed (snd (submit s t od)) = snd (pb_submit (abs s) od)"
    and cancel_inv: "inv s \<Longrightarrow> inv (fst (cancel s t i))"
    and cancel_abs: "inv s \<Longrightarrow> abs (fst (cancel s t i)) = fst (pb_cancel (abs s) i)"
    and cancel_ack: "inv s \<Longrightarrow> untimed (snd (cancel s t i)) = snd (pb_cancel (abs s) i)"
begin

lemma step_refines:
  assumes "inv s" "op_ok x"
  shows "inv (fst (engine_step submit cancel s (t, x)))"
    "abs (fst (engine_step submit cancel s (t, x))) = fst (pb_step (abs s) x)"
    "untimed (snd (engine_step submit cancel s (t, x))) = snd (pb_step (abs s) x)"
  using assms submit_inv submit_abs submit_ack cancel_inv cancel_abs cancel_ack
  by (cases x; simp)+

lemma run_refines:
  assumes "inv s" "\<forall>(t, x) \<in> set ops. op_ok x"
  shows "inv (fst (engine_run submit cancel s ops)) \<and>
    abs (fst (engine_run submit cancel s ops)) = fst (pb_run (abs s) (map snd ops)) \<and>
    map untimed (snd (engine_run submit cancel s ops)) = snd (pb_run (abs s) (map snd ops))"
  using assms
proof (induction ops arbitrary: s)
  case (Cons tx ops)
  obtain t x where tx: "tx = (t, x)" by fastforce
  note S = step_refines[of s x t]
  have "inv s" "op_ok x" "\<forall>(t, x) \<in> set ops. op_ok x" using Cons.prems tx by auto
  with S Cons.IH[of "fst (engine_step submit cancel s (t, x))"] show ?case
    by (simp add: tx Let_def split_beta)
qed simp

lemma ack_sound_submit:
  assumes "inv s" "order_ok od"
  shows "ack_sound od (snd (submit s t od))"
proof -
  have "ack_sound od (untimed (snd (submit s t od)))"
    unfolding submit_ack[OF assms] using inv_abs[OF assms(1)] by (rule pb_submit_sound)
  then show ?thesis by (simp only: ack_sound_untimed)
qed

lemma run_seq:
  assumes "\<forall>(t, x) \<in> set ops. op_ok x" "int (length ops) < 2 ^ 63"
  shows "map Seq (snd (engine_run submit cancel init ops)) = map (\<lambda>k. 1 + int k) [0..<length ops]"
proof -
  have "map Seq (map untimed as) = map Seq as" for as by simp
  then have "map Seq (snd (engine_run submit cancel init ops)) = map Seq (snd (pb_run pb_new (map snd ops)))"
    using run_refines[OF init_inv assms(1)] init_abs by metis
  then show ?thesis using pb_run_seq[of pb_new "map snd ops"] assms(2) by (simp add: pb_new_def)
qed

lemma run_from_init:
  "\<forall>(t, x) \<in> set ops. op_ok x \<Longrightarrow>
   map untimed (snd (engine_run submit cancel init ops)) = snd (pb_run pb_new (map snd ops))"
  using run_refines[OF init_inv] init_abs by simp

end

end
