(* ===== verification/Book_Refinement.thy ===== *)
theory Book_Refinement
  imports Contract
begin

text \<open>
  The pointer-and-level book of \<open>Matching\<close> refines the flat book of \<open>Priority_Book\<close>:
  the representation invariant \<open>book_inv\<close>, the abstraction \<open>abs_book\<close>, and one
  simulation lemma per loop and per operation.
\<close>

section \<open>Abstraction and invariant\<close>

definition ptrs :: "level list \<Rightarrow> ptr list" where
  "ptrs lvs = concat (map lv_queue lvs)"

definition entries :: "resting list \<Rightarrow> level list \<Rightarrow> resting list" where
  "entries h lvs = map ((!) h) (ptrs lvs)"

definition abs_book :: "Book \<Rightarrow> pbook" where
  "abs_book b = \<lparr>p_bids = entries (heap b) (bids b), p_asks = entries (heap b) (asks b), p_seq = seq b\<rparr>"

definition meta :: "resting \<Rightarrow> string \<times> Side \<times> int" where
  "meta r = (r_id r, r_side r, r_price r)"

definition live :: "resting list \<Rightarrow> ptr list \<Rightarrow> bool" where
  "live h ps \<longleftrightarrow> (\<forall>p \<in> set ps. p < length h \<and> 0 < r_qty (h ! p) \<and> r_qty (h ! p) < 2 ^ 63)"

definition levels_ok :: "Side \<Rightarrow> resting list \<Rightarrow> level list \<Rightarrow> bool" where
  "levels_ok sd h lvs \<longleftrightarrow>
     (\<forall>lv \<in> set lvs. lv_queue lv \<noteq> [] \<and> live h (lv_queue lv) \<and>
        (\<forall>p \<in> set (lv_queue lv). r_price (h ! p) = lv_price lv \<and> r_side (h ! p) = sd))"

definition indexes :: "(string, ptr) gomap \<Rightarrow> resting list \<Rightarrow> ptr set \<Rightarrow> bool" where
  "indexes ix h S \<longleftrightarrow>
     gm_ok ix \<and> (\<forall>i p. map_of ix i = Some p \<longleftrightarrow> p \<in> S \<and> r_id (h ! p) = i)"

definition unindex :: "resting list \<Rightarrow> ptr list \<Rightarrow> (string, ptr) gomap \<Rightarrow> (string, ptr) gomap" where
  "unindex h ds ix = fold (\<lambda>p ix. gm_delete ix (r_id (h ! p))) ds ix"

definition book_ptrs :: "Book \<Rightarrow> ptr list" where
  "book_ptrs b = ptrs (bids b) @ ptrs (asks b)"

definition book_inv :: "Book \<Rightarrow> bool" where
  "book_inv b \<longleftrightarrow>
     levels_ok Buy (heap b) (bids b) \<and> levels_ok Sell (heap b) (asks b) \<and>
     sorted_wrt (>) (map lv_price (bids b)) \<and> sorted_wrt (<) (map lv_price (asks b)) \<and>
     (\<forall>x \<in> set (bids b). \<forall>y \<in> set (asks b). lv_price x < lv_price y) \<and>
     (\<forall>lv \<in> set (bids b) \<union> set (asks b). 0 < lv_price lv) \<and>
     distinct (map (\<lambda>p. r_id (heap b ! p)) (book_ptrs b)) \<and>
     indexes (byID b) (heap b) (set (book_ptrs b)) \<and> is_i64 (seq b)"

lemma ptrs_simps [simp]:
  "ptrs [] = []" "ptrs (lv # lvs) = lv_queue lv @ ptrs lvs"
  by (simp_all add: ptrs_def)

lemma entries_simps [simp]:
  "entries h [] = []" "entries h (lv # lvs) = map ((!) h) (lv_queue lv) @ entries h lvs"
  by (simp_all add: entries_def)

lemma live_simps [simp]:
  "live h []"
  "live h (p # ps) \<longleftrightarrow> p < length h \<and> 0 < r_qty (h ! p) \<and> r_qty (h ! p) < 2 ^ 63 \<and> live h ps"
  "live h (ps @ qs) \<longleftrightarrow> live h ps \<and> live h qs"
  by (auto simp: live_def)

lemma levels_ok_simps [simp]:
  "levels_ok sd h []"
  "levels_ok sd h (lv # lvs) \<longleftrightarrow>
     lv_queue lv \<noteq> [] \<and> live h (lv_queue lv) \<and>
     (\<forall>p \<in> set (lv_queue lv). r_price (h ! p) = lv_price lv \<and> r_side (h ! p) = sd) \<and>
     levels_ok sd h lvs"
  by (auto simp: levels_ok_def)

lemma levels_ok_live: "levels_ok sd h lvs \<Longrightarrow> live h (ptrs lvs)"
  by (induction lvs) auto

lemma unindex_simps [simp]:
  "unindex h [] ix = ix"
  "unindex h (p # ds) ix = unindex h ds (gm_delete ix (r_id (h ! p)))"
  "unindex h (ds @ es) ix = unindex h es (unindex h ds ix)"
  by (simp_all add: unindex_def)

section \<open>The inner loop\<close>

lemma fill_level_done: "remaining \<le> 0 \<Longrightarrow> fill_level remaining ps h ix fs = (remaining, ps, h, ix, fs)"
  by (cases ps) (auto simp: fill_level.simps)

lemma fill_level_partial:
  assumes "0 < n" "n < r_qty (h ! p)" "r_qty (h ! p) < 2 ^ 63"
  shows "fill_level n (p # ps) h ix fs =
    (0, p # ps, h[p := (h ! p)\<lparr>r_qty := r_qty (h ! p) - n\<rparr>], ix, fs @ [fill_of (h ! p) n])"
  using assms
  by (subst fill_level.simps(2)) (simp add: Let_def fill_level_done fill_of_def i64_nonneg)

lemma fill_level_full:
  assumes "0 < r_qty (h ! p)" "r_qty (h ! p) \<le> n" "n < 2 ^ 63"
  shows "fill_level n (p # ps) h ix fs =
    fill_level (n - r_qty (h ! p)) ps (h[p := (h ! p)\<lparr>r_qty := 0\<rparr>])
      (gm_delete ix (r_id (h ! p))) (fs @ [fill_of (h ! p) (r_qty (h ! p))])"
  using assms
  by (subst fill_level.simps(2)) (simp add: Let_def fill_of_def i64_nonneg)

lemma live_update_other: "p \<notin> set ps \<Longrightarrow> live (h[p := r]) ps \<longleftrightarrow> live h ps"
  by (induction ps) auto

lemma unindex_cong:
  "\<forall>p \<in> set ds. r_id (h ! p) = r_id (h' ! p) \<Longrightarrow> unindex h ds ix = unindex h' ds ix"
  by (induction ds arbitrary: ix) auto

lemma map_meta_update:
  "p < length h \<Longrightarrow> meta r = meta (h ! p) \<Longrightarrow> map meta (h[p := r]) = map meta h"
  by (simp add: map_update list_update_same_conv)

lemma fill_level_refines:
  assumes "live h ps" "distinct ps" "0 \<le> n" "n < 2 ^ 63"
    and "fill_level n ps h ix fs = (n', ps', h', ix', fs')"
  shows "\<exists>gs ds. ps = ds @ ps' \<and> fs' = fs @ gs \<and>
     pb_fill n (map ((!) h) ps) = (n', map ((!) h') ps', gs) \<and>
     map meta h' = map meta h \<and> (\<forall>p. p \<notin> set ps \<longrightarrow> h' ! p = h ! p) \<and>
     live h' ps' \<and> ix' = unindex h ds ix \<and> 0 \<le> n' \<and> n' \<le> n"
  using assms
proof (induction ps arbitrary: n h ix fs)
  case Nil
  then show ?case by auto
next
  case (Cons p ps)
  let ?r = "h ! p"
  consider "n = 0" | "0 < n" "n < r_qty ?r" | "0 < n" "r_qty ?r \<le> n"
    using Cons.prems(3) by linarith
  then show ?case
  proof cases
    case 1
    with Cons.prems show ?thesis by (auto simp: fill_level_done)
  next
    case 2
    with Cons.prems have "n' = 0" "ps' = p # ps" "ix' = ix" "fs' = fs @ [fill_of ?r n]"
      and h': "h' = h[p := ?r\<lparr>r_qty := r_qty ?r - n\<rparr>]"
      by (auto simp: fill_level_partial)
    moreover have "map meta h' = map meta h"
      using Cons.prems h' by (simp add: map_meta_update meta_def)
    ultimately show ?thesis
      using 2 Cons.prems
      by (intro exI[of _ "[fill_of ?r n]"] exI[of _ "[]"])
         (simp add: map_nth_update_other live_update_other)
  next
    case 3
    let ?h = "h[p := ?r\<lparr>r_qty := 0\<rparr>]"
    have step: "fill_level (n - r_qty ?r) ps ?h (gm_delete ix (r_id ?r))
                 (fs @ [fill_of ?r (r_qty ?r)]) = (n', ps', h', ix', fs')"
      using 3 Cons.prems by (simp add: fill_level_full)
    have "live ?h ps" "distinct ps" "0 \<le> n - r_qty ?r" "n - r_qty ?r < 2 ^ 63"
      using 3 Cons.prems by (auto simp: live_update_other)
    from Cons.IH[OF this step] obtain gs ds where *:
      "ps = ds @ ps'" "fs' = (fs @ [fill_of ?r (r_qty ?r)]) @ gs"
      "pb_fill (n - r_qty ?r) (map ((!) ?h) ps) = (n', map ((!) h') ps', gs)"
      "map meta h' = map meta ?h" "\<forall>q. q \<notin> set ps \<longrightarrow> h' ! q = ?h ! q"
      "live h' ps'" "ix' = unindex ?h ds (gm_delete ix (r_id ?r))" "0 \<le> n'" "n' \<le> n - r_qty ?r"
      by blast
    have "unindex ?h ds (gm_delete ix (r_id ?r)) = unindex h (p # ds) ix"
      using Cons.prems *(1) by (auto intro!: unindex_cong simp: nth_list_update)
    moreover have "map meta ?h = map meta h"
      using Cons.prems by (simp add: map_meta_update meta_def)
    ultimately show ?thesis
      using 3 Cons.prems *
      by (intro exI[of _ "fill_of ?r (r_qty ?r) # gs"] exI[of _ "p # ds"])
         (auto simp: map_nth_update_other)
  qed
qed

section \<open>The outer loop\<close>

lemma crosses_stops: "\<not> bad_order od \<Longrightarrow> crosses od r \<longleftrightarrow> \<not> stops od (r_price r)"
  by (auto simp: bad_order_def crosses_def stops_def)

lemma meta_nth: "map meta h' = map meta h \<Longrightarrow> p < length h \<Longrightarrow> meta (h' ! p) = meta (h ! p)"
  by (metis length_map nth_map)

lemma meta_length: "map meta h' = map meta h \<Longrightarrow> length h' = length h"
  by (rule map_eq_imp_length_eq)

lemma live_agree:
  "live h ps \<Longrightarrow> length h' = length h \<Longrightarrow> \<forall>p \<in> set ps. h' ! p = h ! p \<Longrightarrow> live h' ps"
  by (induction ps) auto

lemma levels_ok_agree:
  "levels_ok sd h lvs \<Longrightarrow> length h' = length h \<Longrightarrow> \<forall>p \<in> set (ptrs lvs). h' ! p = h ! p \<Longrightarrow>
   levels_ok sd h' lvs"
  by (induction lvs) (auto intro: live_agree)

lemma entries_agree: "\<forall>p \<in> set (ptrs lvs). h' ! p = h ! p \<Longrightarrow> entries h' lvs = entries h lvs"
  by (simp add: entries_def)

lemma match_loop_done:
  "remaining \<le> 0 \<Longrightarrow> match_loop od remaining opp h ix fs = (remaining, opp, h, ix, fs)"
  by (cases opp) (auto simp: match_loop.simps)

lemma match_loop_step:
  "0 < n \<Longrightarrow> match_loop od n (best # opp) h ix fs =
    (if stops od (lv_price best) then (n, best # opp, h, ix, fs)
     else case fill_level n (lv_queue best) h ix fs of (n1, q1, h1, ix1, fs1) \<Rightarrow>
       if q1 = [] then match_loop od n1 opp h1 ix1 fs1
       else (n1, best\<lparr>lv_queue := q1\<rparr> # opp, h1, ix1, fs1))"
  by (subst match_loop.simps(2))
     (auto split: prod.splits simp: match_loop_done dest: fill_level_exit_eq [OF sym])

lemma match_loop_refines:
  assumes "\<not> bad_order od" "levels_ok sd h opp" "distinct (ptrs opp)" "0 \<le> n" "n < 2 ^ 63"
    and "match_loop od n opp h ix fs = (n', opp', h', ix', fs')"
  shows "\<exists>gs ds k. ptrs opp = ds @ ptrs opp' \<and> fs' = fs @ gs \<and>
     pb_match od n (entries h opp) = (n', entries h' opp', gs) \<and>
     map meta h' = map meta h \<and> (\<forall>p. p \<notin> set (ptrs opp) \<longrightarrow> h' ! p = h ! p) \<and>
     levels_ok sd h' opp' \<and> ix' = unindex h ds ix \<and> 0 \<le> n' \<and> n' \<le> n \<and>
     map lv_price opp' = drop k (map lv_price opp)"
  using assms
proof (induction opp arbitrary: n h ix fs)
  case Nil
  then show ?case by auto
next
  case (Cons best opp)
  let ?q = "lv_queue best"
  have idle: ?case if "n' = n" "opp' = best # opp" "h' = h" "ix' = ix" "fs' = fs"
    "pb_match od n (entries h (best # opp)) = (n, entries h (best # opp), [])"
    using that Cons.prems by (intro exI[of _ "[]"] exI[of _ "[]"] exI[of _ 0]) simp
  consider "n = 0" | "0 < n" "stops od (lv_price best)" | "0 < n" "\<not> stops od (lv_price best)"
    using Cons.prems(4) by linarith
  then show ?case
  proof cases
    case 1
    with Cons.prems show ?thesis by (intro idle) (auto simp: match_loop_done)
  next
    case 2
    obtain p ps where q: "?q = p # ps" using Cons.prems(2) by (cases ?q) auto
    then have "\<not> crosses od (h ! p)"
      using 2 Cons.prems(1,2) by (simp add: crosses_stops)
    then show ?thesis
      using 2 q Cons.prems(6) by (intro idle) (auto simp: match_loop_step pb_match_blocked)
  next
    case 3
    obtain n1 q1 h1 ix1 fs1 where fl: "fill_level n ?q h ix fs = (n1, q1, h1, ix1, fs1)"
      by (metis prod_cases5)
    have "live h ?q" "distinct ?q" using Cons.prems(2,3) by auto
    from fill_level_refines[OF this Cons.prems(4,5) fl] obtain gs ds where f:
      "?q = ds @ q1" "fs1 = fs @ gs"
      "pb_fill n (map ((!) h) ?q) = (n1, map ((!) h1) q1, gs)"
      "map meta h1 = map meta h" "\<forall>p. p \<notin> set ?q \<longrightarrow> h1 ! p = h ! p"
      "live h1 q1" "ix1 = unindex h ds ix" "0 \<le> n1" "n1 \<le> n"
      by blast
    have cr: "\<forall>x \<in> set (map ((!) h) ?q). crosses od x"
      using 3 Cons.prems(1,2) by (auto simp: crosses_stops)
    have agree: "\<forall>p \<in> set (ptrs opp). h1 ! p = h ! p"
      using Cons.prems(3) f(5) by auto
    have ok1: "levels_ok sd h1 opp" "entries h1 opp = entries h opp"
      using Cons.prems(2) agree f(4) by (auto intro: levels_ok_agree entries_agree dest: meta_length)
    note block = pb_match_block[OF cr f(3), of "entries h opp"]
    show ?thesis
    proof (cases "q1 = []")
      case True
      then have "match_loop od n1 opp h1 ix1 fs1 = (n', opp', h', ix', fs')"
        using 3 fl Cons.prems(6) by (simp add: match_loop_step)
      moreover have "distinct (ptrs opp)" "n1 < 2 ^ 63" using Cons.prems(3,5) f(9) by auto
      ultimately obtain gs2 ds2 k where g:
        "ptrs opp = ds2 @ ptrs opp'" "fs' = fs1 @ gs2"
        "pb_match od n1 (entries h1 opp) = (n', entries h' opp', gs2)"
        "map meta h' = map meta h1" "\<forall>p. p \<notin> set (ptrs opp) \<longrightarrow> h' ! p = h1 ! p"
        "levels_ok sd h' opp'" "ix' = unindex h1 ds2 ix1" "0 \<le> n'" "n' \<le> n1"
        "map lv_price opp' = drop k (map lv_price opp)"
        using Cons.IH[OF Cons.prems(1) ok1(1) _ f(8)] by blast
      have "unindex h1 ds2 ix1 = unindex h ds2 ix1"
        using agree g(1) by (intro unindex_cong) auto
      then show ?thesis
        using True f g ok1(2) block
        by (intro exI[of _ "gs @ gs2"] exI[of _ "?q @ ds2"] exI[of _ "Suc k"]) auto
    next
      case False
      then have eq: "n' = n1" "opp' = best\<lparr>lv_queue := q1\<rparr> # opp" "h' = h1" "ix' = ix1" "fs' = fs1"
        using 3 fl Cons.prems(6) by (auto simp: match_loop_step)
      have "\<forall>p \<in> set q1. meta (h1 ! p) = meta (h ! p)"
        using Cons.prems(2) f(1,4) by (auto simp: live_def intro!: meta_nth)
      then have "levels_ok sd h1 (best\<lparr>lv_queue := q1\<rparr> # opp)"
        using False Cons.prems(2) f(1,6) ok1(1) by (simp add: meta_def)
      then show ?thesis
        using False eq f ok1(2) block
        by (intro exI[of _ gs] exI[of _ ds] exI[of _ 0]) auto
    qed
  qed
qed

section \<open>Resting\<close>

lemma pb_rest_split:
  "\<forall>x \<in> set xs. at_least_as_good r x \<Longrightarrow> \<forall>y \<in> set ys. \<not> at_least_as_good r y \<Longrightarrow>
   pb_rest r (xs @ ys) = xs @ r # ys"
  by (cases ys) (simp_all add: pb_rest_def takeWhile_all dropWhile_all)

definition before :: "Side \<Rightarrow> int \<Rightarrow> int \<Rightarrow> bool" where
  "before sd x y \<longleftrightarrow> (if sd = Buy then x > y else x < y)"

lemma before_Buy [simp]: "before Buy = (>)" and before_Sell [simp]: "before Sell = (<)"
  by (simp_all add: before_def fun_eq_iff)

lemma good_before: "at_least_as_good r x \<longleftrightarrow> \<not> before (r_side r) (r_price r) (r_price x)"
  by (auto simp: at_least_as_good_def before_def)

lemma before_trans: "before sd x y \<Longrightarrow> before sd y z \<Longrightarrow> before sd x z"
  by (auto simp: before_def split: if_splits)

lemma before_irrefl [simp]: "\<not> before sd x x"
  by (simp add: before_def)

lemma before_asym: "before sd x y \<Longrightarrow> \<not> before sd y x"
  by (auto simp: before_def split: if_splits)

lemma before_total: "x \<noteq> y \<Longrightarrow> \<not> before sd x y \<Longrightarrow> before sd y x"
  by (auto simp: before_def split: if_splits)

lemma sorted_before_distinct: "sorted_wrt (before sd) xs \<Longrightarrow> distinct xs"
  by (induction xs) auto

lemma rest_at_before:
  assumes "r_side r = Buy \<or> r_side r = Sell"
  shows "rest_at r p (lv # lvs) =
     (if lv_price lv = r_price r then lv\<lparr>lv_queue := lv_queue lv @ [p]\<rparr> # lvs
      else if before (r_side r) (r_price r) (lv_price lv)
        then \<lparr>lv_price = r_price r, lv_queue = [p]\<rparr> # lv # lvs
      else lv # rest_at r p lvs)"
  using assms by (auto simp: before_def)

lemma rest_at_split:
  assumes "r_side r = Buy \<or> r_side r = Sell" "levels_ok sd h lvs"
    "sorted_wrt (before (r_side r)) (map lv_price lvs)"
  shows "\<exists>A B. ptrs lvs = A @ B \<and> ptrs (rest_at r p lvs) = A @ p # B \<and>
     (\<forall>q \<in> set A. at_least_as_good r (h ! q)) \<and> (\<forall>q \<in> set B. \<not> at_least_as_good r (h ! q))"
  using assms
proof (induction lvs)
  case Nil
  then show ?case by simp
next
  case (Cons lv lvs)
  have tail: "\<forall>q \<in> set (ptrs lvs). before (r_side r) (lv_price lv) (r_price (h ! q))"
    using Cons.prems(2,3) by (fastforce simp: ptrs_def levels_ok_def)
  consider "lv_price lv = r_price r"
    | "lv_price lv \<noteq> r_price r" "before (r_side r) (r_price r) (lv_price lv)"
    | "lv_price lv \<noteq> r_price r" "\<not> before (r_side r) (r_price r) (lv_price lv)"
    by blast
  then show ?case
  proof cases
    case 1
    then show ?thesis using Cons.prems(1,2) tail
      by (intro exI[of _ "lv_queue lv"] exI[of _ "ptrs lvs"])
         (auto simp: rest_at_before good_before simp del: rest_at.simps(2))
  next
    case 2
    then show ?thesis using Cons.prems(1,2) tail
      by (intro exI[of _ "[]"] exI[of _ "ptrs (lv # lvs)"])
         (auto simp: rest_at_before good_before simp del: rest_at.simps(2) intro: before_trans)
  next
    case 3
    obtain A B where AB: "ptrs lvs = A @ B" "ptrs (rest_at r p lvs) = A @ p # B"
      "\<forall>q \<in> set A. at_least_as_good r (h ! q)" "\<forall>q \<in> set B. \<not> at_least_as_good r (h ! q)"
      using Cons.IH Cons.prems by auto
    then show ?thesis using 3 Cons.prems(1,2)
      by (intro exI[of _ "lv_queue lv @ A"] exI[of _ B])
         (auto simp: rest_at_before good_before simp del: rest_at.simps(2))
  qed
qed

lemma rest_at_prices: "set (map lv_price (rest_at r p lvs)) = insert (r_price r) (set (map lv_price lvs))"
  by (induction lvs) auto

lemma rest_at_sorted:
  assumes "r_side r = Buy \<or> r_side r = Sell" "sorted_wrt (before (r_side r)) (map lv_price lvs)"
  shows "sorted_wrt (before (r_side r)) (map lv_price (rest_at r p lvs))"
  using assms
proof (induction lvs)
  case (Cons lv lvs)
  then show ?case
    using rest_at_prices [of r p lvs]
    by (auto simp: rest_at_before simp del: rest_at.simps(2) intro: before_trans before_total)
qed simp

lemma live_extend: "live h ps \<Longrightarrow> live (h @ [r]) ps"
  by (auto simp: live_def nth_append)

lemma levels_ok_extend: "levels_ok sd h lvs \<Longrightarrow> levels_ok sd (h @ [r]) lvs"
  by (induction lvs) (auto simp: live_extend, auto simp: live_def nth_append)

lemma rest_at_levels_ok:
  assumes "levels_ok (r_side r) h lvs" "0 < r_qty r" "r_qty r < 2 ^ 63"
  shows "levels_ok (r_side r) (h @ [r]) (rest_at r (length h) lvs)"
  using levels_ok_extend[OF assms(1), of r] assms(2,3)
  by (induction lvs) (auto simp: nth_append)

lemma rest_at_entries:
  assumes "r_side r = Buy \<or> r_side r = Sell" "levels_ok (r_side r) h lvs"
    "sorted_wrt (before (r_side r)) (map lv_price lvs)"
  shows "entries (h @ [r]) (rest_at r (length h) lvs) = pb_rest r (entries h lvs)"
proof -
  obtain A B where AB: "ptrs lvs = A @ B" "ptrs (rest_at r (length h) lvs) = A @ length h # B"
    "\<forall>q \<in> set A. at_least_as_good r (h ! q)" "\<forall>q \<in> set B. \<not> at_least_as_good r (h ! q)"
    using rest_at_split[OF assms] by blast
  moreover have "live h (A @ B)" using AB(1) assms(2) levels_ok_live by metis
  then have "map ((!) (h @ [r])) A = map ((!) h) A" "map ((!) (h @ [r])) B = map ((!) h) B"
    by (auto simp: live_def nth_append)
  ultimately show ?thesis
    by (simp add: entries_def pb_rest_split)
qed

lemma rest_at_ptrs:
  "mset (ptrs (rest_at r p lvs)) = add_mset p (mset (ptrs lvs))"
  by (induction lvs) auto

section \<open>The index\<close>

lemma indexes_delete:
  assumes "indexes ix h S" "inj_on (\<lambda>p. r_id (h ! p)) S" "p \<in> S"
  shows "indexes (gm_delete ix (r_id (h ! p))) h (S - {p})"
  using assms by (auto simp: indexes_def inj_on_def)

lemma indexes_unindex:
  assumes "indexes ix h S" "inj_on (\<lambda>p. r_id (h ! p)) S" "set ds \<subseteq> S" "distinct ds"
  shows "indexes (unindex h ds ix) h (S - set ds)"
  using assms
proof (induction ds arbitrary: ix S)
  case (Cons p ds)
  then have "indexes (gm_delete ix (r_id (h ! p))) h (S - {p})"
    by (simp add: indexes_delete)
  moreover have "inj_on (\<lambda>p. r_id (h ! p)) (S - {p})" "set ds \<subseteq> S - {p}"
    using Cons.prems by (auto intro: inj_on_subset)
  ultimately have "indexes (unindex h ds (gm_delete ix (r_id (h ! p)))) h (S - {p} - set ds)"
    using Cons.IH Cons.prems(4) by simp
  moreover have "S - {p} - set ds = S - set (p # ds)" by auto
  ultimately show ?case by (simp only: unindex_simps)
qed simp

lemma indexes_meta:
  assumes "indexes ix h S" "map meta h' = map meta h" "\<forall>p \<in> S. p < length h"
  shows "indexes ix h' S"
proof -
  have "\<forall>p \<in> S. r_id (h' ! p) = r_id (h ! p)"
    using assms(2,3) meta_nth[OF assms(2)] by (auto simp: meta_def)
  then show ?thesis using assms(1) by (auto simp: indexes_def)
qed

lemma indexes_extend:
  assumes "indexes ix h S" "\<forall>p \<in> S. p < length h" "r_id r \<notin> (\<lambda>p. r_id (h ! p)) ` S"
  shows "indexes (gm_put ix (r_id r) (length h)) (h @ [r]) (insert (length h) S)"
  using assms by (auto simp: indexes_def nth_append image_iff split: if_splits)

lemma indexes_dom: "indexes ix h S \<Longrightarrow> map_of ix i \<noteq> None \<longleftrightarrow> i \<in> (\<lambda>p. r_id (h ! p)) ` S"
  by (auto simp: indexes_def)

section \<open>Canceling\<close>

lemma cancel_queue_filter:
  "distinct (map (\<lambda>p. r_id (h ! p)) ps) \<Longrightarrow> cancel_queue h i ps = filter (\<lambda>p. r_id (h ! p) \<noteq> i) ps"
proof (induction ps)
  case (Cons p ps)
  have "filter (\<lambda>q. r_id (h ! q) \<noteq> i) ps = ps" if "r_id (h ! p) = i"
    using that Cons.prems by (intro filter_True) (force simp: image_iff)
  then show ?case using Cons by auto
qed simp

lemma levels_ok_price: "levels_ok sd h lvs \<Longrightarrow> p \<in> set (ptrs lvs) \<Longrightarrow> r_price (h ! p) \<in> lv_price ` set lvs"
  by (induction lvs) auto

lemma cancel_levels_ptrs:
  assumes "levels_ok sd h lvs" "distinct (map lv_price lvs)"
    "distinct (map (\<lambda>p. r_id (h ! p)) (ptrs lvs))"
    "\<forall>p \<in> set (ptrs lvs). r_id (h ! p) = i \<longrightarrow> r_price (h ! p) = price"
  shows "ptrs (cancel_levels h i price lvs) = filter (\<lambda>p. r_id (h ! p) \<noteq> i) (ptrs lvs)"
  using assms
proof (induction lvs)
  case (Cons lv lvs)
  show ?case
  proof (cases "lv_price lv = price")
    case True
    have "filter (\<lambda>p. r_id (h ! p) \<noteq> i) (ptrs lvs) = ptrs lvs"
    proof (rule filter_True)
      have "\<forall>p \<in> set (ptrs lvs). r_price (h ! p) \<in> lv_price ` set lvs"
        using Cons.prems(1) by (intro ballI levels_ok_price) auto
      then show "\<forall>p \<in> set (ptrs lvs). r_id (h ! p) \<noteq> i"
        using Cons.prems(2,4) True by auto
    qed
    then show ?thesis
      using True Cons.prems(3) by (auto simp: cancel_queue_filter Let_def)
  next
    case False
    have "filter (\<lambda>p. r_id (h ! p) \<noteq> i) (lv_queue lv) = lv_queue lv"
      using Cons.prems False by (intro filter_True) auto
    then show ?thesis using False Cons by simp
  qed
qed simp

lemma cancel_queue_subset: "set (cancel_queue h i ps) \<subseteq> set ps"
  by (induction ps) auto

lemma cancel_levels_ok: "levels_ok sd h lvs \<Longrightarrow> levels_ok sd h (cancel_levels h i price lvs)"
  using cancel_queue_subset
  by (induction lvs) (auto simp: Let_def live_def subset_iff)

lemma cancel_levels_prices:
  "set (map lv_price (cancel_levels h i price lvs)) \<subseteq> set (map lv_price lvs)"
  by (induction lvs) (auto simp: Let_def)

lemma cancel_levels_sorted:
  "sorted_wrt R (map lv_price lvs) \<Longrightarrow> sorted_wrt R (map lv_price (cancel_levels h i price lvs))"
  using cancel_levels_prices [of h i price]
  by (induction lvs) (fastforce simp: Let_def)+

section \<open>Both sides together\<close>

text \<open>
  The invariant seen from one side \<open>sd\<close> (its levels \<open>S\<close>) against the other (\<open>T\<close>), so that
  each operation is treated once for buys and sells.
\<close>

definition flip :: "Side \<Rightarrow> Side" where
  "flip sd = (if sd = Buy then Sell else Buy)"

lemma flip_simps [simp]: "flip Buy = Sell" "flip Sell = Buy"
  by (simp_all add: flip_def)

definition sides_inv ::
  "Side \<Rightarrow> resting list \<Rightarrow> level list \<Rightarrow> level list \<Rightarrow> (string, ptr) gomap \<Rightarrow> bool" where
  "sides_inv sd h S T ix \<longleftrightarrow>
     levels_ok sd h S \<and> levels_ok (flip sd) h T \<and>
     sorted_wrt (before sd) (map lv_price S) \<and> sorted_wrt (before (flip sd)) (map lv_price T) \<and>
     (\<forall>x \<in> set (map lv_price S). \<forall>y \<in> set (map lv_price T). before (flip sd) x y) \<and>
     (\<forall>x \<in> set (map lv_price S) \<union> set (map lv_price T). 0 < x) \<and>
     distinct (map (\<lambda>p. r_id (h ! p)) (ptrs S @ ptrs T)) \<and>
     indexes ix h (set (ptrs S @ ptrs T))"

lemma sides_inv_flip: "sides_inv Sell h S T ix \<longleftrightarrow> sides_inv Buy h T S ix"
  unfolding sides_inv_def by (auto simp: Un_commute distinct_append)

lemma book_inv_sides:
  "book_inv b \<longleftrightarrow> sides_inv Buy (heap b) (bids b) (asks b) (byID b) \<and> is_i64 (seq b)"
  unfolding book_inv_def sides_inv_def book_ptrs_def by auto

lemma sides_inv_bound: "sides_inv sd h S T ix \<Longrightarrow> p \<in> set (ptrs S @ ptrs T) \<Longrightarrow> p < length h"
  by (auto simp: sides_inv_def live_def dest: levels_ok_live)

lemma distinct_ids_disjoint:
  "distinct (map (\<lambda>p. r_id (h ! p)) (ps @ qs)) \<Longrightarrow> distinct ps \<and> distinct qs \<and> set ps \<inter> set qs = {}"
  unfolding distinct_map distinct_append by blast

lemma match_loop_stop:
  "match_loop od n opp h ix fs = (n', opp', h', ix', fs') \<Longrightarrow> 0 < n' \<Longrightarrow>
   opp' = [] \<or> stops od (lv_price (hd opp'))"
proof (induction opp arbitrary: n h ix fs)
  case (Cons best opp)
  show ?case
  proof (cases "0 < n")
    case True
    then show ?thesis
      using Cons by (auto simp: match_loop_step split: if_splits prod.splits
                          dest: fill_level_exit_eq [OF sym])
  next
    case False
    then show ?thesis using Cons.prems by (simp add: match_loop_done)
  qed
qed simp

lemma sides_match_uncrossed:
  assumes "sorted_wrt (before (flip (Side od))) (map lv_price T')" "\<not> bad_order od"
    and "T' = [] \<or> stops od (lv_price (hd T'))"
  shows "\<forall>y \<in> set (map lv_price T'). before (flip (Side od)) (Price od) y"
  using assms by (cases T') (auto simp: stops_def bad_order_def)

lemma sides_match:
  assumes inv: "sides_inv sd h S T ix" and od: "\<not> bad_order od" "Side od = sd"
    and n: "0 \<le> n" "n < 2 ^ 63"
    and eq: "match_loop od n T h ix [] = (n', T', h', ix', fs)"
  shows "sides_inv sd h' S T' ix'" "entries h' S = entries h S"
    "pb_match od n (entries h T) = (n', entries h' T', fs)" "0 \<le> n'" "n' \<le> n"
    "(\<lambda>p. r_id (h' ! p)) ` set (ptrs S @ ptrs T') \<subseteq> (\<lambda>p. r_id (h ! p)) ` set (ptrs S @ ptrs T)"
    "0 < n' \<Longrightarrow> \<forall>y \<in> set (map lv_price T'). before (flip sd) (Price od) y"
proof -
  note I = inv[unfolded sides_inv_def]
  let ?id = "\<lambda>h p. r_id (h ! p)"
  have ids: "distinct (map (?id h) (ptrs S @ ptrs T))" using I by blast
  note disj = distinct_ids_disjoint[OF ids]
  obtain gs ds k where m: "ptrs T = ds @ ptrs T'" "fs = [] @ gs"
    "pb_match od n (entries h T) = (n', entries h' T', gs)"
    "map meta h' = map meta h" "\<forall>p. p \<notin> set (ptrs T) \<longrightarrow> h' ! p = h ! p"
    "levels_ok (flip sd) h' T'" "ix' = unindex h ds ix" "0 \<le> n'" "n' \<le> n"
    "map lv_price T' = drop k (map lv_price T)"
    using match_loop_refines[OF od(1) _ _ n eq, of "flip sd"] I disj by blast
  have len: "length h' = length h" using m(4) by (rule meta_length)
  have same: "\<forall>p \<in> set (ptrs S). h' ! p = h ! p" using disj m(5) by blast
  have id_eq: "\<forall>p \<in> set (ptrs S @ ptrs T). ?id h' p = ?id h p"
    using sides_inv_bound[OF inv] meta_nth[OF m(4)] by (auto simp: meta_def)
  have prices: "set (map lv_price T') \<subseteq> set (map lv_price T)"
    by (simp only: m(10) set_drop_subset)
  have sorted': "sorted_wrt (before (flip sd)) (map lv_price T')"
    using I m(10) by (metis sorted_wrt_drop)
  have inj: "inj_on (?id h) (set (ptrs S @ ptrs T))"
    using ids unfolding distinct_map by blast
  have "indexes (unindex h ds ix) h (set (ptrs S @ ptrs T) - set ds)"
    using I inj disj m(1) by (intro indexes_unindex) auto
  moreover have "set (ptrs S @ ptrs T) - set ds = set (ptrs S @ ptrs T')"
    using disj m(1) by auto
  ultimately have ix: "indexes ix' h' (set (ptrs S @ ptrs T'))"
    using m(4,7) sides_inv_bound[OF inv] m(1) by (auto intro!: indexes_meta[where h = h])
  have sub: "set (ptrs T') \<subseteq> set (ptrs T)" using m(1) by auto
  have "map (?id h') (ptrs S @ ptrs T') = map (?id h) (ptrs S @ ptrs T')"
    using id_eq sub by auto
  moreover have "distinct (map (?id h) (ptrs S @ ptrs T'))"
    using ids m(1) by auto
  ultimately have ids': "distinct (map (?id h') (ptrs S @ ptrs T'))" by (simp only:)
  have "levels_ok sd h' S" using I len same by (blast intro: levels_ok_agree)
  then show "sides_inv sd h' S T' ix'"
    using I m(6) sorted' prices ids' ix unfolding sides_inv_def by (meson UnE UnI1 UnI2 subsetD)
  show "entries h' S = entries h S" using same by (rule entries_agree)
  show "pb_match od n (entries h T) = (n', entries h' T', fs)" "0 \<le> n'" "n' \<le> n"
    using m by simp_all
  show "?id h' ` set (ptrs S @ ptrs T') \<subseteq> ?id h ` set (ptrs S @ ptrs T)"
    using id_eq sub by (auto simp: image_iff)
  show "\<forall>y \<in> set (map lv_price T'). before (flip sd) (Price od) y" if "0 < n'"
    using sides_match_uncrossed[OF _ od(1)] sorted' od(2) match_loop_stop[OF eq that] by simp
qed

lemma sides_rest:
  assumes inv: "sides_inv sd h S T ix" and sd: "sd = Buy \<or> sd = Sell"
    and r: "r_side r = sd" "0 < r_qty r" "r_qty r < 2 ^ 63" "0 < r_price r"
    and fresh: "r_id r \<notin> (\<lambda>p. r_id (h ! p)) ` set (ptrs S @ ptrs T)"
    and unc: "\<forall>y \<in> set (map lv_price T). before (flip sd) (r_price r) y"
  shows "sides_inv sd (h @ [r]) (rest_at r (length h) S) T (gm_put ix (r_id r) (length h))"
    "entries (h @ [r]) (rest_at r (length h) S) = pb_rest r (entries h S)"
    "entries (h @ [r]) T = entries h T"
proof -
  note I = inv[unfolded sides_inv_def]
  let ?S = "rest_at r (length h) S" and ?p = "length h"
  have bound: "\<forall>p \<in> set (ptrs S @ ptrs T). p < length h" using sides_inv_bound[OF inv] by blast
  have same: "\<forall>p \<in> set (ptrs S @ ptrs T). (h @ [r]) ! p = h ! p" using bound by (auto simp: nth_append)
  have sd': "r_side r = Buy \<or> r_side r = Sell" using sd r(1) by simp
  have setS: "set (ptrs ?S) = insert ?p (set (ptrs S))"
    using arg_cong[OF rest_at_ptrs, of set_mset r ?p S] by simp
  have okT: "levels_ok (flip sd) (h @ [r]) T"
    using I by (blast intro: levels_ok_extend)
  have "map (\<lambda>p. r_id ((h @ [r]) ! p)) (ptrs S @ ptrs T) = map (\<lambda>p. r_id (h ! p)) (ptrs S @ ptrs T)"
    using same by (intro map_cong) simp_all
  moreover have "mset (map (\<lambda>p. r_id ((h @ [r]) ! p)) (ptrs ?S @ ptrs T)) =
        add_mset (r_id r) (mset (map (\<lambda>p. r_id ((h @ [r]) ! p)) (ptrs S @ ptrs T)))"
    by (simp add: rest_at_ptrs)
  ultimately have "mset (map (\<lambda>p. r_id ((h @ [r]) ! p)) (ptrs ?S @ ptrs T)) =
        mset (r_id r # map (\<lambda>p. r_id (h ! p)) (ptrs S @ ptrs T))"
    by (simp only: mset.simps)
  then have "distinct (map (\<lambda>p. r_id ((h @ [r]) ! p)) (ptrs ?S @ ptrs T)) \<longleftrightarrow>
        distinct (r_id r # map (\<lambda>p. r_id (h ! p)) (ptrs S @ ptrs T))"
    by (rule mset_eq_imp_distinct_iff)
  then have ids: "distinct (map (\<lambda>p. r_id ((h @ [r]) ! p)) (ptrs ?S @ ptrs T))"
    using I fresh unfolding distinct.simps list.set_map by blast
  have ix: "indexes (gm_put ix (r_id r) ?p) (h @ [r]) (set (ptrs ?S @ ptrs T))"
    using indexes_extend[OF _ bound fresh, of ix] I setS by simp
  have prices: "set (map lv_price ?S) = insert (r_price r) (set (map lv_price S))"
    by (rule rest_at_prices)
  have sorted': "sorted_wrt (before sd) (map lv_price ?S)"
    using rest_at_sorted[OF sd'] I r(1) by simp
  have okS: "levels_ok sd (h @ [r]) ?S"
    using rest_at_levels_ok[of r h S] I r by simp
  show "sides_inv sd (h @ [r]) ?S T (gm_put ix (r_id r) ?p)"
    unfolding sides_inv_def prices
    using I okS okT sorted' unc r(4) ids ix by blast
  show "entries (h @ [r]) ?S = pb_rest r (entries h S)"
    using rest_at_entries[OF sd'] I r(1) by simp
  show "entries (h @ [r]) T = entries h T"
    using same by (intro entries_agree) auto
qed

lemma sides_cancel:
  assumes inv: "sides_inv sd h S T ix" and p: "map_of ix i = Some p" "r_side (h ! p) = sd"
    and sd: "sd = Buy \<or> sd = Sell"
  defines "S' \<equiv> cancel_levels h i (r_price (h ! p)) S"
  shows "sides_inv sd h S' T (gm_delete ix i)"
    "entries h S' = filter (\<lambda>r. r_id r \<noteq> i) (entries h S)"
    "entries h T = filter (\<lambda>r. r_id r \<noteq> i) (entries h T)"
proof -
  note I = inv[unfolded sides_inv_def]
  have ids: "distinct (map (\<lambda>p. r_id (h ! p)) (ptrs S @ ptrs T))" using I by blast
  have inj: "inj_on (\<lambda>p. r_id (h ! p)) (set (ptrs S @ ptrs T))"
    using ids unfolding distinct_map by blast
  have pin: "p \<in> set (ptrs S @ ptrs T)" "r_id (h ! p) = i"
    using I p(1) unfolding indexes_def by blast+
  have only: "q = p" if "q \<in> set (ptrs S @ ptrs T)" "r_id (h ! q) = i" for q
    using inj pin that by (auto simp: inj_on_def)
  have "r_side (h ! q) = flip sd" if "q \<in> set (ptrs T)" for q
    using I that by (fastforce simp: levels_ok_def ptrs_def)
  then have pT: "p \<notin> set (ptrs T)" using p(2) sd by (auto simp: flip_def)
  have "distinct (map lv_price S)"
    using I by (blast intro: sorted_before_distinct)
  then have S': "ptrs S' = filter (\<lambda>p. r_id (h ! p) \<noteq> i) (ptrs S)"
    unfolding S'_def using I ids only by (intro cancel_levels_ptrs) auto
  then have setS: "set (ptrs S' @ ptrs T) = set (ptrs S @ ptrs T) - {p}"
    using only pin pT by auto
  have "indexes (gm_delete ix i) h (set (ptrs S' @ ptrs T))"
    unfolding setS using indexes_delete[OF _ inj pin(1)] I pin(2) by simp
  moreover have "distinct (map (\<lambda>p. r_id (h ! p)) (ptrs S' @ ptrs T))"
    using ids S' by (auto simp: distinct_map_filter)
  moreover have "levels_ok sd h S'" "sorted_wrt (before sd) (map lv_price S')"
    "set (map lv_price S') \<subseteq> set (map lv_price S)"
    unfolding S'_def using I by (blast intro: cancel_levels_ok cancel_levels_sorted
      dest: cancel_levels_prices[THEN subsetD])+
  ultimately show "sides_inv sd h S' T (gm_delete ix i)"
    unfolding sides_inv_def using I by blast
  show "entries h S' = filter (\<lambda>r. r_id r \<noteq> i) (entries h S)"
    by (simp add: entries_def S' filter_map comp_def)
  have "\<forall>q \<in> set (ptrs T). r_id (h ! q) \<noteq> i" using only pT by auto
  then show "entries h T = filter (\<lambda>r. r_id r \<noteq> i) (entries h T)"
    by (simp add: entries_def filter_map comp_def cong: filter_cong)
qed

section \<open>The operations\<close>

lemma abs_book_sel:
  "p_bids (abs_book b) = entries (heap b) (bids b)" "p_asks (abs_book b) = entries (heap b) (asks b)"
  "p_seq (abs_book b) = seq b"
  by (simp_all add: abs_book_def)

lemma abs_book_ids: "pb_ids (abs_book b) = (\<lambda>p. r_id (heap b ! p)) ` set (book_ptrs b)"
  by (simp add: pb_ids_def abs_book_def entries_def book_ptrs_def image_image image_Un)

lemma byID_abs: "book_inv b \<Longrightarrow> map_of (byID b) i \<noteq> None \<longleftrightarrow> i \<in> pb_ids (abs_book b)"
  using indexes_dom unfolding book_inv_def abs_book_ids by blast

lemma New_inv: "book_inv New" and New_abs: "abs_book New = pb_new"
  by (simp_all add: book_inv_def New_def indexes_def book_ptrs_def is_i64_def abs_book_def pb_new_def)

lemma pb_ids_seq [simp]: "pb_ids (b\<lparr>p_seq := s\<rparr>) = pb_ids b"
  by (simp add: pb_ids_def)

lemma abs_book_seq: "abs_book (b\<lparr>seq := s\<rparr>) = (abs_book b)\<lparr>p_seq := s\<rparr>"
  by (simp add: abs_book_def)

lemma book_inv_seq: "book_inv b \<Longrightarrow> is_i64 s \<Longrightarrow> book_inv (b\<lparr>seq := s\<rparr>)"
  by (simp add: book_inv_def book_ptrs_def)

definition refines_to :: "Book \<times> Ack \<Rightarrow> pbook \<times> Ack \<Rightarrow> bool" where
  "refines_to x y \<longleftrightarrow> book_inv (fst x) \<and> abs_book (fst x) = fst y \<and> snd x = snd y"

lemma Submit_rejected:
  assumes "book_inv b" "bad_order od \<or> ID od \<in> pb_ids (abs_book b)"
  shows "refines_to (Submit b od) (pb_submit (abs_book b) od)"
proof -
  have "map_of (byID b) (ID od) \<noteq> None \<longleftrightarrow> ID od \<in> pb_ids (abs_book b)"
    using assms(1) by (rule byID_abs)
  then show ?thesis
    using assms by (auto simp: refines_to_def Submit_def pb_submit_def next_seq_def Let_def
        abs_book_seq book_inv_seq i64_range, simp_all add: abs_book_def)
qed

lemma order_side: "\<not> bad_order od \<Longrightarrow> Side od = Buy \<or> Side od = Sell"
  and order_qty: "\<not> bad_order od \<Longrightarrow> 0 < Qty od"
  and order_price: "\<not> bad_order od \<Longrightarrow> Type od \<noteq> Market \<Longrightarrow> 0 < Price od"
  by (auto simp: bad_order_def)

lemma Submit_Buy:
  assumes inv: "book_inv b" and od: "\<not> bad_order od" "Side od = Buy" "order_ok od"
    and fresh: "ID od \<notin> pb_ids (abs_book b)"
  shows "refines_to (Submit b od) (pb_submit (abs_book b) od)"
proof -
  obtain n T h ix fs where m: "match_loop od (Qty od) (asks b) (heap b) (byID b) [] = (n, T, h, ix, fs)"
    by (metis prod_cases5)
  have sides: "sides_inv Buy (heap b) (bids b) (asks b) (byID b)" using inv by (simp add: book_inv_sides)
  have n: "0 \<le> Qty od" "Qty od < 2 ^ 63"
    using od order_qty[OF od(1)] by (simp_all add: order_ok_def is_i64_def)
  note M = sides_match[OF sides od(1,2) n m]
  have none: "map_of (byID b) (ID od) = None" using fresh byID_abs[OF inv] by blast
  let ?r = "\<lparr>r_id = ID od, r_side = Buy, r_price = Price od, r_qty = n\<rparr>"
  show ?thesis
  proof (cases "n = 0 \<or> Type od = Market")
    case True
    then show ?thesis
      using M m none fresh od i64_range[of "seq b + 1"]
      by (auto simp: refines_to_def Submit_def pb_submit_def next_seq_def Let_def
          abs_book_seq book_inv_sides) (auto simp: abs_book_def)
  next
    case False
    have "ID od \<notin> (\<lambda>p. r_id (h ! p)) ` set (ptrs (bids b) @ ptrs T)"
      using fresh M(6) unfolding abs_book_ids book_ptrs_def by blast
    then have R: "sides_inv Buy (h @ [?r]) (rest_at ?r (length h) (bids b)) T (gm_put ix (ID od) (length h))"
      "entries (h @ [?r]) (rest_at ?r (length h) (bids b)) = pb_rest ?r (entries h (bids b))"
      "entries (h @ [?r]) T = entries h T"
      using sides_rest[OF M(1), of ?r] False M(4,5,7) n(2) order_price[OF od(1)] by simp_all
    then show ?thesis
      using False M m none fresh od i64_range[of "seq b + 1"]
      by (auto simp: refines_to_def Submit_def pb_submit_def next_seq_def Let_def
          abs_book_seq book_inv_sides rest_def) (auto simp: abs_book_def)
  qed
qed

lemma Submit_Sell:
  assumes inv: "book_inv b" and od: "\<not> bad_order od" "Side od = Sell" "order_ok od"
    and fresh: "ID od \<notin> pb_ids (abs_book b)"
  shows "refines_to (Submit b od) (pb_submit (abs_book b) od)"
proof -
  obtain n T h ix fs where m: "match_loop od (Qty od) (bids b) (heap b) (byID b) [] = (n, T, h, ix, fs)"
    by (metis prod_cases5)
  have sides: "sides_inv Sell (heap b) (asks b) (bids b) (byID b)"
    using inv by (simp add: book_inv_sides sides_inv_flip)
  have n: "0 \<le> Qty od" "Qty od < 2 ^ 63"
    using od order_qty[OF od(1)] by (simp_all add: order_ok_def is_i64_def)
  note M = sides_match[OF sides od(1,2) n m]
  have none: "map_of (byID b) (ID od) = None" using fresh byID_abs[OF inv] by blast
  let ?r = "\<lparr>r_id = ID od, r_side = Sell, r_price = Price od, r_qty = n\<rparr>"
  show ?thesis
  proof (cases "n = 0 \<or> Type od = Market")
    case True
    then show ?thesis
      using M m none fresh od i64_range[of "seq b + 1"]
      by (auto simp: refines_to_def Submit_def pb_submit_def next_seq_def Let_def
          abs_book_seq book_inv_sides sides_inv_flip) (auto simp: abs_book_def)
  next
    case False
    have "ID od \<notin> (\<lambda>p. r_id (h ! p)) ` set (ptrs (asks b) @ ptrs T)"
      using fresh M(6) unfolding abs_book_ids book_ptrs_def by auto
    then have R: "sides_inv Sell (h @ [?r]) (rest_at ?r (length h) (asks b)) T (gm_put ix (ID od) (length h))"
      "entries (h @ [?r]) (rest_at ?r (length h) (asks b)) = pb_rest ?r (entries h (asks b))"
      "entries (h @ [?r]) T = entries h T"
      using sides_rest[OF M(1), of ?r] False M(4,5,7) n(2) order_price[OF od(1)] by simp_all
    then show ?thesis
      using False M m none fresh od i64_range[of "seq b + 1"]
      by (auto simp: refines_to_def Submit_def pb_submit_def next_seq_def Let_def
          abs_book_seq book_inv_sides sides_inv_flip rest_def) (auto simp: abs_book_def)
  qed
qed

lemma Submit_refines:
  assumes "book_inv b" "order_ok od"
  shows "refines_to (Submit b od) (pb_submit (abs_book b) od)"
  using Submit_rejected[OF assms(1)] Submit_Buy[OF assms(1) _ _ assms(2)]
    Submit_Sell[OF assms(1) _ _ assms(2)] order_side by blast

lemma book_inv_sides_of: "book_inv b \<Longrightarrow> p \<in> set (book_ptrs b) \<Longrightarrow> r_side (heap b ! p) = Buy \<or> r_side (heap b ! p) = Sell"
  by (fastforce simp: book_inv_def book_ptrs_def levels_ok_def ptrs_def)

lemma Cancel_refines:
  assumes inv: "book_inv b"
  shows "refines_to (Cancel b i) (pb_cancel (abs_book b) i)"
proof (cases "map_of (byID b) i")
  case None
  then have "i \<notin> pb_ids (abs_book b)" using byID_abs[OF inv] by blast
  with None inv show ?thesis
    by (auto simp: refines_to_def Cancel_def pb_cancel_def next_seq_def Let_def
        abs_book_seq book_inv_seq i64_range, simp_all add: abs_book_def)
next
  case (Some p)
  then have mem: "i \<in> pb_ids (abs_book b)" using byID_abs[OF inv] by blast
  have "p \<in> set (book_ptrs b)" using inv Some unfolding book_inv_def indexes_def by blast
  then consider "r_side (heap b ! p) = Buy" | "r_side (heap b ! p) = Sell"
    using book_inv_sides_of[OF inv] by blast
  then show ?thesis
  proof cases
    case 1
    have "sides_inv Buy (heap b) (bids b) (asks b) (byID b)" using inv by (simp add: book_inv_sides)
    note C = sides_cancel[OF this Some 1]
    show ?thesis
      using 1 C Some mem i64_range[of "seq b + 1"]
      by (auto simp: refines_to_def Cancel_def pb_cancel_def next_seq_def Let_def
          abs_book_seq book_inv_sides) (auto simp: abs_book_def)
  next
    case 2
    have "sides_inv Sell (heap b) (asks b) (bids b) (byID b)"
      using inv by (simp add: book_inv_sides sides_inv_flip)
    note C = sides_cancel[OF this Some 2]
    show ?thesis
      using 2 C Some mem i64_range[of "seq b + 1"]
      by (auto simp: refines_to_def Cancel_def pb_cancel_def next_seq_def Let_def
          abs_book_seq book_inv_sides sides_inv_flip) (auto simp: abs_book_def)
  qed
qed

section \<open>The reference book provides the contract\<close>

lemma levels_ok_entries: "levels_ok sd h lvs \<Longrightarrow> positive (entries h lvs)"
  by (induction lvs) (auto simp: live_def positive_def)

lemma entries_price: "levels_ok sd h lvs \<Longrightarrow> r_price ` set (entries h lvs) \<subseteq> lv_price ` set lvs"
  using levels_ok_price by (auto simp: entries_def)

lemma entries_sorted:
  assumes "levels_ok sd h lvs" "sorted_wrt (before d) (map lv_price lvs)"
  shows "sorted_wrt (\<lambda>x y. \<not> before d (r_price y) (r_price x)) (entries h lvs)"
  using assms
proof (induction lvs)
  case (Cons lv lvs)
  have q: "\<forall>x \<in> set (map ((!) h) (lv_queue lv)). r_price x = lv_price lv" using Cons.prems(1) by auto
  then have "sorted_wrt (\<lambda>x y. \<not> before d (r_price y) (r_price x)) (map ((!) h) (lv_queue lv))"
    by (auto intro!: sorted_wrt_iff_nth_less[THEN iffD2])
  moreover have "before d (lv_price lv) (r_price y)" if "y \<in> set (entries h lvs)" for y
    using entries_price[of sd h lvs] Cons.prems that by (auto simp: subset_iff)
  ultimately show ?case
    using Cons q by (auto simp: sorted_wrt_append dest: before_asym)
qed simp

lemma abs_inv:
  assumes "book_inv b"
  shows "pb_inv (abs_book b)"
proof -
  note I = assms[unfolded book_inv_def]
  have "sorted_wrt (\<lambda>x y. \<not> before Buy (r_price y) (r_price x)) (entries (heap b) (bids b))"
    "sorted_wrt (\<lambda>x y. \<not> before Sell (r_price y) (r_price x)) (entries (heap b) (asks b))"
    using I entries_sorted[of Buy "heap b" "bids b" Buy] entries_sorted[of Sell "heap b" "asks b" Sell]
    by simp_all
  moreover have "\<forall>x \<in> set (entries (heap b) (bids b)). \<forall>y \<in> set (entries (heap b) (asks b)). r_price x < r_price y"
  proof (intro ballI)
    fix x y assume x: "x \<in> set (entries (heap b) (bids b))" and y: "y \<in> set (entries (heap b) (asks b))"
    have ok: "levels_ok Buy (heap b) (bids b)" "levels_ok Sell (heap b) (asks b)" using I by blast+
    obtain u where "u \<in> set (bids b)" "r_price x = lv_price u"
      using x entries_price[OF ok(1)] by blast
    moreover obtain v where "v \<in> set (asks b)" "r_price y = lv_price v"
      using y entries_price[OF ok(2)] by blast
    moreover have "\<forall>u \<in> set (bids b). \<forall>v \<in> set (asks b). lv_price u < lv_price v" using I by blast
    ultimately show "r_price x < r_price y" by simp
  qed
  moreover have "map r_id (entries (heap b) (bids b) @ entries (heap b) (asks b)) =
      map (\<lambda>p. r_id (heap b ! p)) (book_ptrs b)"
    by (simp add: entries_def book_ptrs_def)
  ultimately show ?thesis
    using I levels_ok_entries by (auto simp: pb_inv_def abs_book_def not_less)
qed

interpretation ref: price_time_engine
  New "\<lambda>b t. Submit b" "\<lambda>b t. Cancel b" abs_book book_inv
proof (unfold_locales, goal_cases)
  case (6 s od t)
  then have "snd (Submit s od) = snd (pb_submit (abs_book s) od)"
    using Submit_refines by (simp add: refines_to_def)
  moreover have "TS (snd (Submit s od)) = 0"
    by (simp add: Submit_def next_seq_def Let_def split: prod.splits)
  ultimately show ?case by (simp add: untimed_def)
next
  case (9 s t i)
  then have "snd (Cancel s i) = snd (pb_cancel (abs_book s) i)"
    using Cancel_refines by (simp add: refines_to_def)
  moreover have "TS (snd (Cancel s i)) = 0"
    by (simp add: Cancel_def next_seq_def Let_def split: option.splits)
  ultimately show ?case by (simp add: untimed_def)
qed (use Submit_refines Cancel_refines New_inv New_abs abs_inv in \<open>auto simp: refines_to_def\<close>)

end
