(* ===== verification/Book_Properties.thy ===== *)
theory Book_Properties
  imports Book_Refinement
begin

text \<open>
  What the reference book guarantees in every state it can reach, stated on \<open>Submit\<close> and
  \<open>Cancel\<close> themselves: the representation invariant, the refinement of the abstract book,
  price-time priority, conservation of quantity, immediate-or-cancel, the status of every
  acknowledgement, cancellation and sequence numbers.
\<close>

section \<open>Reachable books\<close>

inductive reachable_book :: "Book \<Rightarrow> bool" where
  start: "reachable_book New"
| submit: "reachable_book b \<Longrightarrow> order_ok od \<Longrightarrow> reachable_book (fst (Submit b od))"
| cancel: "reachable_book b \<Longrightarrow> reachable_book (fst (Cancel b i))"

lemma reachable_book_inv: "reachable_book b \<Longrightarrow> book_inv b"
  by (induction rule: reachable_book.induct)
     (auto intro: ref.init_inv ref.submit_inv ref.cancel_inv)

definition book_opposite :: "Book \<Rightarrow> Order \<Rightarrow> resting list" where
  "book_opposite b od = entries (heap b) (if Side od = Buy then asks b else bids b)"

definition book_own :: "Book \<Rightarrow> Order \<Rightarrow> resting list" where
  "book_own b od = entries (heap b) (if Side od = Buy then bids b else asks b)"

definition book_accepts :: "Book \<Rightarrow> Order \<Rightarrow> bool" where
  "book_accepts b od \<longleftrightarrow> \<not> bad_order od \<and> map_of (byID b) (ID od) = None"

lemma opposite_abs: "opposite (abs_book b) od = book_opposite b od"
  by (simp add: opposite_def abs_book_def book_opposite_def)

lemma accepts_abs: "book_inv b \<Longrightarrow> book_accepts b od \<longleftrightarrow> accepted (abs_book b) od"
  using byID_abs[of b "ID od"] by (auto simp: book_accepts_def accepted_def)

text \<open>The orders of \<open>book_test.go\<close>, used by the witnesses.\<close>

definition lim :: "string \<Rightarrow> Side \<Rightarrow> int \<Rightarrow> int \<Rightarrow> Order" where
  "lim i s price qty = \<lparr>ID = i, Side = s, Type = Limit, Price = price, Qty = qty\<rparr>"

definition mkt :: "string \<Rightarrow> Side \<Rightarrow> int \<Rightarrow> Order" where
  "mkt i s qty = \<lparr>ID = i, Side = s, Type = Market, Price = 0, Qty = qty\<rparr>"

definition demo_book :: Book where
  "demo_book = fst (Submit (fst (Submit New (lim ''A'' Buy 10000 10))) (lim ''B'' Buy 10000 5))"

lemma order_ok_lim: "is_i64 p \<Longrightarrow> is_i64 q \<Longrightarrow> order_ok (lim i s p q)"
  and order_ok_mkt: "is_i64 q \<Longrightarrow> order_ok (mkt i s q)"
  by (simp_all add: order_ok_def lim_def mkt_def is_i64_def)

lemma reachable_demo: "reachable_book demo_book"
  unfolding demo_book_def
  by (intro reachable_book.intros order_ok_lim) (simp_all add: is_i64_def)

lemma demo_eval: "Fills (snd (Submit demo_book (lim ''C'' Sell 9900 12))) =
  [\<lparr>f_Price = 10000, f_Qty = 10, MakerID = ''A''\<rparr>, \<lparr>f_Price = 10000, f_Qty = 2, MakerID = ''B''\<rparr>]"
  by code_simp

section \<open>Accepted orders\<close>

lemma submit_accepted:
  assumes "reachable_book b" "order_ok od" "book_accepts b od"
    and "pb_match od (Qty od) (book_opposite b od) = (n, opp, fs)"
  shows "snd (Submit b od) =
      \<lparr>OrderID = ID od, Seq = i64 (seq b + 1), Status = status_of_match od n, Fills = fs, TS = 0\<rparr>"
    "book_opposite (fst (Submit b od)) od = opp"
    "book_own (fst (Submit b od)) od = rested od n (book_own b od)"
proof -
  have inv: "book_inv b" using assms(1) by (rule reachable_book_inv)
  have R: "refines_to (Submit b od) (pb_submit (abs_book b) od)"
    using inv assms(2) by (rule Submit_refines)
  have acc: "accepted (abs_book b) od" using assms(3) accepts_abs[OF inv] by blast
  note P = pb_submit_accepted[OF acc assms(4)[folded opposite_abs]]
  show "snd (Submit b od) =
      \<lparr>OrderID = ID od, Seq = i64 (seq b + 1), Status = status_of_match od n, Fills = fs, TS = 0\<rparr>"
    using R P(1) by (simp add: refines_to_def abs_book_def)
  have abs: "abs_book (fst (Submit b od)) = fst (pb_submit (abs_book b) od)"
    using R by (simp add: refines_to_def)
  have "opposite (abs_book (fst (Submit b od))) od = opp"
    unfolding abs P(2) opposite_def by simp
  then show "book_opposite (fst (Submit b od)) od = opp" by (simp only: opposite_abs)
  show "book_own (fst (Submit b od)) od = rested od n (book_own b od)"
    using abs P(2) by (cases "Side od = Buy") (simp_all add: abs_book_def book_own_def)
qed

lemma opposite_positive: "reachable_book b \<Longrightarrow> positive (book_opposite b od)"
  using abs_inv[OF reachable_book_inv] by (simp add: pb_inv_opposite flip: opposite_abs)

lemma accepts_qty: "book_accepts b od \<Longrightarrow> 0 \<le> Qty od"
  by (auto simp: book_accepts_def bad_order_def)

lemma submit_match:
  assumes "reachable_book b" "order_ok od" "book_accepts b od"
  obtains n opp fs where "pb_match od (Qty od) (book_opposite b od) = (n, opp, fs)"
    and "Fills (snd (Submit b od)) = fs" "Status (snd (Submit b od)) = status_of_match od n"
    and "book_opposite (fst (Submit b od)) od = opp"
    and "book_own (fst (Submit b od)) od = rested od n (book_own b od)"
  using submit_accepted[OF assms] by (metis prod_cases3 Ack.select_convs(3,4))

section \<open>Properties of the reference book\<close>

text \<open>
  (C1) Refinement of \<open>Submit\<close>: in every reachable book, submitting any order (valid or not)
  yields exactly the acknowledgement, the two sides and the sequence number of the abstract
  price-time-priority book, and a book that is again well formed.
\<close>

theorem submit_refines_abstract_book:
  assumes "reachable_book b" "order_ok od"
  shows "snd (Submit b od) = snd (pb_submit (abs_book b) od) \<and>
    abs_book (fst (Submit b od)) = fst (pb_submit (abs_book b) od) \<and> book_inv (fst (Submit b od))"
  using Submit_refines[OF reachable_book_inv[OF assms(1)] assms(2)] by (simp add: refines_to_def)

theorem submit_refines_abstract_book_witness:
  "snd (Submit demo_book (lim ''C'' Sell 9900 12)) = snd (pb_submit (abs_book demo_book) (lim ''C'' Sell 9900 12)) \<and>
   abs_book (fst (Submit demo_book (lim ''C'' Sell 9900 12))) = fst (pb_submit (abs_book demo_book) (lim ''C'' Sell 9900 12)) \<and>
   book_inv (fst (Submit demo_book (lim ''C'' Sell 9900 12)))"
  by (rule submit_refines_abstract_book[OF reachable_demo order_ok_lim]) (simp_all add: is_i64_def)

text \<open>
  (C2) Refinement of \<open>Cancel\<close>: in every reachable book, canceling any id acknowledges
  \<open>canceled\<close> exactly when that id rests on one of the sides, removes that order and no other,
  and leaves a well-formed book.
\<close>

theorem cancel_refines_abstract_book:
  assumes "reachable_book b"
  shows "snd (Cancel b i) = snd (pb_cancel (abs_book b) i) \<and>
    abs_book (fst (Cancel b i)) = fst (pb_cancel (abs_book b) i) \<and> book_inv (fst (Cancel b i))"
  using Cancel_refines[OF reachable_book_inv[OF assms]] by (simp add: refines_to_def)

theorem cancel_refines_abstract_book_witness:
  "snd (Cancel demo_book ''A'') = snd (pb_cancel (abs_book demo_book) ''A'') \<and>
   abs_book (fst (Cancel demo_book ''A'')) = fst (pb_cancel (abs_book demo_book) ''A'') \<and>
   book_inv (fst (Cancel demo_book ''A''))"
  by (rule cancel_refines_abstract_book[OF reachable_demo])

text \<open>
  (C3) Price-time priority: the fills of an accepted order are taken from the front of the
  opposite side, which is ordered best price first and oldest first; each maker but the last
  is consumed completely, every maker crosses the order, and the quantity executed is the
  whole order or all of the crossing quantity, whichever is smaller.
\<close>

theorem price_time_priority:
  assumes "reachable_book b" "order_ok od" "book_accepts b od"
  shows "by_priority (takeWhile (crosses od) (book_opposite b od)) (Fills (snd (Submit b od))) \<and>
    filled (Fills (snd (Submit b od))) =
      min (Qty od) (volume (takeWhile (crosses od) (book_opposite b od)))"
proof -
  obtain n opp fs where m: "pb_match od (Qty od) (book_opposite b od) = (n, opp, fs)"
    and "Fills (snd (Submit b od)) = fs"
    using submit_match[OF assms] by metis
  then show ?thesis
    using pb_match_account(5,7)[OF opposite_positive[OF assms(1)] accepts_qty[OF assms(3)] m] by simp
qed

theorem price_time_priority_witness:
  "by_priority (takeWhile (crosses (lim ''C'' Sell 9900 12)) (book_opposite demo_book (lim ''C'' Sell 9900 12)))
     (Fills (snd (Submit demo_book (lim ''C'' Sell 9900 12)))) \<and>
   filled (Fills (snd (Submit demo_book (lim ''C'' Sell 9900 12)))) =
     min (Qty (lim ''C'' Sell 9900 12))
       (volume (takeWhile (crosses (lim ''C'' Sell 9900 12)) (book_opposite demo_book (lim ''C'' Sell 9900 12))))"
proof (rule price_time_priority[OF reachable_demo order_ok_lim])
  show "book_accepts demo_book (lim ''C'' Sell 9900 12)" by code_simp
qed (simp_all add: is_i64_def)

text \<open>
  (C11) The two sides of a reachable book never cross: every resting buy is strictly below
  every resting sell, bids descend and asks ascend in price, every resting quantity is
  positive, and no id rests twice.
\<close>

theorem book_never_crossed:
  assumes "reachable_book b"
  shows "(\<forall>x \<in> set (entries (heap b) (bids b)). \<forall>y \<in> set (entries (heap b) (asks b)). r_price x < r_price y) \<and>
    sorted_wrt (\<lambda>x y. r_price x \<ge> r_price y) (entries (heap b) (bids b)) \<and>
    sorted_wrt (\<lambda>x y. r_price x \<le> r_price y) (entries (heap b) (asks b)) \<and>
    (\<forall>r \<in> set (entries (heap b) (bids b) @ entries (heap b) (asks b)). 0 < r_qty r) \<and>
    distinct (map r_id (entries (heap b) (bids b) @ entries (heap b) (asks b)))"
  using abs_inv[OF reachable_book_inv[OF assms]] by (auto simp: pb_inv_def abs_book_def positive_def)

theorem book_never_crossed_witness:
  "sorted_wrt (\<lambda>x y. r_price x \<ge> r_price y) (entries (heap demo_book) (bids demo_book)) \<and>
   sorted_wrt (\<lambda>x y. r_price x \<le> r_price y) (entries (heap demo_book) (asks demo_book)) \<and>
   distinct (map r_id (entries (heap demo_book) (bids demo_book) @ entries (heap demo_book) (asks demo_book)))"
  using book_never_crossed[OF reachable_demo] by blast

text \<open>
  (C22) Conservation of quantity: what an accepted order does not execute is its remainder
  \<open>n\<close>; the opposite side loses exactly the executed quantity, and the order's own side gains
  exactly the remainder of a limit order and nothing for a market order.
\<close>

theorem submit_conserves_quantity:
  assumes "reachable_book b" "order_ok od" "book_accepts b od"
  shows "volume (book_opposite (fst (Submit b od)) od) =
      volume (book_opposite b od) - filled (Fills (snd (Submit b od))) \<and>
    volume (book_own (fst (Submit b od)) od) =
      volume (book_own b od) +
        (if Type od = Market then 0 else Qty od - filled (Fills (snd (Submit b od))))"
proof -
  obtain n opp fs where m: "pb_match od (Qty od) (book_opposite b od) = (n, opp, fs)"
    and r: "Fills (snd (Submit b od)) = fs" "book_opposite (fst (Submit b od)) od = opp"
      "book_own (fst (Submit b od)) od = rested od n (book_own b od)"
    using submit_match[OF assms] by metis
  note A = pb_match_account[OF opposite_positive[OF assms(1)] accepts_qty[OF assms(3)] m]
  have "volume (rested od n rs) = volume rs + (if Type od = Market then 0 else n)" for rs
    by (simp add: rested_def volume_pb_rest)
  with r A(1,2) show ?thesis by simp
qed

theorem submit_conserves_quantity_witness:
  "volume (book_opposite (fst (Submit demo_book (lim ''C'' Sell 10000 40))) (lim ''C'' Sell 10000 40)) =
     volume (book_opposite demo_book (lim ''C'' Sell 10000 40)) -
       filled (Fills (snd (Submit demo_book (lim ''C'' Sell 10000 40)))) \<and>
   volume (book_own (fst (Submit demo_book (lim ''C'' Sell 10000 40))) (lim ''C'' Sell 10000 40)) =
     volume (book_own demo_book (lim ''C'' Sell 10000 40)) +
       (if Type (lim ''C'' Sell 10000 40) = Market then 0
        else Qty (lim ''C'' Sell 10000 40) - filled (Fills (snd (Submit demo_book (lim ''C'' Sell 10000 40)))))"
proof (rule submit_conserves_quantity[OF reachable_demo order_ok_lim])
  show "book_accepts demo_book (lim ''C'' Sell 10000 40)" by code_simp
qed (simp_all add: is_i64_def)

text \<open>
  Market orders are immediate-or-cancel: whatever is left of a market order never rests,
  so its own side is unchanged and its id does not enter the index.
\<close>

theorem market_never_rests:
  assumes "reachable_book b" "order_ok od" "Type od = Market"
  shows "book_own (fst (Submit b od)) od = book_own b od \<and>
    dom (map_of (byID (fst (Submit b od)))) \<subseteq> dom (map_of (byID b))"
proof (cases "book_accepts b od")
  case True
  have inv: "book_inv b" "book_inv (fst (Submit b od))"
    using assms(1,2) by (auto intro: reachable_book_inv reachable_book.submit)
  obtain n opp fs where m: "pb_match od (Qty od) (book_opposite b od) = (n, opp, fs)"
    and r: "book_opposite (fst (Submit b od)) od = opp"
      "book_own (fst (Submit b od)) od = rested od n (book_own b od)"
    using submit_match[OF assms(1,2) True] by metis
  have own: "book_own (fst (Submit b od)) od = book_own b od"
    using r(2) assms(3) by (simp add: rested_def)
  have dom_ids: "dom (map_of (byID c)) = r_id ` set (book_own c od @ book_opposite c od)" if "book_inv c" for c
    using byID_abs[OF that] unfolding pb_ids_def
    by (auto simp: dom_def abs_book_def book_own_def book_opposite_def split: if_splits)
  show ?thesis
    using own r(1) pb_match_ids[OF m] by (auto simp: dom_ids[OF inv(1)] dom_ids[OF inv(2)])
next
  case False
  then show ?thesis
    by (auto simp: book_accepts_def Submit_def next_seq_def Let_def book_own_def)
qed

theorem market_never_rests_witness:
  "book_own (fst (Submit demo_book (mkt ''m'' Sell 100))) (mkt ''m'' Sell 100) =
     book_own demo_book (mkt ''m'' Sell 100) \<and>
   dom (map_of (byID (fst (Submit demo_book (mkt ''m'' Sell 100))))) \<subseteq> dom (map_of (byID demo_book))"
  by (rule market_never_rests[OF reachable_demo order_ok_mkt]) (simp_all add: is_i64_def mkt_def)

text \<open>
  (C23) Every acknowledgement of a submit is sound in the sense of \<open>SPEC.md\<close>: it echoes the
  order id, every fill is positive and within the order's limit, nothing is overfilled, and
  the status is the one the fills call for; a rejected order has no fills.
\<close>

theorem submit_ack_sound:
  assumes "reachable_book b" "order_ok od"
  shows "ack_sound od (snd (Submit b od))"
  using ref.ack_sound_submit[OF reachable_book_inv[OF assms(1)] assms(2)] by simp

theorem submit_ack_sound_witness:
  "ack_sound (lim ''C'' Sell 9900 12) (snd (Submit demo_book (lim ''C'' Sell 9900 12)))"
  by (rule submit_ack_sound[OF reachable_demo order_ok_lim]) (simp_all add: is_i64_def)

text \<open>
  Sequence numbers: the acknowledgements of any run of submits and cancels from the empty
  book carry the numbers 1, 2, 3 and so on, until the \<open>int64\<close> counter is exhausted.
\<close>

theorem sequence_numbers_count_operations:
  assumes "\<forall>(t, x) \<in> set ops. op_ok x" "int (length ops) < 2 ^ 63"
  shows "map Seq (snd (engine_run (\<lambda>b t. Submit b) (\<lambda>b t. Cancel b) New ops)) =
    map (\<lambda>k. 1 + int k) [0..<length ops]"
  using assms by (rule ref.run_seq)

theorem sequence_numbers_count_operations_witness:
  "map Seq (snd (engine_run (\<lambda>b t. Submit b) (\<lambda>b t. Cancel b) New
     [(0, OpSubmit (lim ''A'' Buy 10000 10)), (0, OpCancel ''A''), (0, OpCancel ''A'')])) = [1, 2, 3]"
  using sequence_numbers_count_operations
    [of "[(0, OpSubmit (lim ''A'' Buy 10000 10)), (0, OpCancel ''A''), (0, OpCancel ''A'')]"]
  by (simp add: order_ok_lim is_i64_def upt_rec)

text \<open>
  (C25) Resting and canceling are inverse: if an accepted limit order rests without a fill,
  canceling it at once restores both sides of the book exactly, and canceling it again is
  acknowledged as \<open>unknown\<close>.
\<close>

theorem rest_then_cancel_restores:
  assumes "reachable_book b" "order_ok od" "Status (snd (Submit b od)) = StatusResting"
  defines "b1 \<equiv> fst (Submit b od)"
  shows "Status (snd (Cancel b1 (ID od))) = StatusCanceled \<and>
    entries (heap (fst (Cancel b1 (ID od)))) (bids (fst (Cancel b1 (ID od)))) = entries (heap b) (bids b) \<and>
    entries (heap (fst (Cancel b1 (ID od)))) (asks (fst (Cancel b1 (ID od)))) = entries (heap b) (asks b) \<and>
    Status (snd (Cancel (fst (Cancel b1 (ID od))) (ID od))) = StatusUnknown"
proof -
  have reach: "reachable_book b1" "reachable_book (fst (Cancel b1 (ID od)))"
    using assms(1,2) by (auto simp: b1_def intro: reachable_book.intros)
  have inv: "book_inv b" using assms(1) by (rule reachable_book_inv)
  have R: "refines_to (Submit b od) (pb_submit (abs_book b) od)" using inv assms(2) by (rule Submit_refines)
  have C: "refines_to (Cancel b1 i) (pb_cancel (abs_book b1) i)" for i
    using reach(1) by (blast intro: Cancel_refines reachable_book_inv)
  have C2: "refines_to (Cancel (fst (Cancel b1 i)) i) (pb_cancel (fst (pb_cancel (abs_book b1) i)) i)" for i
    using Cancel_refines[of "fst (Cancel b1 i)" i] C[of i] by (simp add: refines_to_def)
  have st: "Status (snd (pb_submit (abs_book b) od)) = StatusResting"
    using assms(3) R by (simp add: refines_to_def)
  note P = pb_rest_cancel[OF abs_inv[OF inv] st]
  have a1: "abs_book b1 = fst (pb_submit (abs_book b) od)" using R by (simp add: b1_def refines_to_def)
  then show ?thesis
    using P C[of "ID od"] C2[of "ID od"] by (simp add: refines_to_def flip: abs_book_sel)
qed

theorem rest_then_cancel_restores_witness:
  "Status (snd (Cancel (fst (Submit demo_book (lim ''D'' Sell 10100 7))) ''D'')) = StatusCanceled"
proof -
  have "Status (snd (Submit demo_book (lim ''D'' Sell 10100 7))) = StatusResting" by code_simp
  then show ?thesis
    using rest_then_cancel_restores[OF reachable_demo order_ok_lim, of 10100 7 "''D''" Sell]
    by (simp add: is_i64_def lim_def)
qed

text \<open>
  (C24) Rejection: an order is rejected exactly when it is malformed (non-positive quantity,
  unknown side or type, limit without a positive price) or its id is resting at that moment;
  a rejected order changes nothing but the sequence counter. An id that was filled or canceled
  before is therefore accepted again.
\<close>

theorem rejection_is_exact:
  assumes "reachable_book b" "order_ok od"
  shows "(Status (snd (Submit b od)) = StatusRejected \<longleftrightarrow>
      bad_order od \<or> ID od \<in> r_id ` set (entries (heap b) (bids b) @ entries (heap b) (asks b))) \<and>
    (Status (snd (Submit b od)) = StatusRejected \<longrightarrow> fst (Submit b od) = b\<lparr>seq := i64 (seq b + 1)\<rparr>)"
proof -
  have inv: "book_inv b" using assms(1) by (rule reachable_book_inv)
  have ids: "map_of (byID b) (ID od) \<noteq> None \<longleftrightarrow>
      ID od \<in> r_id ` set (entries (heap b) (bids b) @ entries (heap b) (asks b))"
    using byID_abs[OF inv] by (simp add: pb_ids_def abs_book_def)
  show ?thesis
  proof (cases "bad_order od \<or> map_of (byID b) (ID od) \<noteq> None")
    case True
    then have "Submit b od = (b\<lparr>seq := i64 (seq b + 1)\<rparr>,
        \<lparr>OrderID = ID od, Seq = i64 (seq b + 1), Status = StatusRejected, Fills = [], TS = 0\<rparr>)"
      by (auto simp: Submit_def next_seq_def Let_def)
    with True ids show ?thesis by simp
  next
    case False
    then have "book_accepts b od" by (simp add: book_accepts_def)
    then obtain n where "Status (snd (Submit b od)) = status_of_match od n"
      using submit_match[OF assms] by metis
    then have "Status (snd (Submit b od)) \<noteq> StatusRejected"
      by (simp add: status_of_match_def status_defs)
    with False ids show ?thesis by auto
  qed
qed

theorem rejection_is_exact_witness:
  "Status (snd (Submit demo_book (lim ''A'' Buy 9000 1))) = StatusRejected \<longleftrightarrow>
     bad_order (lim ''A'' Buy 9000 1) \<or>
     ''A'' \<in> r_id ` set (entries (heap demo_book) (bids demo_book) @ entries (heap demo_book) (asks demo_book))"
  using rejection_is_exact[OF reachable_demo order_ok_lim, of 9000 1 "''A''" Buy]
  by (simp add: is_i64_def lim_def)

end
