(* ===== verification/GoFloat.thy ===== *)
theory GoFloat
  imports Prelude "HOL-Library.Log_Nat"
begin

text \<open>
  Go's \<open>float64\<close>. A value is a real number and every arithmetic operation of the source is
  followed by \<open>fl\<close>, rounding to the nearest IEEE 754 binary64 value with ties to even, with
  the exponent unbounded (no value of the program comes near overflow or the subnormal
  range). Operations are not fused, as on the platforms the images are built for. The proofs
  use four facts: rounding is monotone, keeps integers up to \<open>2 ^ 53\<close>, keeps powers of two,
  and has a relative error of at most \<open>2 ^ -53\<close>.
\<close>

named_theorems fl_simps \<open>rounding of representable values\<close>

type_synonym float64 = real

definition round_even :: "real \<Rightarrow> int" where
  "round_even m =
     (let f = \<lfloor>m\<rfloor>; d = m - of_int f
      in if d < 1 / 2 then f else if d > 1 / 2 then f + 1 else if even f then f else f + 1)"

text \<open>\<open>bexp x\<close> is the binary exponent of a positive \<open>x\<close>: \<open>2 ^ bexp x \<le> x < 2 ^ (bexp x + 1)\<close>.\<close>

definition bexp :: "real \<Rightarrow> int" where
  "bexp x = (if 1 \<le> x then int (floorlog 2 (nat \<lfloor>x\<rfloor>)) - 1
             else - int (floorlog 2 (nat (\<lceil>1 / x\<rceil> - 1))))"

definition two_powi :: "int \<Rightarrow> real" where
  "two_powi k = (if 0 \<le> k then 2 ^ nat k else 1 / 2 ^ nat (- k))"

definition fl_pos :: "real \<Rightarrow> real" where
  "fl_pos x = (let u = two_powi (bexp x - 52) in of_int (round_even (x / u)) * u)"

definition fl :: "real \<Rightarrow> float64" where
  "fl x = (if x = 0 then 0 else if 0 < x then fl_pos x else - fl_pos (- x))"

section \<open>Rounding to an integer\<close>

lemma round_even_bounds: "\<lfloor>m\<rfloor> \<le> round_even m" "round_even m \<le> \<lfloor>m\<rfloor> + 1"
  by (simp_all add: round_even_def Let_def)

lemma round_even_mono: "m \<le> m' \<Longrightarrow> round_even m \<le> round_even m'"
proof (cases "\<lfloor>m\<rfloor> = \<lfloor>m'\<rfloor>")
  case True
  assume "m \<le> m'"
  with True show ?thesis by (auto simp: round_even_def Let_def)
next
  case False
  assume "m \<le> m'"
  then have "\<lfloor>m\<rfloor> \<le> \<lfloor>m'\<rfloor>" by (rule floor_mono)
  with False show ?thesis using round_even_bounds[of m] round_even_bounds[of m'] by linarith
qed

lemma round_even_of_int [simp]: "round_even (of_int n) = n"
  by (simp add: round_even_def)

lemma round_even_le: "m \<le> of_int n \<Longrightarrow> round_even m \<le> n"
  using round_even_mono[of m "of_int n"] by simp

lemma round_even_ge: "of_int n \<le> m \<Longrightarrow> n \<le> round_even m"
  using round_even_mono[of "of_int n" m] by simp

lemma round_even_err: "\<bar>of_int (round_even m) - m\<bar> \<le> 1 / 2"
  unfolding round_even_def Let_def by simp

section \<open>The binary exponent\<close>

lemma two_powi_pos [simp]: "0 < two_powi k"
  by (simp add: two_powi_def)

lemma two_powi_neq0 [simp]: "two_powi k \<noteq> 0"
  using two_powi_pos[of k] by linarith

lemma two_powi_powr: "two_powi k = 2 powr of_int k"
  by (auto simp: two_powi_def powr_realpow [symmetric] powr_minus_divide)

lemma two_powi_add: "two_powi (a + b) = two_powi a * two_powi b"
  by (simp add: two_powi_powr powr_add)

lemma two_powi_mono: "a \<le> b \<Longrightarrow> two_powi a \<le> two_powi b"
  by (simp add: two_powi_powr)

lemma two_powi_nat: "two_powi (int k) = 2 ^ k"
  by (simp add: two_powi_def)

lemma two_powi_less: "two_powi a < two_powi b \<longleftrightarrow> a < b"
  by (simp add: two_powi_powr)

lemma bexp_large:
  assumes "1 \<le> x"
  shows "two_powi (bexp x) \<le> x" "x < two_powi (bexp x + 1)"
proof -
  let ?n = "nat \<lfloor>x\<rfloor>"
  let ?k = "floorlog 2 ?n"
  have n: "0 < ?n" using assms by simp
  have k: "0 < ?k" using n by (simp add: floorlog_def)
  have b: "2 ^ (?k - 1) \<le> ?n" "?n < 2 ^ ?k" using floorlog_bounds[OF n, of 2] by simp_all
  have "real (2 ^ (?k - 1)) \<le> real ?n" using b(1) by (rule of_nat_mono)
  then have "2 ^ (?k - 1) \<le> x" using assms by (simp only: of_nat_power of_nat_numeral) linarith
  moreover have e: "bexp x = int (?k - 1)" using assms k by (simp add: bexp_def of_nat_diff)
  ultimately show "two_powi (bexp x) \<le> x" by (simp only: e two_powi_nat)
  have "Suc ?n \<le> 2 ^ ?k" using b(2) by (rule Suc_leI)
  then have "real (Suc ?n) \<le> real (2 ^ ?k)" by (rule of_nat_mono)
  moreover have "x < real (Suc ?n)" using assms by simp linarith
  moreover have "bexp x + 1 = int ?k" using e k by simp
  ultimately show "x < two_powi (bexp x + 1)" by (simp only: two_powi_nat) simp
qed

lemma bexp_small:
  assumes "0 < x" "x < 1"
  shows "two_powi (bexp x) \<le> x" "x < two_powi (bexp x + 1)"
proof -
  let ?y = "1 / x"
  let ?n = "nat (\<lceil>?y\<rceil> - 1)"
  let ?k = "floorlog 2 ?n"
  have y: "1 < ?y" using assms by simp
  then have n: "0 < ?n" by (simp add: less_ceiling_iff)
  have k: "0 < ?k" using n by (simp add: floorlog_def)
  have b: "2 ^ (?k - 1) \<le> ?n" "?n < 2 ^ ?k" using floorlog_bounds[OF n, of 2] by simp_all
  have e: "bexp x = - int ?k" using assms by (simp add: bexp_def)
  have "int ?n = \<lceil>?y\<rceil> - 1" using n by linarith
  then have rn: "real ?n = of_int \<lceil>?y\<rceil> - 1" by linarith
  have "real (Suc ?n) \<le> real (2 ^ ?k)" using b(2) by (intro of_nat_mono Suc_leI)
  then have "of_int \<lceil>?y\<rceil> \<le> (2 ^ ?k :: real)"
    using rn by (simp only: of_nat_power of_nat_numeral of_nat_Suc)
  then have "?y \<le> 2 ^ ?k" using le_of_int_ceiling[of ?y] by linarith
  then have "1 / 2 ^ ?k \<le> x" using assms by (simp add: field_simps)
  then show "two_powi (bexp x) \<le> x" using k by (simp add: e two_powi_def)
  have "real (2 ^ (?k - 1)) \<le> real ?n" using b(1) by (rule of_nat_mono)
  then have "2 ^ (?k - 1) < ?y" using rn ceiling_correct[of ?y] by simp
  then have "x < 1 / 2 ^ (?k - 1)" using assms by (simp add: field_simps)
  moreover have "two_powi (bexp x + 1) = 1 / 2 ^ (?k - 1)"
    using k by (cases "?k = 1") (auto simp: e two_powi_def nat_diff_distrib)
  ultimately show "x < two_powi (bexp x + 1)" by simp
qed

lemma bexp_bounds:
  assumes "0 < x"
  shows "two_powi (bexp x) \<le> x" "x < two_powi (bexp x + 1)"
  using bexp_large[of x] bexp_small[of x] assms by linarith+

lemma bexp_mono: "0 < x \<Longrightarrow> x \<le> y \<Longrightarrow> bexp x \<le> bexp y"
proof -
  assume "0 < x" "x \<le> y"
  then have "two_powi (bexp x) < two_powi (bexp y + 1)"
    using bexp_bounds[of x] bexp_bounds[of y] by linarith
  then show ?thesis by (simp add: two_powi_less)
qed

section \<open>Rounding to binary64\<close>

lemma two_powi_ulp: "two_powi k = 2 ^ 52 * two_powi (k - 52)"
  using two_powi_add[of "int 52" "k - 52"] by (simp only: two_powi_nat) simp

lemma two_powi_ulp_Suc: "two_powi (k + 1) = 2 ^ 53 * two_powi (k - 52)"
  using two_powi_add[of "int 53" "k - 52"] by (simp only: two_powi_nat) (simp add: add.commute)

lemma fl_pos_bounds:
  assumes "0 < x"
  shows "two_powi (bexp x) \<le> fl_pos x" "fl_pos x \<le> two_powi (bexp x + 1)"
proof -
  let ?u = "two_powi (bexp x - 52)"
  note low = two_powi_ulp and high = two_powi_ulp_Suc
  have "of_int (2 ^ 52) \<le> x / ?u" "x / ?u \<le> of_int (2 ^ 53)"
    using bexp_bounds[OF assms] low[of "bexp x"] high[of "bexp x"] by (simp_all add: field_simps)
  then have "2 ^ 52 \<le> round_even (x / ?u)" "round_even (x / ?u) \<le> 2 ^ 53"
    by (simp_all only: round_even_ge round_even_le)
  then have "real_of_int (2 ^ 52) \<le> of_int (round_even (x / ?u))"
    "of_int (round_even (x / ?u)) \<le> real_of_int (2 ^ 53)"
    by (simp_all only: of_int_le_iff)
  then show "two_powi (bexp x) \<le> fl_pos x" "fl_pos x \<le> two_powi (bexp x + 1)"
    using low[of "bexp x"] high[of "bexp x"] by (simp_all add: fl_pos_def Let_def)
qed

lemma fl_pos_gt0: "0 < x \<Longrightarrow> 0 < fl_pos x"
  using fl_pos_bounds(1)[of x] two_powi_pos[of "bexp x"] by linarith

lemma fl_pos_mono:
  assumes "0 < x" "x \<le> y"
  shows "fl_pos x \<le> fl_pos y"
proof (cases "bexp x = bexp y")
  case True
  have "x / two_powi (bexp x - 52) \<le> y / two_powi (bexp x - 52)"
    using assms by (simp add: divide_right_mono less_imp_le)
  then have "round_even (x / two_powi (bexp x - 52)) \<le> round_even (y / two_powi (bexp x - 52))"
    by (rule round_even_mono)
  then show ?thesis by (simp add: fl_pos_def Let_def True mult_right_mono)
next
  case False
  then have "bexp x + 1 \<le> bexp y" using bexp_mono[OF assms] by simp
  then have "two_powi (bexp x + 1) \<le> two_powi (bexp y)" by (rule two_powi_mono)
  then show ?thesis using fl_pos_bounds(2)[OF assms(1)] fl_pos_bounds(1)[of y] assms by linarith
qed

lemma fl_0 [simp]: "fl 0 = 0"
  by (simp add: fl_def)

lemma fl_minus: "fl (- x) = - fl x"
  by (simp add: fl_def)

lemma fl_nonneg: "0 \<le> x \<Longrightarrow> 0 \<le> fl x"
  using fl_pos_gt0[of x] by (auto simp: fl_def)

lemma fl_pos: "0 < x \<Longrightarrow> 0 < fl x"
  using fl_pos_gt0[of x] by (auto simp: fl_def)

lemma fl_mono: "x \<le> y \<Longrightarrow> fl x \<le> fl y"
proof -
  assume le: "x \<le> y"
  consider "0 \<le> x" | "x < 0" "0 \<le> y" | "y < 0" by linarith
  then show ?thesis
  proof cases
    case 1
    with le show ?thesis using fl_pos_mono[of x y] fl_nonneg[of y] by (auto simp: fl_def)
  next
    case 2
    then show ?thesis using fl_nonneg[of y] fl_nonneg[of "- x"] by (simp add: fl_minus)
  next
    case 3
    with le show ?thesis using fl_pos_mono[of "- y" "- x"] by (auto simp: fl_def)
  qed
qed

lemma fl_err_pos:
  assumes "0 < x"
  shows "\<bar>fl x - x\<bar> \<le> x / 2 ^ 53"
proof -
  let ?u = "two_powi (bexp x - 52)"
  have "\<bar>of_int (round_even (x / ?u)) - x / ?u\<bar> \<le> 1 / 2" by (rule round_even_err)
  then have "\<bar>of_int (round_even (x / ?u)) - x / ?u\<bar> * ?u \<le> 1 / 2 * ?u"
    by (rule mult_right_mono) (simp add: less_imp_le)
  moreover have "fl x - x = (of_int (round_even (x / ?u)) - x / ?u) * ?u"
    using assms by (simp add: fl_def fl_pos_def Let_def left_diff_distrib)
  ultimately have "\<bar>fl x - x\<bar> \<le> 1 / 2 * ?u" by (simp add: abs_mult less_imp_le)
  moreover have "2 ^ 52 * ?u \<le> x" using bexp_bounds(1)[OF assms] two_powi_ulp[of "bexp x"] by simp
  ultimately show ?thesis by (simp add: field_simps)
qed

lemma two_powi_int_div:
  assumes "k \<le> 0"
  shows "of_int n / two_powi k = of_int (n * 2 ^ nat (- k))"
  using assms by (cases "k = 0") (simp_all add: two_powi_def)

lemma fl_of_int_less: "0 < n \<Longrightarrow> n < 2 ^ 53 \<Longrightarrow> fl (of_int n) = of_int n"
proof -
  assume n: "0 < n" "n < 2 ^ 53"
  have "two_powi (bexp (of_int n)) < two_powi 53"
    using bexp_bounds(1)[of "of_int n"] n by (simp add: two_powi_def)
  then have k: "bexp (of_int n) - 52 \<le> 0" by (simp add: two_powi_less)
  have "fl (of_int n) = of_int (round_even (of_int n / two_powi (bexp (of_int n) - 52))) * two_powi (bexp (of_int n) - 52)"
    using n by (simp add: fl_def fl_pos_def Let_def)
  also have "\<dots> = of_int n / two_powi (bexp (of_int n) - 52) * two_powi (bexp (of_int n) - 52)"
    by (simp only: two_powi_int_div[OF k] round_even_of_int)
  also have "\<dots> = of_int n" using two_powi_pos[of "bexp (of_int n) - 52"] by simp
  finally show ?thesis .
qed

lemma fl_of_int [fl_simps]: "\<bar>n\<bar> < 2 ^ 53 \<Longrightarrow> fl (of_int n) = of_int n"
  using fl_of_int_less[of n] fl_of_int_less[of "- n"] fl_minus[of "of_int n"]
  by (cases n "0 :: int" rule: linorder_cases) auto

lemma fl_1 [simp]: "fl 1 = 1"
  using fl_of_int[of 1] by simp

lemma fl_le_1: "x \<le> 1 \<Longrightarrow> fl x \<le> 1"
  using fl_mono[of x 1] by simp

section \<open>Conversions\<close>

text \<open>\<open>int(x)\<close> truncates towards zero; \<open>float64(n)\<close> rounds.\<close>

definition go_int :: "float64 \<Rightarrow> int" where
  "go_int x = (if 0 \<le> x then \<lfloor>x\<rfloor> else \<lceil>x\<rceil>)"

definition float64_of :: "int \<Rightarrow> float64" where
  "float64_of n = fl (of_int n)"

lemma go_int_of_int [simp]: "go_int (of_int n) = n"
  by (simp add: go_int_def)

lemma go_int_nonneg: "0 \<le> x \<Longrightarrow> 0 \<le> go_int x"
  by (simp add: go_int_def)

lemma go_int_mono: "x \<le> y \<Longrightarrow> go_int x \<le> go_int y"
proof -
  assume le: "x \<le> y"
  have "\<lceil>x\<rceil> \<le> \<lfloor>y\<rfloor>" if "x < 0" "0 \<le> y"
    using that by (meson ceiling_le_zero less_imp_le order_trans zero_le_floor)
  with le show ?thesis by (auto simp: go_int_def floor_mono ceiling_mono)
qed

lemma float64_of_exact [fl_simps]: "\<bar>n\<bar> < 2 ^ 53 \<Longrightarrow> float64_of n = of_int n"
  by (simp add: float64_of_def fl_of_int)

lemma float64_of_mono: "m \<le> n \<Longrightarrow> float64_of m \<le> float64_of n"
  by (simp add: float64_of_def fl_mono)

end
