(* ===== verification/Score.thy ===== *)
theory Score
  imports GoFloat
begin

text \<open>
  The composite leaderboard score of \<open>internal/score/score.go\<close>. Go documents no rounding
  for \<open>math.Log10\<close>, so it is an argument; \<open>log10_ok\<close> states what the code relies on: it is
  zero at one, monotone from there on, and separates the constants of the formula. All other
  operations are rounded as the hardware rounds them.
\<close>

section \<open>Definitions\<close>

definition latFullNs :: float64 where "latFullNs = 10 ^ 6"
definition latZeroNs :: float64 where "latZeroNs = 10 ^ 9"
definition tpsFull :: float64 where "tpsFull = 50000"

definition clamp :: "float64 \<Rightarrow> float64" where
  "clamp x = max 0 (min 1 x)"

definition Composite ::
  "(float64 \<Rightarrow> float64) \<Rightarrow> int \<Rightarrow> float64 \<Rightarrow> float64 \<Rightarrow> float64 \<Rightarrow> float64" where
  "Composite Log10 p99Ns tps liveCorrectness conformance =
     (let lat = clamp (fl (fl (Log10 latZeroNs - Log10 (max (fl (of_int p99Ns)) 1)) /
                           fl (Log10 latZeroNs - Log10 latFullNs)));
          thr = clamp (fl (Log10 (max tps 1) / Log10 tpsFull));
          cor = clamp (fl (fl (fl (1 / 2) * liveCorrectness) + fl (fl (1 / 2) * conformance)))
      in fl (100 * fl (fl (fl (fl (35 / 100) * lat) + fl (fl (35 / 100) * thr)) + fl (fl (30 / 100) * cor))))"

definition log10_ok :: "(float64 \<Rightarrow> float64) \<Rightarrow> bool" where
  "log10_ok Log10 \<longleftrightarrow>
     Log10 1 = 0 \<and> (\<forall>x y. 1 \<le> x \<longrightarrow> x \<le> y \<longrightarrow> Log10 x \<le> Log10 y) \<and>
     Log10 latFullNs < Log10 latZeroNs \<and> 0 < Log10 tpsFull"

section \<open>Components\<close>

lemma clamp_range: "0 \<le> clamp x" "clamp x \<le> 1"
  by (simp_all add: clamp_def)

lemma clamp_mono: "x \<le> y \<Longrightarrow> clamp x \<le> clamp y"
  by (auto simp: clamp_def)

lemma clamp_1: "1 \<le> x \<Longrightarrow> clamp x = 1" and clamp_0: "x \<le> 0 \<Longrightarrow> clamp x = 0"
  by (simp_all add: clamp_def)

text \<open>The weighted sum, as a function of the three components.\<close>

definition weighted :: "float64 \<Rightarrow> float64 \<Rightarrow> float64 \<Rightarrow> float64" where
  "weighted lat thr cor =
     fl (100 * fl (fl (fl (fl (35 / 100) * lat) + fl (fl (35 / 100) * thr)) + fl (fl (30 / 100) * cor)))"

lemma weighted_mono:
  assumes "lat \<le> lat'" "thr \<le> thr'" "cor \<le> cor'"
  shows "weighted lat thr cor \<le> weighted lat' thr' cor'"
proof -
  have w: "0 \<le> fl (35 / 100)" "0 \<le> fl (30 / 100)" by (rule fl_nonneg, simp)+
  show ?thesis
    unfolding weighted_def
    using assms w by (intro fl_mono mult_left_mono add_mono) simp_all
qed

lemma weighted_ones: "weighted 1 1 1 = 100"
  unfolding weighted_def by code_simp

lemma weighted_zeros: "weighted 0 0 0 = 0"
  by (simp add: weighted_def)

lemma weighted_latency: "weighted 1 0 0 = 35"
  unfolding weighted_def by code_simp

definition lat_part :: "(float64 \<Rightarrow> float64) \<Rightarrow> int \<Rightarrow> float64" where
  "lat_part Log10 p99Ns =
     clamp (fl (fl (Log10 latZeroNs - Log10 (max (fl (of_int p99Ns)) 1)) / fl (Log10 latZeroNs - Log10 latFullNs)))"

definition thr_part :: "(float64 \<Rightarrow> float64) \<Rightarrow> float64 \<Rightarrow> float64" where
  "thr_part Log10 tps = clamp (fl (Log10 (max tps 1) / Log10 tpsFull))"

definition cor_part :: "float64 \<Rightarrow> float64 \<Rightarrow> float64" where
  "cor_part live conf = clamp (fl (fl (fl (1 / 2) * live) + fl (fl (1 / 2) * conf)))"

lemma Composite_parts:
  "Composite Log10 p99Ns tps live conf =
     weighted (lat_part Log10 p99Ns) (thr_part Log10 tps) (cor_part live conf)"
  by (simp add: Composite_def weighted_def lat_part_def thr_part_def cor_part_def Let_def)

lemma log_span: "log10_ok Log10 \<Longrightarrow> 0 < fl (Log10 latZeroNs - Log10 latFullNs)"
  by (rule fl_pos) (simp add: log10_ok_def)

lemma lat_part_antimono:
  assumes "log10_ok Log10" "p \<le> p'"
  shows "lat_part Log10 p' \<le> lat_part Log10 p"
proof -
  have "fl (of_int p) \<le> fl (of_int p')" using assms(2) by (intro fl_mono) simp
  then have "Log10 (max (fl (of_int p)) 1) \<le> Log10 (max (fl (of_int p')) 1)"
    using assms(1) by (auto simp: log10_ok_def)
  then show ?thesis
    unfolding lat_part_def
    using log_span[OF assms(1)] by (intro clamp_mono fl_mono divide_right_mono diff_left_mono) simp_all
qed

lemma thr_part_mono: "log10_ok Log10 \<Longrightarrow> t \<le> t' \<Longrightarrow> thr_part Log10 t \<le> thr_part Log10 t'"
  unfolding thr_part_def
  by (intro clamp_mono fl_mono divide_right_mono) (auto simp: log10_ok_def)

lemma cor_part_mono: "l \<le> l' \<Longrightarrow> c \<le> c' \<Longrightarrow> cor_part l c \<le> cor_part l' c'"
  unfolding cor_part_def
  by (intro clamp_mono fl_mono add_mono mult_left_mono fl_nonneg) simp_all

lemma lat_part_full: "log10_ok Log10 \<Longrightarrow> p \<le> 10 ^ 6 \<Longrightarrow> lat_part Log10 p = 1"
proof -
  assume L: "log10_ok Log10" and p: "p \<le> 10 ^ 6"
  have "fl (of_int (10 ^ 6)) = latFullNs" by (subst fl_of_int) (simp_all add: latFullNs_def)
  then have "lat_part Log10 (10 ^ 6) = 1"
    using log_span[OF L] by (simp add: lat_part_def latFullNs_def clamp_def)
  then show ?thesis
    using lat_part_antimono[OF L p] clamp_range(2) by (metis antisym lat_part_def)
qed

lemma lat_part_zero: "log10_ok Log10 \<Longrightarrow> 10 ^ 9 \<le> p \<Longrightarrow> lat_part Log10 p = 0"
proof -
  assume L: "log10_ok Log10" and p: "10 ^ 9 \<le> p"
  have "fl (of_int (10 ^ 9)) = latZeroNs" by (subst fl_of_int) (simp_all add: latZeroNs_def)
  then have "lat_part Log10 (10 ^ 9) = 0"
    by (simp add: lat_part_def latZeroNs_def clamp_def)
  then show ?thesis
    using lat_part_antimono[OF L p] clamp_range(1) by (metis antisym lat_part_def)
qed

lemma thr_part_full: "log10_ok Log10 \<Longrightarrow> 50000 \<le> t \<Longrightarrow> thr_part Log10 t = 1"
proof -
  assume L: "log10_ok Log10" and t: "50000 \<le> t"
  have "thr_part Log10 tpsFull = 1"
    using L by (simp add: thr_part_def clamp_def tpsFull_def log10_ok_def)
  then show ?thesis
    using thr_part_mono[OF L, of tpsFull t] t clamp_range(2) by (metis antisym thr_part_def tpsFull_def)
qed

lemma thr_part_zero: "log10_ok Log10 \<Longrightarrow> t \<le> 1 \<Longrightarrow> thr_part Log10 t = 0"
  by (simp add: thr_part_def clamp_def log10_ok_def max_def)

lemma cor_part_full: "cor_part 1 1 = 1" and cor_part_zero: "cor_part 0 0 = 0"
  unfolding cor_part_def by code_simp+

lemma log10_ok_exact: "log10_ok (log 10)"
  by (simp add: log10_ok_def latFullNs_def latZeroNs_def tpsFull_def)

lemma Composite_range:
  "0 \<le> Composite Log10 p tps live conf \<and> Composite Log10 p tps live conf \<le> 100"
proof -
  have "weighted 0 0 0 \<le> Composite Log10 p tps live conf" "Composite Log10 p tps live conf \<le> weighted 1 1 1"
    unfolding Composite_parts
    by (intro weighted_mono; simp add: lat_part_def thr_part_def cor_part_def clamp_range)+
  then show ?thesis by (simp add: weighted_ones weighted_zeros)
qed

section \<open>Properties of the score\<close>

text \<open>
  (C30) The composite score lies between 0 and 100 for every engine, rounding included; an
  engine at or under one millisecond p99 with at least 50000 TPS and full correctness gets
  exactly 100, and an engine at or over one second with at most 1 TPS and no correctness 0.
\<close>

theorem score_bounds:
  assumes "log10_ok Log10"
  shows "0 \<le> Composite Log10 p tps live conf \<and> Composite Log10 p tps live conf \<le> 100 \<and>
    (p \<le> 10 ^ 6 \<longrightarrow> 50000 \<le> tps \<longrightarrow> Composite Log10 p tps 1 1 = 100) \<and>
    (10 ^ 9 \<le> p \<longrightarrow> tps \<le> 1 \<longrightarrow> Composite Log10 p tps 0 0 = 0)"
proof -
  have "Composite Log10 p tps 1 1 = 100" if "p \<le> 10 ^ 6" "50000 \<le> tps"
    unfolding Composite_parts using assms that
    by (simp add: lat_part_full thr_part_full cor_part_full weighted_ones)
  moreover have "Composite Log10 p tps 0 0 = 0" if "10 ^ 9 \<le> p" "tps \<le> 1"
    unfolding Composite_parts using assms that
    by (simp add: lat_part_zero thr_part_zero cor_part_zero weighted_zeros)
  ultimately show ?thesis using Composite_range by blast
qed

theorem score_bounds_witness:
  "Composite (log 10) 500000 60000 1 1 = 100 \<and> Composite (log 10) 5000000000 0 0 0 = 0"
  using score_bounds[OF log10_ok_exact, of 500000 60000 1 1]
    score_bounds[OF log10_ok_exact, of 5000000000 0 0 0] by simp

text \<open>
  (C31) The score is monotone on all four axes at once, rounding included: a run that is no
  slower at p99, sustains at least the throughput and is at least as correct live and in the
  conformance probe never scores lower.
\<close>

theorem score_monotone:
  assumes "log10_ok Log10" "p \<le> p'" "tps' \<le> tps" "live' \<le> live" "conf' \<le> conf"
  shows "Composite Log10 p' tps' live' conf' \<le> Composite Log10 p tps live conf"
  unfolding Composite_parts
  using assms by (intro weighted_mono lat_part_antimono thr_part_mono cor_part_mono)

theorem score_monotone_witness:
  "Composite (log 10) 20000000 500 (1 / 2) (1 / 2) \<le> Composite (log 10) 2000000 5000 1 1"
  by (rule score_monotone[OF log10_ok_exact]) simp_all

text \<open>A run without acknowledgements: the components for latency 0, throughput 0 and live correctness 0.\<close>

lemma Composite_silent:
  assumes "log10_ok Log10"
  shows "Composite Log10 0 0 0 0 = 35" "Composite Log10 0 0 0 1 = 50" "0 \<le> conf \<Longrightarrow> 35 \<le> Composite Log10 0 0 0 conf"
proof -
  have z: "lat_part Log10 0 = 1" "thr_part Log10 0 = 0" using assms by (simp_all add: lat_part_full thr_part_zero)
  then show "Composite Log10 0 0 0 0 = 35" unfolding Composite_parts by (simp add: cor_part_zero weighted_latency)
  have "weighted 1 0 (cor_part 0 1) = 50" unfolding weighted_def cor_part_def by code_simp
  then show "Composite Log10 0 0 0 1 = 50" unfolding Composite_parts z .
  assume "0 \<le> conf"
  then have "weighted 1 0 (cor_part 0 0) \<le> weighted 1 0 (cor_part 0 conf)" by (intro weighted_mono cor_part_mono) simp_all
  then show "35 \<le> Composite Log10 0 0 0 conf" unfolding Composite_parts z by (simp add: cor_part_zero weighted_latency)
qed

end
