(* ===== verification/Telemetry.thy ===== *)
theory Telemetry
  imports GoFloat
begin

text \<open>
  The mergeable latency histogram of \<open>internal/telemetry/hist.go\<close>. \<open>math.Log\<close> and
  \<open>math.Pow\<close>, whose rounding Go does not specify, are arguments. The mutex of \<open>Hist\<close> makes
  \<open>Record\<close> and \<open>TakeDelta\<close> atomic, so each is one function on the state.
\<close>

section \<open>Definitions\<close>

definition minNs :: int where "minNs = 1000"

definition logGrowth :: "(float64 \<Rightarrow> float64) \<Rightarrow> float64" where
  "logGrowth Log = Log (fl (105 / 100))"

definition bucketOf :: "(float64 \<Rightarrow> float64) \<Rightarrow> int \<Rightarrow> int" where
  "bucketOf Log ns =
     (if ns < minNs then 0
      else go_int (fl (Log (fl (float64_of ns / float64_of minNs)) / logGrowth Log)) + 1)"

definition bucketValue :: "(float64 \<Rightarrow> float64 \<Rightarrow> float64) \<Rightarrow> int \<Rightarrow> int" where
  "bucketValue mPow b =
     (if b \<le> 0 then minNs
      else go_int (fl (float64_of minNs * mPow (fl (105 / 100)) (fl (float64_of b - 1 / 2)))))"

record Hist =
  counts :: "(int, int) gomap"

definition NewHist :: Hist where
  "NewHist = \<lparr>counts = []\<rparr>"

definition Record :: "(float64 \<Rightarrow> float64) \<Rightarrow> Hist \<Rightarrow> int \<Rightarrow> Hist" where
  "Record Log h ns = h\<lparr>counts := gm_add (counts h) (bucketOf Log ns) 1\<rparr>"

definition TakeDelta :: "Hist \<Rightarrow> (int, int) gomap \<times> Hist" where
  "TakeDelta h = (counts h, h\<lparr>counts := []\<rparr>)"

definition Merge :: "(int, int) gomap \<Rightarrow> (int, int) gomap \<Rightarrow> (int, int) gomap" where
  "Merge dst src = gm_adds dst src"

fun quantile_scan :: "(int, int) gomap \<Rightarrow> int \<Rightarrow> int \<Rightarrow> int list \<Rightarrow> int option" where
  "quantile_scan c rank cum [] = None"
| "quantile_scan c rank cum (k # ks) =
     (let cum' = i64 (cum + gm_get 0 c k)
      in if cum' \<ge> rank then Some k else quantile_scan c rank cum' ks)"

definition quantile_total :: "(int, int) gomap \<Rightarrow> int" where
  "quantile_total c = fold (\<lambda>(k, v) total. i64 (total + v)) c 0"

definition Quantile :: "(float64 \<Rightarrow> float64 \<Rightarrow> float64) \<Rightarrow> (int, int) gomap \<Rightarrow> float64 \<Rightarrow> int" where
  "Quantile mPow c q =
     (let total = quantile_total c; keys = sort (map fst c)
      in if total = 0 then 0
         else
           let rank = \<lceil>fl (q * float64_of total)\<rceil>
           in case quantile_scan c rank 0 keys of
                Some k \<Rightarrow> bucketValue mPow k
              | None \<Rightarrow> bucketValue mPow (last keys))"

text \<open>A histogram that has recorded the latencies \<open>xs\<close> in this order.\<close>

definition recorded :: "(float64 \<Rightarrow> float64) \<Rightarrow> int list \<Rightarrow> Hist" where
  "recorded Log xs = fold (\<lambda>ns h. Record Log h ns) xs NewHist"

definition log_ok :: "(float64 \<Rightarrow> float64) \<Rightarrow> bool" where
  "log_ok Log \<longleftrightarrow>
     Log 1 = 0 \<and> (\<forall>x y. 1 \<le> x \<longrightarrow> x \<le> y \<longrightarrow> Log x \<le> Log y) \<and> 0 < Log (fl (105 / 100))"

section \<open>Recording and merging\<close>

abbreviation ticks :: "(float64 \<Rightarrow> float64) \<Rightarrow> int list \<Rightarrow> (int \<times> int) list" where
  "ticks Log xs \<equiv> map (\<lambda>ns. (bucketOf Log ns, 1)) xs"

lemma recorded_counts: "counts (recorded Log xs) = gm_adds [] (ticks Log xs)"
proof -
  have "counts (fold (\<lambda>ns h. Record Log h ns) xs h) = gm_adds (counts h) (ticks Log xs)" for h
    by (induction xs arbitrary: h) (simp_all add: Record_def)
  then show ?thesis by (simp add: recorded_def NewHist_def)
qed

lemma quantile_total_sum: "quantile_total c = i64 (sum_list (map snd c))"
proof -
  have "fold (\<lambda>(k, v) total. i64 (total + v)) c t = (if c = [] then t else i64 (t + sum_list (map snd c)))" for t
    by (induction c arbitrary: t) (auto simp: add.assoc)
  from this[of 0] show ?thesis unfolding quantile_total_def by simp
qed

lemma quantile_scan_cong:
  "map_of c = map_of c' \<Longrightarrow> quantile_scan c rank cum ks = quantile_scan c' rank cum ks"
  by (induction ks arbitrary: cum) (simp_all add: gm_get_def Let_def)

text \<open>\<open>Quantile\<close> depends on the map only, not on the order in which it is visited.\<close>

lemma Quantile_cong:
  assumes "gm_ok c" "gm_ok c'" "map_of c = map_of c'"
  shows "Quantile mPow c q = Quantile mPow c' q"
proof -
  have m: "mset c = mset c'" using assms by (rule gomap_mset_eq)
  have "sum_list (map snd c) = sum_list (map snd c')"
    using m by (metis mset_map sum_mset_sum_list)
  moreover have "sort (map fst c) = sort (map fst c')"
    using m by (metis mset_map sorted_list_of_multiset_mset)
  ultimately show ?thesis
    using quantile_scan_cong[OF assms(3)] by (simp add: Quantile_def quantile_total_sum Let_def)
qed

lemma recorded_merge:
  assumes "mset zs = mset (xs @ ys)"
  shows "map_of (Merge (counts (recorded Log xs)) (counts (recorded Log ys))) =
    map_of (counts (recorded Log zs))"
proof -
  have "mset (ticks Log zs) = mset (ticks Log (xs @ ys))" using assms by (simp only: mset_map)
  then have "map_of (gm_adds [] (ticks Log zs)) = map_of (gm_adds [] (ticks Log (xs @ ys)))"
    by (rule gm_adds_perm)
  then show ?thesis by (simp add: Merge_def recorded_counts gm_adds_gm_adds)
qed

section \<open>The scan finds the nearest-rank sample\<close>

definition spread :: "('a \<Rightarrow> nat) \<Rightarrow> 'a list \<Rightarrow> 'a list" where
  "spread n ks = concat (map (\<lambda>k. replicate (n k) k) ks)"

lemma spread_simps [simp]: "spread n [] = []" "spread n (k # ks) = replicate (n k) k @ spread n ks"
  by (simp_all add: spread_def)

lemma quantile_scan_spread:
  assumes "\<forall>k \<in> set ks. gm_get 0 c k = int (n k)" "0 \<le> cum" "cum < rank"
    "rank \<le> cum + int (length (spread n ks))" "cum + int (length (spread n ks)) < 2 ^ 63"
  shows "quantile_scan c rank cum ks = Some (spread n ks ! nat (rank - cum - 1))"
  using assms
proof (induction ks arbitrary: cum)
  case (Cons k ks)
  have cum': "i64 (cum + gm_get 0 c k) = cum + int (n k)"
    using Cons.prems by (simp add: i64_nonneg)
  show ?case
  proof (cases "cum + int (n k) \<ge> rank")
    case True
    then have "nat (rank - cum - 1) < n k" using Cons.prems(3) by linarith
    then show ?thesis using True cum' by (simp add: nth_append Let_def)
  next
    case False
    have "quantile_scan c rank (cum + int (n k)) ks = Some (spread n ks ! nat (rank - (cum + int (n k)) - 1))"
      using Cons.prems False by (intro Cons.IH) simp_all
    moreover have "nat (rank - cum - 1) = n k + nat (rank - (cum + int (n k)) - 1)"
      using False by simp
    ultimately show ?thesis using False cum' by (simp add: nth_append Let_def)
  qed
qed simp

lemma count_spread: "distinct ks \<Longrightarrow> count (mset (spread n ks)) x = (if x \<in> set ks then n x else 0)"
  by (induction ks) auto

lemma sorted_spread: "sorted ks \<Longrightarrow> sorted (spread n ks)"
proof (induction ks)
  case (Cons k ks)
  have "set (spread n ks) \<subseteq> set ks" by (auto simp: spread_def split: if_splits)
  with Cons show ?case by (auto simp: sorted_append)
qed simp

lemma spread_sort:
  fixes ys :: "'a :: linorder list"
  assumes "sorted ks" "distinct ks" "set ks = set ys"
  shows "spread (count_list ys) ks = sort ys"
proof (rule properties_for_sort[symmetric])
  show "mset (spread (count_list ys) ks) = mset ys"
    using assms(3) by (intro multiset_eqI) (simp only: count_spread[OF assms(2)], simp add: count_mset)
qed (rule sorted_spread[OF assms(1)])

lemma key_sum_ticks: "key_sum (ticks Log xs) k = int (count_list (map (bucketOf Log) xs) k)"
  by (induction xs) auto

lemma recorded_get:
  "int (length xs) < 2 ^ 63 \<Longrightarrow>
   gm_get 0 (counts (recorded Log xs)) k = int (count_list (map (bucketOf Log) xs) k)"
proof -
  assume len: "int (length xs) < 2 ^ 63"
  have "int (count_list (map (bucketOf Log) xs) k) < 2 ^ 63"
    using len count_le_length[of "map (bucketOf Log) xs" k] by simp
  moreover have "count_list (map (bucketOf Log) xs) k = 0" if "k \<notin> bucketOf Log ` set xs"
    using that by (simp add: count_list_0_iff)
  ultimately show ?thesis
    by (auto simp: recorded_counts gm_get_adds key_sum_ticks i64_nonneg image_image)
qed

lemma recorded_ok: "gm_ok (counts (recorded Log xs))"
  by (simp add: recorded_counts)

lemma recorded_keys: "set (map fst (counts (recorded Log xs))) = bucketOf Log ` set xs"
proof -
  have "set (map fst (counts (recorded Log xs))) = dom (map_of (counts (recorded Log xs)))"
    by (simp add: dom_map_of_conv_image_fst)
  also have "\<dots> = bucketOf Log ` set xs"
    by (auto simp: recorded_counts map_of_gm_adds dom_def image_image split: if_splits)
  finally show ?thesis .
qed

lemma recorded_spread:
  "spread (count_list (map (bucketOf Log) xs)) (sort (map fst (counts (recorded Log xs)))) =
     sort (map (bucketOf Log) xs)"
  using recorded_ok[of Log xs] recorded_keys[of Log xs] by (intro spread_sort) (simp_all add: gm_ok_def)

lemma sum_gomap_keys:
  "gm_ok m \<Longrightarrow> sum_list (map snd m) = sum_list (map (gm_get 0 m) (map fst m))"
  by (rule arg_cong[where f = sum_list]) (auto simp: gm_ok_def gm_get_def)

lemma recorded_total:
  assumes "int (length xs) < 2 ^ 63"
  shows "quantile_total (counts (recorded Log xs)) = int (length xs)"
proof -
  let ?c = "counts (recorded Log xs)" and ?ys = "map (bucketOf Log) xs"
  have "sum_list (map snd ?c) = sum_list (map (\<lambda>k. int (count_list ?ys k)) (map fst ?c))"
    using recorded_get[OF assms] by (simp add: sum_gomap_keys[OF recorded_ok] cong: map_cong)
  also have "\<dots> = (\<Sum>k \<in> set ?ys. int (count_list ?ys k))"
    using recorded_ok[of Log xs] recorded_keys[of Log xs]
    by (simp add: sum_list_distinct_conv_sum_set gm_ok_def del: map_map)
  also have "\<dots> = int (length ?ys)"
    by (simp only: of_nat_sum[symmetric] sum_count_set[OF subset_refl finite_set])
  finally show ?thesis using assms by (simp add: quantile_total_sum i64_nonneg)
qed

lemma bucketOf_mono:
  assumes "log_ok Log" "a \<le> b"
  shows "bucketOf Log a \<le> bucketOf Log b"
proof -
  let ?x = "\<lambda>ns. fl (float64_of ns / float64_of minNs)"
  have k: "float64_of minNs = 1000" by (simp add: minNs_def float64_of_exact)
  have ge: "1 \<le> ?x ns" if "minNs \<le> ns" for ns
  proof -
    have "1000 \<le> float64_of ns" using float64_of_mono[OF that] k by simp
    then show ?thesis using fl_mono[of 1 "float64_of ns / 1000"] by (simp add: k)
  qed
  have g: "0 < logGrowth Log" using assms(1) by (simp add: log_ok_def logGrowth_def)
  have nn: "0 \<le> fl (Log (?x ns) / logGrowth Log)" if "minNs \<le> ns" for ns
    using assms(1) g ge[OF that] by (intro fl_nonneg divide_nonneg_pos) (auto simp: log_ok_def)
  consider "b < minNs" | "a < minNs" "minNs \<le> b" | "minNs \<le> a" "minNs \<le> b" using assms(2) by linarith
  then show ?thesis
  proof cases
    case 1
    then show ?thesis using assms(2) by (simp add: bucketOf_def)
  next
    case 2
    then show ?thesis using go_int_nonneg[OF nn[OF 2(2)]] by (simp add: bucketOf_def)
  next
    case 3
    have "?x a \<le> ?x b" using float64_of_mono[OF assms(2)] k by (intro fl_mono divide_right_mono) simp_all
    then have "Log (?x a) \<le> Log (?x b)" using assms(1) ge[OF 3(1)] by (simp add: log_ok_def)
    then have "go_int (fl (Log (?x a) / logGrowth Log)) \<le> go_int (fl (Log (?x b) / logGrowth Log))"
      using g by (intro go_int_mono fl_mono divide_right_mono) simp_all
    then show ?thesis using 3 by (simp add: bucketOf_def)
  qed
qed

lemma sort_map_mono: "\<forall>a b. a \<le> b \<longrightarrow> f a \<le> f b \<Longrightarrow> sort (map f xs) = map f (sort xs)"
  for f :: "'a :: linorder \<Rightarrow> 'b :: linorder"
  by (rule properties_for_sort)
     (simp, simp add: sorted_map, metis (mono_tags, lifting) sorted_sort sorted_wrt_mono_rel)

lemma rank_bounds:
  assumes "0 < q" "q \<le> 1" "0 < n" "n < 2 ^ 53"
  shows "1 \<le> \<lceil>fl (q * float64_of n)\<rceil>" "\<lceil>fl (q * float64_of n)\<rceil> \<le> n"
proof -
  have n: "float64_of n = of_int n" using assms by (intro float64_of_exact) simp
  have "0 < fl (q * of_int n)" using assms by (intro fl_pos mult_pos_pos) simp_all
  then show "1 \<le> \<lceil>fl (q * float64_of n)\<rceil>" by (simp add: n)
  have "fl (q * of_int n) \<le> fl (of_int n)"
    using assms by (intro fl_mono) (simp add: mult_left_le_one_le)
  then show "\<lceil>fl (q * float64_of n)\<rceil> \<le> n"
    using float64_of_exact[of n] assms by (simp add: n float64_of_def ceiling_le_iff)
qed

section \<open>Properties of the histogram\<close>

text \<open>
  (C27) Merging is faithful to sharding: however a set of latencies is split over two
  histograms and in whatever order it was recorded, merging the two deltas gives the same
  quantiles as one histogram that recorded everything.
\<close>

theorem merged_shards_equal_whole:
  assumes "mset zs = mset (xs @ ys)"
  shows "Quantile mPow (Merge (fst (TakeDelta (recorded Log xs))) (fst (TakeDelta (recorded Log ys)))) q =
    Quantile mPow (fst (TakeDelta (recorded Log zs))) q"
proof -
  have "gm_ok (Merge (counts (recorded Log xs)) (counts (recorded Log ys)))"
    by (simp add: Merge_def recorded_ok)
  then show ?thesis
    unfolding TakeDelta_def fst_conv
    using recorded_ok recorded_merge[OF assms] by (rule Quantile_cong)
qed

theorem merged_shards_equal_whole_witness:
  "Quantile (\<lambda>x y. x powr y)
     (Merge (fst (TakeDelta (recorded ln [37000, 111000]))) (fst (TakeDelta (recorded ln [74000])))) (99 / 100) =
   Quantile (\<lambda>x y. x powr y) (fst (TakeDelta (recorded ln [37000, 74000, 111000]))) (99 / 100)"
  by (rule merged_shards_equal_whole) simp

text \<open>
  (C26) \<open>Quantile\<close> is the nearest-rank quantile: on a histogram of at least one and fewer than
  \<open>2 ^ 53\<close> latencies it returns the representative of the bucket of the latency at rank
  \<open>ceil(q * n)\<close> of the sorted latencies.
\<close>

theorem quantile_is_nearest_rank:
  assumes "log_ok Log" "xs \<noteq> []" "int (length xs) < 2 ^ 53" "0 < q" "q \<le> 1"
  shows "Quantile mPow (fst (TakeDelta (recorded Log xs))) q =
    bucketValue mPow (bucketOf Log (sort xs ! nat (\<lceil>fl (q * float64_of (int (length xs)))\<rceil> - 1)))"
proof -
  let ?c = "counts (recorded Log xs)" and ?n = "int (length xs)"
  let ?rank = "\<lceil>fl (q * float64_of ?n)\<rceil>"
  have len: "?n < 2 ^ 63" "0 < ?n" using assms(2,3) by auto
  note R = rank_bounds[OF assms(4,5) len(2) assms(3)]
  have "quantile_scan ?c ?rank 0 (sort (map fst ?c)) = Some (sort (map (bucketOf Log) xs) ! nat (?rank - 0 - 1))"
    unfolding recorded_spread[symmetric] using R len(1) recorded_get[OF len(1)]
    by (intro quantile_scan_spread) (simp_all add: recorded_spread)
  moreover have "sort (map (bucketOf Log) xs) = map (bucketOf Log) (sort xs)"
    using bucketOf_mono[OF assms(1)] by (intro sort_map_mono) simp
  moreover have "nat (?rank - 1) < length (sort xs)" using R by (simp only: length_sort)
  ultimately show ?thesis
    using len recorded_total[OF len(1)] by (simp add: TakeDelta_def Quantile_def Let_def)
qed

lemma log_ok_ln: "log_ok ln"
proof -
  have "1 < fl (105 / 100)" by code_simp
  then show ?thesis by (simp add: log_ok_def)
qed

theorem quantile_is_nearest_rank_witness:
  "Quantile (\<lambda>x y. x powr y) (fst (TakeDelta (recorded ln [3000, 1000, 2000]))) 1 =
   bucketValue (\<lambda>x y. x powr y) (bucketOf ln (sort [3000, 1000, 2000] !
     nat (\<lceil>fl (1 * float64_of (int (length [3000, 1000, 2000 :: int])))\<rceil> - 1)))"
  by (rule quantile_is_nearest_rank[OF log_ok_ln]) simp_all

end
