(* ===== verification/GoRand.thy ===== *)
theory GoRand
  imports GoFloat
begin

text \<open>
  \<open>math/rand\<close> generators and HTTP exchanges as the services see them. A generator is the
  sequence of values it will produce, as an arbitrary pair of functions, and a position; a
  theorem that quantifies over generators covers every seed. An exchange either fails in the
  transport or yields a status code and the outcome of decoding the body: the error of the
  JSON decoder or the value.
\<close>

record rng =
  ints :: "nat \<Rightarrow> nat"
  floats :: "nat \<Rightarrow> float64"
  pos :: nat

definition Intn :: "rng \<Rightarrow> int \<Rightarrow> int \<times> rng" where
  "Intn r n = (int (ints r (pos r)) mod n, r\<lparr>pos := Suc (pos r)\<rparr>)"

definition Float64 :: "rng \<Rightarrow> float64 \<times> rng" where
  "Float64 r = (floats r (pos r), r\<lparr>pos := Suc (pos r)\<rparr>)"

lemma Intn_range: "0 < n \<Longrightarrow> 0 \<le> fst (Intn r n) \<and> fst (Intn r n) < n"
  by (simp add: Intn_def)

datatype 'a http_result = TransportError string | Response int "string + 'a"

end
