(* ===== verification/GoStrings.thy ===== *)
theory GoStrings
  imports Prelude
begin

text \<open>
  What the services use of Go's string library. A Go string is a byte sequence, so it is a
  HOL \<open>string\<close>. \<open>Itoa\<close> is decimal printing (\<open>strconv.Itoa\<close> and the verb \<open>d\<close> of
  \<open>fmt.Sprintf\<close>), \<open>TrimSpace\<close> removes the UTF-8 encodings of Unicode white space at both
  ends, \<open>runes\<close> is what \<open>range\<close> over a string yields, with the replacement character for
  every byte that does not start a valid encoding.
\<close>

section \<open>Decimal printing\<close>

definition digit :: "nat \<Rightarrow> char" where
  "digit n = char_of (48 + n)"

fun show_nat :: "nat \<Rightarrow> string" where
  "show_nat n = (if n < 10 then [digit n] else show_nat (n div 10) @ [digit (n mod 10)])"

declare show_nat.simps [simp del]

definition Itoa :: "int \<Rightarrow> string" where
  "Itoa n = (if n < 0 then CHR ''-'' # show_nat (nat (- n)) else show_nat (nat n))"

fun read_nat :: "nat \<Rightarrow> string \<Rightarrow> nat" where
  "read_nat acc [] = acc"
| "read_nat acc (c # cs) = read_nat (10 * acc + (of_char c - 48)) cs"

lemma read_nat_append: "read_nat acc (xs @ ys) = read_nat (read_nat acc xs) ys"
  by (induction xs arbitrary: acc) auto

lemma of_char_digit: "n < 10 \<Longrightarrow> of_char (digit n) = 48 + n"
  by (simp add: digit_def)

lemma read_show_nat: "read_nat 0 (show_nat n) = n"
proof (induction n rule: show_nat.induct)
  case (1 n)
  then show ?case
    by (subst show_nat.simps) (simp add: read_nat_append of_char_digit)
qed

lemma show_nat_inj: "show_nat m = show_nat n \<longleftrightarrow> m = n"
  by (metis read_show_nat)

lemma show_nat_digits: "c \<in> set (show_nat n) \<Longrightarrow> \<exists>d < 10. c = digit d"
proof (induction n rule: show_nat.induct)
  case (1 n)
  show ?case
  proof (cases "n < 10")
    case True
    with "1.prems" show ?thesis by (subst (asm) show_nat.simps) auto
  next
    case False
    with "1.prems" have "c \<in> set (show_nat (n div 10)) \<or> c = digit (n mod 10)"
      by (subst (asm) show_nat.simps) auto
    with "1.IH"[OF False] show ?thesis by (metis mod_less_divisor zero_less_numeral)
  qed
qed

lemma show_nat_nonempty: "show_nat n \<noteq> []"
  by (subst show_nat.simps) simp

lemma digit_neq: "d < 10 \<Longrightarrow> (of_char c :: nat) < 48 \<Longrightarrow> digit d \<noteq> c"
  using of_char_digit[of d] by auto

lemma Itoa_inj: "Itoa m = Itoa n \<longleftrightarrow> m = n"
proof -
  have minus: "CHR ''-'' # xs \<noteq> show_nat k" for xs k
  proof
    assume "CHR ''-'' # xs = show_nat k"
    then obtain d where "d < 10" "digit d = CHR ''-''"
      using show_nat_digits[of "CHR ''-''" k] by (metis list.set_intros(1))
    moreover have "(of_char (CHR ''-'') :: nat) < 48" by simp
    ultimately show False using digit_neq by blast
  qed
  show ?thesis
    using minus minus[symmetric] by (auto simp: Itoa_def show_nat_inj)
qed

section \<open>White space\<close>

text \<open>The UTF-8 encodings of the code points with the Unicode property \<open>White_Space\<close>.\<close>

definition white_space :: "string list" where
  "white_space =
     map (map (char_of :: nat \<Rightarrow> char))
       ([[9], [10], [11], [12], [13], [32], [194, 133], [194, 160], [225, 154, 128]] @
        map (\<lambda>k. [226, 128, 128 + k]) [0, 1, 2, 3, 4, 5, 6, 7, 8, 9, 10, 40, 41, 47] @
        [[226, 129, 159], [227, 128, 128]])"

function strip_any :: "string list \<Rightarrow> string \<Rightarrow> string" where
  "strip_any ws s =
     (case find (\<lambda>w. w \<noteq> [] \<and> take (length w) s = w) ws of
        None \<Rightarrow> s
      | Some w \<Rightarrow> strip_any ws (drop (length w) s))"
  by pat_completeness auto
termination
proof (relation "measure (\<lambda>(ws, s). length s)")
  fix ws :: "string list" and s w
  assume "find (\<lambda>w. w \<noteq> [] \<and> take (length w) s = w) ws = Some w"
  then have "w \<noteq> []" "take (length w) s = w" by (auto simp: find_Some_iff)
  then have "s \<noteq> []" by auto
  with \<open>w \<noteq> []\<close> show "((ws, drop (length w) s), (ws, s)) \<in> measure (\<lambda>(ws, s). length s)" by simp
qed simp

declare strip_any.simps [simp del]

definition TrimSpace :: "string \<Rightarrow> string" where
  "TrimSpace s = rev (strip_any (map rev white_space) (rev (strip_any white_space s)))"

lemma strip_any_none: "\<forall>w \<in> set ws. w \<noteq> [] \<longrightarrow> take (length w) s \<noteq> w \<Longrightarrow> strip_any ws s = s"
  by (subst strip_any.simps) (auto split: option.splits simp: find_Some_iff)

lemma TrimSpace_id:
  assumes "\<forall>w \<in> set white_space. take (length w) s \<noteq> w \<and> take (length w) (rev s) \<noteq> rev w"
  shows "TrimSpace s = s"
proof -
  have "strip_any white_space s = s" using assms by (intro strip_any_none) auto
  moreover have "strip_any (map rev white_space) (rev s) = rev s" using assms by (intro strip_any_none) auto
  ultimately show ?thesis by (simp add: TrimSpace_def)
qed

lemma TrimSpace_Nil [simp]: "TrimSpace [] = []"
  by (rule TrimSpace_id) (simp add: white_space_def)

lemma strip_any_suffix: "\<exists>xs. s = xs @ strip_any ws s"
proof (induction ws s rule: strip_any.induct)
  case (1 ws s)
  show ?case
  proof (cases "find (\<lambda>w. w \<noteq> [] \<and> take (length w) s = w) ws")
    case None
    then show ?thesis by (subst strip_any.simps) simp
  next
    case (Some w)
    then obtain xs where "drop (length w) s = xs @ strip_any ws (drop (length w) s)" using 1 by blast
    then have "s = (take (length w) s @ xs) @ strip_any ws (drop (length w) s)"
      by (metis append.assoc append_take_drop_id)
    moreover have "strip_any ws s = strip_any ws (drop (length w) s)"
      using Some by (subst strip_any.simps) simp
    ultimately show ?thesis by metis
  qed
qed

section \<open>Lines\<close>

fun Split :: "char \<Rightarrow> string \<Rightarrow> string list" where
  "Split sep [] = [[]]"
| "Split sep (c # cs) =
     (if c = sep then [] # Split sep cs
      else (case Split sep cs of [] \<Rightarrow> [[c]] | l # ls \<Rightarrow> (c # l) # ls))"

fun Join :: "string list \<Rightarrow> string \<Rightarrow> string" where
  "Join [] sep = []"
| "Join [x] sep = x"
| "Join (x # y # ys) sep = x @ sep @ Join (y # ys) sep"

lemma Split_nonempty [simp]: "Split sep s \<noteq> []"
  by (cases "(sep, s)" rule: Split.cases) (auto split: list.splits)

lemma Join_Split: "Join (Split sep s) [sep] = s"
proof (induction sep s rule: Split.induct)
  case (2 sep c cs)
  obtain l ls where ls: "Split sep cs = l # ls" by (cases "Split sep cs") auto
  with 2 show ?case by (cases ls) auto
qed simp

section \<open>Runes\<close>

definition cont :: "nat \<Rightarrow> nat \<Rightarrow> nat \<Rightarrow> bool" where
  "cont lo hi b \<longleftrightarrow> lo \<le> b \<and> b \<le> hi"

definition rune_error :: int where "rune_error = 65533"

text \<open>\<open>decode_rune\<close> reads one code point and the number of bytes it takes.\<close>

definition decode_rune :: "nat list \<Rightarrow> int \<times> nat" where
  "decode_rune bs =
     (case bs of
        [] \<Rightarrow> (rune_error, 0)
      | b0 # rest \<Rightarrow>
          if b0 < 128 then (int b0, 1)
          else if 194 \<le> b0 \<and> b0 \<le> 223 then
            (case rest of
               b1 # _ \<Rightarrow> if cont 128 191 b1 then (int ((b0 - 192) * 64 + (b1 - 128)), 2) else (rune_error, 1)
             | _ \<Rightarrow> (rune_error, 1))
          else if 224 \<le> b0 \<and> b0 \<le> 239 then
            (case rest of
               b1 # b2 # _ \<Rightarrow>
                 if cont (if b0 = 224 then 160 else 128) (if b0 = 237 then 159 else 191) b1 \<and> cont 128 191 b2
                 then (int ((b0 - 224) * 4096 + (b1 - 128) * 64 + (b2 - 128)), 3) else (rune_error, 1)
             | _ \<Rightarrow> (rune_error, 1))
          else if 240 \<le> b0 \<and> b0 \<le> 244 then
            (case rest of
               b1 # b2 # b3 # _ \<Rightarrow>
                 if cont (if b0 = 240 then 144 else 128) (if b0 = 244 then 143 else 191) b1 \<and>
                    cont 128 191 b2 \<and> cont 128 191 b3
                 then (int ((b0 - 240) * 262144 + (b1 - 128) * 4096 + (b2 - 128) * 64 + (b3 - 128)), 4)
                 else (rune_error, 1)
             | _ \<Rightarrow> (rune_error, 1))
          else (rune_error, 1))"

fun rune_loop :: "nat list \<Rightarrow> int list" where
  "rune_loop [] = []"
| "rune_loop (b # bs) =
     (case decode_rune (b # bs) of (r, k) \<Rightarrow> r # rune_loop (drop (k - 1) bs))"

definition runes :: "string \<Rightarrow> int list" where
  "runes s = rune_loop (map of_char s)"

lemma runes_ascii:
  "\<forall>c \<in> set s. (of_char c :: nat) < 128 \<Longrightarrow> runes s = map (\<lambda>c. int (of_char c)) s"
proof (induction s)
  case (Cons c s)
  then show ?case by (auto simp: runes_def decode_rune_def)
qed (simp add: runes_def)

lemma rune_loop_nonneg: "r \<in> set (rune_loop bs) \<Longrightarrow> 0 \<le> r"
proof (induction bs rule: rune_loop.induct)
  case (2 b bs)
  have "0 \<le> fst (decode_rune (b # bs))"
    by (simp add: decode_rune_def rune_error_def split: list.splits)
  with 2 show ?case by (cases "decode_rune (b # bs)") auto
qed simp

section \<open>Suffixes\<close>

definition HasSuffix :: "string \<Rightarrow> string \<Rightarrow> bool" where
  "HasSuffix s suf \<longleftrightarrow> length suf \<le> length s \<and> drop (length s - length suf) s = suf"

end
