(* ===== verification/RefEngine.thy ===== *)
theory RefEngine
  imports Book_Refinement GoRand GoStrings
begin

text \<open>
  The example contestant engine of \<open>examples/reference-engine/main.go\<close>: its own order book
  and its HTTP handlers. The program is self-contained, so its types and its matching loops
  repeat those of \<open>internal/matching\<close>; they are translated again from this file and then
  proved equal to the reference book, which makes the engine an instance of the contract.
  Every book method holds \<open>mu\<close> for its whole body and is one function on the state. The wall
  clock and the chaos generator's draws are arguments.
\<close>

section \<open>The engine's book\<close>

type_synonym order = Order
type_synonym fill = Fill
type_synonym ack = Ack

record book =
  e_bids :: "level list"
  e_asks :: "level list"
  e_byID :: "(string, ptr) gomap"
  e_seq :: int
  e_heap :: "resting list"

definition newBook :: book where
  "newBook = \<lparr>e_bids = [], e_asks = [], e_byID = [], e_seq = 0, e_heap = []\<rparr>"

function e_fill_level ::
  "int \<Rightarrow> ptr list \<Rightarrow> resting list \<Rightarrow> (string, ptr) gomap \<Rightarrow> fill list \<Rightarrow>
   int \<times> ptr list \<times> resting list \<times> (string, ptr) gomap \<times> fill list"
where
  "e_fill_level remaining [] h ix fs = (remaining, [], h, ix, fs)"
| "e_fill_level remaining (p # ps) h ix fs =
     (if remaining > 0 then
        let maker = h ! p;
            q = min remaining (r_qty maker);
            fs' = fs @ [\<lparr>f_Price = r_price maker, f_Qty = q, MakerID = r_id maker\<rparr>];
            remaining' = i64 (remaining - q);
            mq = i64 (r_qty maker - q);
            h' = h[p := maker\<lparr>r_qty := mq\<rparr>]
        in if mq = 0 then e_fill_level remaining' ps h' (gm_delete ix (r_id maker)) fs'
           else e_fill_level remaining' (p # ps) h' ix fs'
      else (remaining, p # ps, h, ix, fs))"
  by pat_completeness auto
termination
  by (relation "measure (\<lambda>(remaining, ps, h, ix, fs). length ps + (if remaining > 0 then 1 else 0))")
     (auto simp: min_def split: if_splits)

declare e_fill_level.simps(2) [simp del]

lemma e_fill_level_eq: "e_fill_level = fill_level"
proof -
  have "e_fill_level remaining ps h ix fs = fill_level remaining ps h ix fs" for remaining ps h ix fs
  proof (induction remaining ps h ix fs rule: fill_level.induct)
    case (2 remaining p ps h ix fs)
    show ?case
      using "2.IH" by (subst e_fill_level.simps(2), subst fill_level.simps(2)) (simp add: Let_def)
  qed simp
  then show ?thesis by (intro ext)
qed

function e_match_loop ::
  "order \<Rightarrow> int \<Rightarrow> level list \<Rightarrow> resting list \<Rightarrow> (string, ptr) gomap \<Rightarrow> fill list \<Rightarrow>
   int \<times> level list \<times> resting list \<times> (string, ptr) gomap \<times> fill list"
where
  "e_match_loop od remaining [] h ix fs = (remaining, [], h, ix, fs)"
| "e_match_loop od remaining (best # opp) h ix fs =
     (if remaining > 0 then
        if Type od = Limit \<and> Side od = Buy \<and> lv_price best > Price od then (remaining, best # opp, h, ix, fs)
        else if Type od = Limit \<and> Side od = Sell \<and> lv_price best < Price od then (remaining, best # opp, h, ix, fs)
        else
          (case e_fill_level remaining (lv_queue best) h ix fs of
             (remaining', queue', h', ix', fs') \<Rightarrow>
               if queue' = [] then e_match_loop od remaining' opp h' ix' fs'
               else e_match_loop od remaining' (best\<lparr>lv_queue := queue'\<rparr> # opp) h' ix' fs')
      else (remaining, best # opp, h, ix, fs))"
  by pat_completeness auto
termination
  by (relation "measure (\<lambda>(od, remaining, opp, h, ix, fs). length opp + (if remaining > 0 then 1 else 0))")
     (auto simp: e_fill_level_eq dest!: fill_level_exit_eq)

declare e_match_loop.simps(2) [simp del]

lemma e_match_loop_eq: "e_match_loop = match_loop"
proof -
  have "e_match_loop od remaining opp h ix fs = match_loop od remaining opp h ix fs"
    for od remaining opp h ix fs
  proof (induction od remaining opp h ix fs rule: match_loop.induct)
    case (2 od remaining best opp h ix fs)
    show ?case
      using "2.IH"
      by (subst e_match_loop.simps(2), subst match_loop.simps(2))
         (auto simp: stops_def e_fill_level_eq split: prod.splits)
  qed simp
  then show ?thesis by (intro ext)
qed

fun e_rest_at :: "resting \<Rightarrow> ptr \<Rightarrow> level list \<Rightarrow> level list" where
  "e_rest_at r p [] = [\<lparr>lv_price = r_price r, lv_queue = [p]\<rparr>]"
| "e_rest_at r p (lv # lvs) =
     (if lv_price lv = r_price r then lv\<lparr>lv_queue := lv_queue lv @ [p]\<rparr> # lvs
      else if r_side r = Buy \<and> lv_price lv < r_price r
        then \<lparr>lv_price = r_price r, lv_queue = [p]\<rparr> # lv # lvs
      else if r_side r = Sell \<and> lv_price lv > r_price r
        then \<lparr>lv_price = r_price r, lv_queue = [p]\<rparr> # lv # lvs
      else lv # e_rest_at r p lvs)"

definition e_rest :: "book \<Rightarrow> resting \<Rightarrow> book" where
  "e_rest b r =
     (let p = length (e_heap b);
          b1 = b\<lparr>e_heap := e_heap b @ [r], e_byID := gm_put (e_byID b) (r_id r) p\<rparr>
      in if r_side r = Buy then b1\<lparr>e_bids := e_rest_at r p (e_bids b1)\<rparr>
         else b1\<lparr>e_asks := e_rest_at r p (e_asks b1)\<rparr>)"

definition e_submit :: "book \<Rightarrow> int \<Rightarrow> order \<Rightarrow> book \<times> ack" where
  "e_submit b0 now od =
     (let b = b0\<lparr>e_seq := i64 (e_seq b0 + 1)\<rparr>;
          a = \<lparr>OrderID = ID od, Seq = e_seq b, Status = [], Fills = [], TS = now\<rparr>
      in if Qty od \<le> 0 \<or> (Side od \<noteq> Buy \<and> Side od \<noteq> Sell) \<or>
            (Type od \<noteq> Limit \<and> Type od \<noteq> Market) \<or> (Type od = Limit \<and> Price od \<le> 0)
         then (b, a\<lparr>Status := ''rejected''\<rparr>)
         else if map_of (e_byID b) (ID od) \<noteq> None then (b, a\<lparr>Status := ''rejected''\<rparr>)
         else
           (case e_match_loop od (Qty od) (if Side od = Sell then e_bids b else e_asks b)
                   (e_heap b) (e_byID b) [] of
              (remaining, opp, h, ix, fs) \<Rightarrow>
                let b1 = (if Side od = Sell then b\<lparr>e_bids := opp\<rparr> else b\<lparr>e_asks := opp\<rparr>)
                           \<lparr>e_heap := h, e_byID := ix\<rparr>;
                    a1 = a\<lparr>Fills := fs\<rparr>
                in if remaining = 0 then (b1, a1\<lparr>Status := ''filled''\<rparr>)
                   else if Type od = Market
                     then (b1, a1\<lparr>Status := if remaining < Qty od then ''partial'' else ''canceled''\<rparr>)
                   else (e_rest b1 \<lparr>r_id = ID od, r_side = Side od, r_price = Price od, r_qty = remaining\<rparr>,
                         a1\<lparr>Status := if remaining < Qty od then ''partial'' else ''resting''\<rparr>)))"

fun e_cancel_queue :: "resting list \<Rightarrow> string \<Rightarrow> ptr list \<Rightarrow> ptr list" where
  "e_cancel_queue h i [] = []"
| "e_cancel_queue h i (p # ps) = (if r_id (h ! p) = i then ps else p # e_cancel_queue h i ps)"

fun e_cancel_levels :: "resting list \<Rightarrow> string \<Rightarrow> int \<Rightarrow> level list \<Rightarrow> level list" where
  "e_cancel_levels h i price [] = []"
| "e_cancel_levels h i price (lv # lvs) =
     (if lv_price lv \<noteq> price then lv # e_cancel_levels h i price lvs
      else
        let queue = e_cancel_queue h i (lv_queue lv)
        in if queue = [] then lvs else lv\<lparr>lv_queue := queue\<rparr> # lvs)"

definition e_cancel :: "book \<Rightarrow> int \<Rightarrow> string \<Rightarrow> book \<times> ack" where
  "e_cancel b0 now i =
     (let b = b0\<lparr>e_seq := i64 (e_seq b0 + 1)\<rparr>;
          a = \<lparr>OrderID = i, Seq = e_seq b, Status = [], Fills = [], TS = now\<rparr>
      in case map_of (e_byID b) i of
           None \<Rightarrow> (b, a\<lparr>Status := ''unknown''\<rparr>)
         | Some p \<Rightarrow>
             let r = e_heap b ! p;
                 b1 = b\<lparr>e_byID := gm_delete (e_byID b) i\<rparr>;
                 b2 = (if r_side r = Buy
                       then b1\<lparr>e_bids := e_cancel_levels (e_heap b1) i (r_price r) (e_bids b1)\<rparr>
                       else b1\<lparr>e_asks := e_cancel_levels (e_heap b1) i (r_price r) (e_asks b1)\<rparr>)
             in (b2, a\<lparr>Status := ''canceled''\<rparr>))"

text \<open>\<open>top\<close>: price and total quantity of the best level of each side, \<open>nil\<close> as \<open>None\<close>.\<close>

definition level_qty :: "resting list \<Rightarrow> level \<Rightarrow> int" where
  "level_qty h lv = fold (\<lambda>p q. i64 (q + r_qty (h ! p))) (lv_queue lv) 0"

definition best_of :: "resting list \<Rightarrow> level list \<Rightarrow> (int \<times> int) option" where
  "best_of h lvs = (case lvs of [] \<Rightarrow> None | lv # _ \<Rightarrow> Some (lv_price lv, level_qty h lv))"

definition e_top :: "book \<Rightarrow> (int \<times> int) option \<times> (int \<times> int) option" where
  "e_top b = (best_of (e_heap b) (e_bids b), best_of (e_heap b) (e_asks b))"

section \<open>The engine provides the contract\<close>

definition to_Book :: "book \<Rightarrow> Book" where
  "to_Book b = \<lparr>bids = e_bids b, asks = e_asks b, byID = e_byID b, seq = e_seq b, heap = e_heap b\<rparr>"

lemma e_rest_at_eq: "e_rest_at r p lvs = rest_at r p lvs"
  by (induction lvs) auto

lemma e_cancel_levels_eq: "e_cancel_levels h i price lvs = cancel_levels h i price lvs"
proof -
  have "e_cancel_queue h i ps = cancel_queue h i ps" for ps by (induction ps) auto
  then show ?thesis by (induction lvs) (auto simp: Let_def)
qed

lemma to_Book_sel [simp]:
  "bids (to_Book b) = e_bids b" "asks (to_Book b) = e_asks b" "byID (to_Book b) = e_byID b"
  "seq (to_Book b) = e_seq b" "heap (to_Book b) = e_heap b"
  by (simp_all add: to_Book_def)

lemma to_Book_upd [simp]:
  "to_Book (b\<lparr>e_bids := x\<rparr>) = (to_Book b)\<lparr>bids := x\<rparr>"
  "to_Book (b\<lparr>e_asks := x\<rparr>) = (to_Book b)\<lparr>asks := x\<rparr>"
  "to_Book (b\<lparr>e_byID := m\<rparr>) = (to_Book b)\<lparr>byID := m\<rparr>"
  "to_Book (b\<lparr>e_seq := s\<rparr>) = (to_Book b)\<lparr>seq := s\<rparr>"
  "to_Book (b\<lparr>e_heap := h\<rparr>) = (to_Book b)\<lparr>heap := h\<rparr>"
  by (simp_all add: to_Book_def)

lemma to_Book_rest: "to_Book (e_rest b r) = rest (to_Book b) r"
  by (simp add: e_rest_def rest_def Let_def e_rest_at_eq)

lemma untimed_upd [simp]:
  "untimed (a\<lparr>Status := st\<rparr>) = (untimed a)\<lparr>Status := st\<rparr>"
  "untimed (a\<lparr>Fills := fs\<rparr>) = (untimed a)\<lparr>Fills := fs\<rparr>"
  "untimed \<lparr>OrderID = i, Seq = s, Status = st, Fills = fs, TS = t\<rparr> =
     \<lparr>OrderID = i, Seq = s, Status = st, Fills = fs, TS = 0\<rparr>"
  by (simp_all add: untimed_def)

lemma e_submit_eq:
  "to_Book (fst (e_submit b now od)) = fst (Submit (to_Book b) od) \<and>
   untimed (snd (e_submit b now od)) = snd (Submit (to_Book b) od)"
proof (cases "bad_order od \<or> map_of (e_byID b) (ID od) \<noteq> None")
  case True
  then show ?thesis
    unfolding e_submit_def Submit_def next_seq_def Let_def bad_order_def[symmetric]
    by (auto simp: StatusRejected_def)
next
  case False
  obtain n opp h ix fs where m:
    "match_loop od (Qty od) (if Side od = Sell then e_bids b else e_asks b) (e_heap b) (e_byID b) [] =
       (n, opp, h, ix, fs)"
    by (metis prod_cases5)
  from False m show ?thesis
    unfolding e_submit_def Submit_def next_seq_def Let_def bad_order_def[symmetric] e_match_loop_eq
    by (cases "Side od = Sell"; cases "n = 0"; cases "Type od = Market";
        simp add: to_Book_rest status_of_match_def status_defs)
qed

lemma e_cancel_eq:
  "to_Book (fst (e_cancel b now i)) = fst (Cancel (to_Book b) i) \<and>
   untimed (snd (e_cancel b now i)) = snd (Cancel (to_Book b) i)"
  unfolding e_cancel_def Cancel_def next_seq_def status_defs Let_def
  by (simp add: e_cancel_levels_eq split: option.splits)

interpretation eng: price_time_engine
  newBook e_submit e_cancel "\<lambda>b. abs_book (to_Book b)" "\<lambda>b. book_inv (to_Book b)"
proof -
  have new: "to_Book newBook = New" by (simp add: to_Book_def newBook_def New_def)
  show "price_time_engine newBook e_submit e_cancel (\<lambda>b. abs_book (to_Book b)) (\<lambda>b. book_inv (to_Book b))"
    using Submit_refines Cancel_refines
    by (unfold_locales) (auto simp: new New_inv New_abs abs_inv e_submit_eq e_cancel_eq refines_to_def)
qed

section \<open>The HTTP handlers\<close>

text \<open>
  \<open>mangle\<close> is the chaos knob: with probability 0.05 it raises the price of the first fill by
  3 ticks, with probability 0.02 it lowers the sequence number by 5. The first draw happens
  only when there is a fill.
\<close>

definition bump_first :: "fill list \<Rightarrow> fill list" where
  "bump_first fs = (case fs of [] \<Rightarrow> [] | f # fs' \<Rightarrow> f\<lparr>f_Price := i64 (f_Price f + 3)\<rparr> # fs')"

definition mangle :: "bool \<Rightarrow> rng \<Rightarrow> ack \<Rightarrow> ack \<times> rng" where
  "mangle chaos r a =
     (if \<not> chaos then (a, r)
      else
        let (a1, r1) =
              (if Fills a \<noteq> [] then
                 let (x, r1) = Float64 r
                 in (if x < fl (5 / 100) then a\<lparr>Fills := bump_first (Fills a)\<rparr> else a, r1)
               else (a, r));
            (y, r2) = Float64 r1
        in (if y < fl (2 / 100) then a1\<lparr>Seq := i64 (Seq a1 - 5)\<rparr> else a1, r2))"

datatype request = GetHealth | PostOrders "order option" | DeleteOrder string | GetBook

datatype reply_body =
  Ok | BadJson | AckBody ack | TopBody "(int \<times> int) option" "(int \<times> int) option"

record engine =
  bk :: book
  chaosRng :: rng

definition reply :: "bool \<Rightarrow> engine \<Rightarrow> book \<times> ack \<Rightarrow> engine \<times> int \<times> reply_body" where
  "reply chaos e ba =
     (case ba of (b, a) \<Rightarrow>
        let (a', r) = mangle chaos (chaosRng e) a
        in (e\<lparr>bk := b, chaosRng := r\<rparr>, 200, AckBody a'))"

definition handle_request :: "bool \<Rightarrow> int \<Rightarrow> engine \<Rightarrow> request \<Rightarrow> engine \<times> int \<times> reply_body" where
  "handle_request chaos now e req =
     (case req of
        GetHealth \<Rightarrow> (e, 200, Ok)
      | PostOrders None \<Rightarrow> (e, 400, BadJson)
      | PostOrders (Some od) \<Rightarrow> reply chaos e (e_submit (bk e) now od)
      | DeleteOrder i \<Rightarrow> reply chaos e (e_cancel (bk e) now (TrimSpace i))
      | GetBook \<Rightarrow> (e, 200, case e_top (bk e) of (bid, ask) \<Rightarrow> TopBody bid ask))"

lemma handle_submit_calm:
  "handle_request False now e (PostOrders (Some od)) =
     (e\<lparr>bk := fst (e_submit (bk e) now od)\<rparr>, 200, AckBody (snd (e_submit (bk e) now od)))"
  by (simp add: handle_request_def reply_def mangle_def split: prod.splits)

lemma handle_cancel_calm:
  "handle_request False now e (DeleteOrder i) =
     (e\<lparr>bk := fst (e_cancel (bk e) now (TrimSpace i))\<rparr>, 200, AckBody (snd (e_cancel (bk e) now (TrimSpace i))))"
  by (simp add: handle_request_def reply_def mangle_def split: prod.splits)

section \<open>Properties of the example engine\<close>

text \<open>
  (C9) The example engine is observationally the reference book: on every run of submits and
  cancels, at whatever clock readings, its acknowledgements are those of the reference book
  except for the timestamp.
\<close>

theorem engine_equals_reference_book:
  assumes "\<forall>(t, x) \<in> set ops. op_ok x"
  shows "map untimed (snd (engine_run e_submit e_cancel newBook ops)) =
    map untimed (snd (engine_run (\<lambda>b t. Submit b) (\<lambda>b t. Cancel b) New ops))"
  using eng.run_from_init[OF assms] ref.run_from_init[OF assms] by simp

theorem engine_equals_reference_book_witness:
  "map untimed (snd (engine_run e_submit e_cancel newBook
     [(7, OpSubmit \<lparr>ID = ''A'', Side = Buy, Type = Limit, Price = 100, Qty = 5\<rparr>), (8, OpCancel ''A'')])) =
   map untimed (snd (engine_run (\<lambda>b t. Submit b) (\<lambda>b t. Cancel b) New
     [(7, OpSubmit \<lparr>ID = ''A'', Side = Buy, Type = Limit, Price = 100, Qty = 5\<rparr>), (8, OpCancel ''A'')]))"
  by (rule engine_equals_reference_book) (simp add: order_ok_def is_i64_def)

lemma level_qty_sum:
  assumes "live h (lv_queue lv)" "volume (map ((!) h) (lv_queue lv)) < 2 ^ 63"
  shows "level_qty h lv = volume (map ((!) h) (lv_queue lv))"
proof -
  have "fold (\<lambda>p q. i64 (q + r_qty (h ! p))) ps q = i64 (q + volume (map ((!) h) ps))"
    if "is_i64 q" for ps q
    using that by (induction ps arbitrary: q) (simp_all add: i64_id i64_range add.assoc)
  moreover have "0 \<le> volume (map ((!) h) (lv_queue lv))"
    using assms(1) by (intro positive_volume) (auto simp: live_def positive_def)
  ultimately show ?thesis
    using assms(2) by (simp add: level_qty_def is_i64_def i64_nonneg)
qed

lemma best_level_entries:
  assumes "levels_ok sd h (lv # lvs)" "distinct (map lv_price (lv # lvs))"
  shows "filter (\<lambda>r. r_price r = lv_price lv) (entries h (lv # lvs)) = map ((!) h) (lv_queue lv)"
proof -
  have "filter (\<lambda>r. r_price r = lv_price lv) (map ((!) h) (lv_queue lv)) = map ((!) h) (lv_queue lv)"
    using assms(1) by (intro filter_True) auto
  moreover have "filter (\<lambda>r. r_price r = lv_price lv) (entries h lvs) = []"
  proof (rule filter_False)
    have "\<forall>r \<in> set (entries h lvs). r_price r \<in> lv_price ` set lvs"
      using entries_price[of sd h lvs] assms(1) by (simp add: image_subset_iff)
    moreover have "lv_price lv \<notin> lv_price ` set lvs" using assms(2) by simp
    ultimately show "\<forall>r \<in> set (entries h lvs). r_price r \<noteq> lv_price lv" by metis
  qed
  ultimately show ?thesis by simp
qed

lemma best_of_true:
  assumes "best_of h lvs = Some (p, q)" "levels_ok sd h lvs" "sorted_wrt (before d) (map lv_price lvs)"
  shows "(\<exists>lv \<in> set lvs. p = lv_price lv) \<and>
    (\<forall>r \<in> set (entries h lvs). r_price r = p \<or> before d p (r_price r)) \<and>
    (volume (filter (\<lambda>r. r_price r = p) (entries h lvs)) < 2 ^ 63 \<longrightarrow>
       q = volume (filter (\<lambda>r. r_price r = p) (entries h lvs)))"
proof -
  obtain lv rest' where l: "lvs = lv # rest'" "p = lv_price lv" "q = level_qty h lv"
    using assms(1) by (auto simp: best_of_def split: list.splits)
  have "distinct (map lv_price lvs)" using assms(3) by (rule sorted_before_distinct)
  then have f: "filter (\<lambda>r. r_price r = p) (entries h lvs) = map ((!) h) (lv_queue lv)"
    using best_level_entries assms(2) l by blast
  moreover have "\<forall>x \<in> lv_price ` set lvs. x = p \<or> before d p x" using assms(3) l by auto
  then have "\<forall>r \<in> set (entries h lvs). r_price r = p \<or> before d p (r_price r)"
    using entries_price[OF assms(2)] by blast
  moreover have "live h (lv_queue lv)" using assms(2) l by simp
  ultimately show ?thesis using level_qty_sum[of h lv] l by auto
qed

lemma best_of_rests:
  assumes "levels_ok sd h lvs"
  shows "best_of h lvs = None \<longleftrightarrow> entries h lvs = []"
    "best_of h lvs = Some (p, q) \<Longrightarrow> \<exists>r \<in> set (entries h lvs). r_price r = p"
proof -
  show "best_of h lvs = None \<longleftrightarrow> entries h lvs = []"
    using assms by (cases lvs) (auto simp: best_of_def)
  assume "best_of h lvs = Some (p, q)"
  then obtain lv rest' where l: "lvs = lv # rest'" "p = lv_price lv" by (auto simp: best_of_def split: list.splits)
  then obtain x where "x \<in> set (lv_queue lv)" using assms by (cases "lv_queue lv") auto
  then show "\<exists>r \<in> set (entries h lvs). r_price r = p" using assms l by (intro bexI[of _ "h ! x"]) auto
qed


definition demo_bids_only :: book where
  "demo_bids_only = fst (e_submit newBook 1 \<lparr>ID = ''A'', Side = Buy, Type = Limit, Price = 100, Qty = 5\<rparr>)"

definition demo_engine :: book where
  "demo_engine = fst (e_submit demo_bids_only 2 \<lparr>ID = ''B'', Side = Sell, Type = Limit, Price = 102, Qty = 7\<rparr>)"


end
