(* ===== verification/Conformance.thy ===== *)
theory Conformance
  imports RefEngine
begin

text \<open>
  The conformance probe of \<open>cmd/orchestrator/main.go\<close>: the fixed scenario, the diff of the
  contestant's acknowledgements against the reference book, and the score. The contestant
  behind its HTTP endpoint is a pair of functions on a state of its own; \<open>strconv.Quote\<close> (the
  verb \<open>q\<close>), which only shapes the text of a note, is an argument.
\<close>

section \<open>Definitions\<close>

record step =
  cancel_id :: string
  order_of :: Order

definition no_order :: Order where
  "no_order = \<lparr>ID = [], Side = [], Type = [], Price = 0, Qty = 0\<rparr>"

definition sc_order :: "string \<Rightarrow> Side \<Rightarrow> OrdType \<Rightarrow> int \<Rightarrow> int \<Rightarrow> step" where
  "sc_order i side typ price qty =
     \<lparr>cancel_id = [], order_of = \<lparr>ID = i, Side = side, Type = typ, Price = price, Qty = qty\<rparr>\<rparr>"

definition sc_cancel :: "string \<Rightarrow> step" where
  "sc_cancel i = \<lparr>cancel_id = i, order_of = no_order\<rparr>"

definition scenario :: "step list" where
  "scenario =
     [sc_order ''conf-A'' Buy Limit 10000 10,
      sc_order ''conf-B'' Buy Limit 10000 5,
      sc_order ''conf-C'' Sell Limit 9900 12,
      sc_order ''conf-D'' Sell Limit 10100 10,
      sc_order ''conf-E'' Buy Market 0 4,
      sc_cancel ''conf-D'',
      sc_order ''conf-F'' Buy Limit 10100 3,
      sc_order ''conf-G'' Sell Market 0 100,
      sc_order ''conf-H'' Sell Limit 0 5,
      sc_cancel ''conf-D'']"

definition decodeAck :: "Ack http_result \<Rightarrow> string + Ack" where
  "decodeAck res =
     (case res of
        TransportError e \<Rightarrow> Inl e
      | Response code body \<Rightarrow> if code \<noteq> 200 then Inl (''http '' @ Itoa code) else body)"

definition sumFills :: "Fill list \<Rightarrow> int" where
  "sumFills fs = fold (\<lambda>f s. i64 (s + f_Qty f)) fs 0"

fun fills_eq_loop :: "Fill list \<Rightarrow> Fill list \<Rightarrow> bool" where
  "fills_eq_loop (a # as) (b # bs) =
     (if f_Price a \<noteq> f_Price b \<or> f_Qty a \<noteq> f_Qty b \<or> MakerID a \<noteq> MakerID b then False
      else fills_eq_loop as bs)"
| "fills_eq_loop _ _ = True"

definition fillsEqual :: "Fill list \<Rightarrow> Fill list \<Rightarrow> bool" where
  "fillsEqual a b = (if length a \<noteq> length b then False else fills_eq_loop a b)"

record 'w probe =
  ref_book :: Book
  world :: 'w
  passed :: int
  checks :: int
  remarks :: "string list"

text \<open>\<open>doOrder\<close> and \<open>doCancel\<close>: the exchange with the engine, then \<open>decodeAck\<close>.\<close>

type_synonym 'w post = "'w \<Rightarrow> Order \<Rightarrow> 'w \<times> Ack http_result"
type_synonym 'w delete = "'w \<Rightarrow> string \<Rightarrow> 'w \<times> Ack http_result"

definition doOrder :: "'w post \<Rightarrow> 'w \<Rightarrow> Order \<Rightarrow> 'w \<times> (string + Ack)" where
  "doOrder post w od = (case post w od of (w', res) \<Rightarrow> (w', decodeAck res))"

definition doCancel :: "'w delete \<Rightarrow> 'w \<Rightarrow> string \<Rightarrow> 'w \<times> (string + Ack)" where
  "doCancel del w i = (case del w i of (w', res) \<Rightarrow> (w', decodeAck res))"

definition exchange ::
  "'w post \<Rightarrow> 'w delete \<Rightarrow> Book \<Rightarrow> 'w \<Rightarrow> step \<Rightarrow> (Book \<times> Ack) \<times> 'w \<times> (string + Ack)" where
  "exchange post del ref w st =
     (if cancel_id st \<noteq> [] then (Cancel ref (cancel_id st), doCancel del w (cancel_id st))
      else (Submit ref (order_of st), doOrder post w (order_of st)))"

definition check_step ::
  "(string \<Rightarrow> string) \<Rightarrow> 'w post \<Rightarrow> 'w delete \<Rightarrow> nat \<times> step \<Rightarrow> 'w probe \<Rightarrow> 'w probe" where
  "check_step quote post del ist p =
     (case ist of (i, st) \<Rightarrow>
      case exchange post del (ref_book p) (world p) st of ((ref, want), w, res) \<Rightarrow>
        let p1 = p\<lparr>ref_book := ref, world := w, checks := checks p + 3\<rparr>;
            lead = ''step '' @ Itoa (int i) @ '': ''
        in case res of
             Inl e \<Rightarrow> p1\<lparr>remarks := remarks p1 @ [lead @ e]\<rparr>
           | Inr got \<Rightarrow>
               let p2 = (if Status got = Status want then p1\<lparr>passed := passed p1 + 1\<rparr>
                         else p1\<lparr>remarks := remarks p1 @
                           [lead @ ''status '' @ quote (Status got) @ '' want '' @ quote (Status want)]\<rparr>);
                   p3 = (if sumFills (Fills got) = sumFills (Fills want) then p2\<lparr>passed := passed p2 + 1\<rparr>
                         else p2\<lparr>remarks := remarks p2 @
                           [lead @ ''filled '' @ Itoa (sumFills (Fills got)) @ '' want '' @ Itoa (sumFills (Fills want))]\<rparr>);
                   p4 = (if fillsEqual (Fills got) (Fills want) then p3\<lparr>passed := passed p3 + 1\<rparr>
                         else p3\<lparr>remarks := remarks p3 @ [lead @ ''fill sequence mismatch (price-time priority?)'']\<rparr>)
               in p4)"

definition run_probe ::
  "(string \<Rightarrow> string) \<Rightarrow> 'w post \<Rightarrow> 'w delete \<Rightarrow> 'w \<Rightarrow> step list \<Rightarrow> 'w probe" where
  "run_probe quote post del w steps =
     fold (check_step quote post del) (enumerate 0 steps)
       \<lparr>ref_book = New, world = w, passed = 0, checks = 0, remarks = []\<rparr>"

definition conformance ::
  "(string \<Rightarrow> string) \<Rightarrow> 'w post \<Rightarrow> 'w delete \<Rightarrow> 'w \<Rightarrow> float64 \<times> string" where
  "conformance quote post del w =
     (let p = run_probe quote post del w scenario
      in (fl (float64_of (passed p) / float64_of (checks p)),
          if remarks p = [] then ''all checks passed'' else Join (take 5 (remarks p)) ''; ''))"

section \<open>Diffing fills\<close>

lemma fills_eq_loop_iff: "length a = length b \<Longrightarrow> fills_eq_loop a b \<longleftrightarrow> a = b"
  by (induction a b rule: list_induct2) (auto intro: Fill.equality)

lemma fillsEqual_iff: "fillsEqual a b \<longleftrightarrow> a = b"
  by (auto simp: fillsEqual_def fills_eq_loop_iff)

section \<open>What a full score means\<close>

text \<open>\<open>agrees\<close>: every exchange succeeds and shows the reference status and fills.\<close>

fun agrees :: "'w post \<Rightarrow> 'w delete \<Rightarrow> Book \<Rightarrow> 'w \<Rightarrow> step list \<Rightarrow> bool" where
  "agrees post del ref w [] = True"
| "agrees post del ref w (st # sts) =
     (case exchange post del ref w st of ((ref', want), w', res) \<Rightarrow>
        (case res of Inl e \<Rightarrow> False | Inr got \<Rightarrow> Status got = Status want \<and> Fills got = Fills want) \<and>
        agrees post del ref' w' sts)"

lemma check_step_result:
  fixes quote :: "string \<Rightarrow> string" and i :: nat and p :: "'w probe" and st :: step
    and post :: "'w post" and del :: "'w delete"
  assumes "exchange post del (ref_book p) (world p) st = ((ref, want), w, res)"
  defines "p' \<equiv> check_step quote post del (i, st) p"
  shows "ref_book p' = ref" "world p' = w" "checks p' = checks p + 3"
    "passed p' \<le> passed p + 3"
    "passed p' = passed p + 3 \<longleftrightarrow>
      (case res of Inl e \<Rightarrow> False | Inr got \<Rightarrow> Status got = Status want \<and> Fills got = Fills want)"
    "remarks p' = [] \<longleftrightarrow> remarks p = [] \<and>
      (case res of Inl e \<Rightarrow> False | Inr got \<Rightarrow> Status got = Status want \<and> Fills got = Fills want)"
  unfolding p'_def check_step_def
  using assms(1) by (cases res; auto simp: Let_def fillsEqual_iff)+

lemma run_probe_account:
  fixes p :: "'w probe" and quote :: "string \<Rightarrow> string" and post :: "'w post" and del :: "'w delete"
  defines "final \<equiv> \<lambda>steps k p. fold (check_step quote post del) (enumerate k steps) (p :: 'w probe)"
  shows "checks (final steps k p) = checks p + 3 * int (length steps) \<and>
    passed (final steps k p) \<le> passed p + 3 * int (length steps) \<and>
    (passed (final steps k p) = passed p + 3 * int (length steps) \<longleftrightarrow>
      agrees post del (ref_book p) (world p) steps) \<and>
    (remarks (final steps k p) = [] \<longleftrightarrow> remarks p = [] \<and> agrees post del (ref_book p) (world p) steps)"
proof (induction steps arbitrary: k p)
  case Nil
  then show ?case by (simp add: final_def)
next
  case (Cons st steps)
  obtain ref want w res where x: "exchange post del (ref_book p) (world p) st = ((ref, want), w, res)"
    by (metis surj_pair)
  note R = check_step_result[OF x, of quote k]
  show ?case
    using Cons[of "Suc k" "check_step quote post del (k, st) p"] R x by (auto simp: final_def)
qed


text \<open>The state the probe starts from.\<close>

lemma run_probe_agrees:
  fixes quote :: "string \<Rightarrow> string" and w :: 'w and steps :: "step list"
    and post :: "'w post" and del :: "'w delete"
  defines "p \<equiv> run_probe quote post del w steps"
  shows "checks p = 3 * int (length steps)" "passed p \<le> 3 * int (length steps)"
    "passed p = 3 * int (length steps) \<longleftrightarrow> agrees post del New w steps"
    "remarks p = [] \<longleftrightarrow> agrees post del New w steps"
  unfolding p_def run_probe_def
  using run_probe_account[of quote post del 0 steps
    "\<lparr>ref_book = New, world = w, passed = 0, checks = 0, remarks = []\<rparr>"]
  by simp_all

lemma length_scenario [simp]: "length scenario = 10"
  by (simp add: scenario_def)

lemma passed_nonneg: "0 \<le> passed p \<Longrightarrow> 0 \<le> passed (fold (check_step quote post del) ists p)"
proof (induction ists arbitrary: p)
  case (Cons ist ists)
  have "passed p \<le> passed (check_step quote post del ist p)"
    by (auto simp: check_step_def Let_def split: prod.splits sum.splits)
  with Cons show ?case by simp
qed simp

lemma score_below:
  assumes "n < 30" "0 \<le> n"
  shows "fl (float64_of n / float64_of 30) \<le> fl (29 / 30)"
  using assms by (intro fl_mono) (simp add: float64_of_exact)

lemma conformance_value:
  "if agrees post del New w scenario then conformance quote post del w = (1, ''all checks passed'')
   else 0 \<le> fst (conformance quote post del w) \<and> fst (conformance quote post del w) \<le> fl (29 / 30)"
proof -
  let ?p = "run_probe quote post del w scenario"
  note R = run_probe_agrees[of quote post del w scenario, simplified]
  have nn: "0 \<le> passed ?p" unfolding run_probe_def by (rule passed_nonneg) simp
  have c: "fst (conformance quote post del w) = fl (float64_of (passed ?p) / float64_of 30)"
    by (simp add: conformance_def Let_def R(1))
  have one: "fl (float64_of 30 / float64_of 30) = 1" by (simp add: float64_of_exact)
  show ?thesis
  proof (cases "agrees post del New w scenario")
    case True
    then have "passed ?p = 30" "remarks ?p = []" using R(3,4) by simp_all
    with True R(1) one show ?thesis by (simp add: conformance_def Let_def)
  next
    case False
    then have "passed ?p < 30" using R(2,3) by linarith
    moreover have "0 \<le> fl (float64_of (passed ?p) / float64_of 30)"
      using nn R(2) by (intro fl_nonneg) (simp add: float64_of_exact)
    ultimately show ?thesis using False score_below nn unfolding c by simp
  qed
qed

text \<open>
  (C8) What the conformance score certifies: it is 1 exactly when every one of the ten
  exchanges succeeds and shows the status and the fill sequence of the reference book; then
  the detail is the all-clear text. Otherwise, despite the rounding of the quotient, the
  score is strictly below 1, and it is never negative.
\<close>

theorem full_conformance_iff_agrees:
  "if agrees post del New w scenario then conformance quote post del w = (1, ''all checks passed'')
   else 0 \<le> fst (conformance quote post del w) \<and> fst (conformance quote post del w) < 1"
proof -
  have "fl (29 / 30) < 1" by code_simp
  then show ?thesis using conformance_value[of post del w quote] by (simp split: if_splits)
qed

section \<open>Engines that keep the contract\<close>

text \<open>
  An engine of the contract behind an HTTP endpoint: its state, the number of requests served,
  and the clock reading at each of them.
\<close>

definition post_of ::
  "('s \<Rightarrow> int \<Rightarrow> Order \<Rightarrow> 's \<times> Ack) \<Rightarrow> (nat \<Rightarrow> int) \<Rightarrow> ('s \<times> nat) post" where
  "post_of submit now sk od =
     (case sk of (s, k) \<Rightarrow> case submit s (now k) od of (s', a) \<Rightarrow> ((s', Suc k), Response 200 (Inr a)))"

definition delete_of ::
  "('s \<Rightarrow> int \<Rightarrow> string \<Rightarrow> 's \<times> Ack) \<Rightarrow> (nat \<Rightarrow> int) \<Rightarrow> ('s \<times> nat) delete" where
  "delete_of cancel now sk i =
     (case sk of (s, k) \<Rightarrow> case cancel s (now k) i of (s', a) \<Rightarrow> ((s', Suc k), Response 200 (Inr a)))"

definition step_ok :: "step \<Rightarrow> bool" where
  "step_ok st \<longleftrightarrow> cancel_id st \<noteq> [] \<or> order_ok (order_of st)"

lemma scenario_ok: "\<forall>st \<in> set scenario. step_ok st"
  by (simp add: scenario_def step_ok_def sc_order_def sc_cancel_def order_ok_def is_i64_def)

lemma untimed_same:
  "untimed a = x \<Longrightarrow> untimed b = x \<Longrightarrow> Status a = Status b \<and> Fills a = Fills b"
  by (metis untimed_simps(3,4))

context price_time_engine
begin

lemma exchange_agrees:
  assumes "inv s" "book_inv b" "abs_book b = abs s" "step_ok st"
  obtains b' want s' got where
    "exchange (post_of submit now) (delete_of cancel now) b (s, k) st = ((b', want), (s', Suc k), Inr got)"
    "Status got = Status want" "Fills got = Fills want"
    "inv s'" "book_inv b'" "abs_book b' = abs s'"
proof (cases "cancel_id st = []")
  case False
  show thesis
  proof (rule that)
    show "exchange (post_of submit now) (delete_of cancel now) b (s, k) st =
      ((fst (Cancel b (cancel_id st)), snd (Cancel b (cancel_id st))),
       (fst (cancel s (now k) (cancel_id st)), Suc k), Inr (snd (cancel s (now k) (cancel_id st))))"
      using False by (simp add: exchange_def doCancel_def delete_of_def decodeAck_def split_beta)
  qed (use assms cancel_inv cancel_abs ref.cancel_inv ref.cancel_abs
        untimed_same[OF cancel_ack ref.cancel_ack[OF assms(2), unfolded assms(3)]] in auto)
next
  case True
  then have ok: "order_ok (order_of st)" using assms(4) by (simp add: step_ok_def)
  show thesis
  proof (rule that)
    show "exchange (post_of submit now) (delete_of cancel now) b (s, k) st =
      ((fst (Submit b (order_of st)), snd (Submit b (order_of st))),
       (fst (submit s (now k) (order_of st)), Suc k), Inr (snd (submit s (now k) (order_of st))))"
      using True by (simp add: exchange_def doOrder_def post_of_def decodeAck_def split_beta)
  qed (use assms ok submit_inv submit_abs ref.submit_inv ref.submit_abs
        untimed_same[OF submit_ack ref.submit_ack[OF assms(2) ok, unfolded assms(3)]] in auto)
qed

lemma contract_agrees:
  assumes "inv s" "book_inv b" "abs_book b = abs s" "\<forall>st \<in> set sts. step_ok st"
  shows "agrees (post_of submit now) (delete_of cancel now) b (s, k) sts"
  using assms
proof (induction sts arbitrary: s b k)
  case (Cons st sts)
  then have "step_ok st" by simp
  from exchange_agrees[OF Cons.prems(1-3) this, of now k] obtain b' want s' got where
    "exchange (post_of submit now) (delete_of cancel now) b (s, k) st = ((b', want), (s', Suc k), Inr got)"
    "Status got = Status want" "Fills got = Fills want"
    "inv s'" "book_inv b'" "abs_book b' = abs s'"
    by blast
  with Cons show ?case by simp
qed simp

lemma contract_conforms: "agrees (post_of submit now) (delete_of cancel now) New (init, k) scenario"
  using contract_agrees[OF init_inv ref.init_inv _ scenario_ok] ref.init_abs init_abs by simp

end

text \<open>The example engine behind its handlers, chaos off, as the probe reaches it.\<close>

definition http_of :: "int \<times> reply_body \<Rightarrow> Ack http_result" where
  "http_of r = (case r of (code, AckBody a) \<Rightarrow> Response code (Inr a) | (code, _) \<Rightarrow> Response code (Inl ''not an ack''))"

definition engine_post :: "bool \<Rightarrow> (nat \<Rightarrow> int) \<Rightarrow> (engine \<times> nat) post" where
  "engine_post chaos now ek od =
     (case ek of (e, k) \<Rightarrow>
      case handle_request chaos (now k) e (PostOrders (Some od)) of (e', r) \<Rightarrow> ((e', Suc k), http_of r))"

definition engine_delete :: "bool \<Rightarrow> (nat \<Rightarrow> int) \<Rightarrow> (engine \<times> nat) delete" where
  "engine_delete chaos now ek i =
     (case ek of (e, k) \<Rightarrow>
      case handle_request chaos (now k) e (DeleteOrder i) of (e', r) \<Rightarrow> ((e', Suc k), http_of r))"

definition trimmed :: "step \<Rightarrow> bool" where
  "trimmed st \<longleftrightarrow> TrimSpace (cancel_id st) = cancel_id st"

lemma scenario_trimmed: "\<forall>st \<in> set scenario. trimmed st"
proof -
  have "TrimSpace ''conf-D'' = ''conf-D''"
    by (rule TrimSpace_id) (simp add: white_space_def char_of_def)
  then show ?thesis by (simp add: scenario_def trimmed_def sc_order_def sc_cancel_def)
qed

lemma engine_exchange:
  assumes "trimmed st"
  shows "exchange (engine_post False now) (engine_delete False now) b (e, k) st =
    (case exchange (post_of e_submit now) (delete_of e_cancel now) b (bk e, k) st of
       (bw, (s, k'), got) \<Rightarrow> (bw, (e\<lparr>bk := s\<rparr>, k'), got))"
  using assms
  by (simp add: exchange_def doOrder_def doCancel_def engine_post_def engine_delete_def post_of_def
      delete_of_def handle_submit_calm handle_cancel_calm http_of_def trimmed_def split_beta)

lemma engine_agrees:
  assumes "\<forall>st \<in> set sts. trimmed st"
  shows "agrees (engine_post False now) (engine_delete False now) b (e, k) sts =
    agrees (post_of e_submit now) (delete_of e_cancel now) b (bk e, k) sts"
  using assms
proof (induction sts arbitrary: b e k)
  case (Cons st sts)
  obtain b' want s' k' got where
    x: "exchange (post_of e_submit now) (delete_of e_cancel now) b (bk e, k) st = ((b', want), (s', k'), got)"
    by (metis surj_pair)
  have "exchange (engine_post False now) (engine_delete False now) b (e, k) st = ((b', want), (e\<lparr>bk := s'\<rparr>, k'), got)"
    using Cons.prems x by (simp add: engine_exchange)
  with x Cons show ?case by simp
qed simp

text \<open>
  (C28) The platform accepts its own example: whatever the clock readings and the text of the
  notes would be, the example engine with chaos off, started on an empty book, gets the full
  conformance score and the all-clear detail through its HTTP handlers.
\<close>

theorem example_engine_conforms:
  "conformance quote (engine_post False now) (engine_delete False now)
     (\<lparr>bk = newBook, chaosRng = r\<rparr>, 0) = (1, ''all checks passed'')"
proof -
  have a: "agrees (engine_post False now) (engine_delete False now) New (\<lparr>bk = newBook, chaosRng = r\<rparr>, 0) scenario"
    using eng.contract_conforms[of now 0] by (simp add: engine_agrees[OF scenario_trimmed])
  note R = run_probe_agrees[of quote "engine_post False now" "engine_delete False now"
      "(\<lparr>bk = newBook, chaosRng = r\<rparr>, 0)" scenario, simplified]
  have "fl (float64_of 30 / float64_of 30) = 1" by (simp add: float64_of_exact)
  with a R show ?thesis by (simp add: conformance_def Let_def)
qed

end
