(* ===== verification/Botfleet.thy ===== *)
theory Botfleet
  imports Conformance Telemetry
begin

text \<open>
  The load generator of \<open>cmd/botfleet/main.go\<close>: the validators, the accounting of one
  request, one iteration of a bot, the telemetry flush, and a shard as an interleaving of bot
  iterations and flushes. Each bot is serial and has one request in flight at a time, so an
  iteration is one step of the interleaving; the counters are atomic and the maps are behind
  a mutex. The engine behind HTTP is a pair of functions on a state of its own, clock readings
  (nanoseconds) come with each step, the bots' generators are arbitrary, \<open>math.Log\<close> and
  \<open>strconv.Quote\<close> are arguments.
\<close>

section \<open>The shard's counters\<close>

record shardState =
  ss_sent :: int
  ss_acked :: int
  ss_errors :: int
  ss_violations :: int
  ss_hist :: Hist
  ss_secAcks :: "(int, int) gomap"
  ss_secErrs :: "(int, int) gomap"
  ss_samples :: "string list"

definition new_state :: shardState where
  "new_state = \<lparr>ss_sent = 0, ss_acked = 0, ss_errors = 0, ss_violations = 0, ss_hist = NewHist,
     ss_secAcks = [], ss_secErrs = [], ss_samples = []\<rparr>"

definition tickAck :: "shardState \<Rightarrow> int \<Rightarrow> shardState" where
  "tickAck st sec = st\<lparr>ss_secAcks := gm_add (ss_secAcks st) sec 1\<rparr>"

definition tickErr :: "shardState \<Rightarrow> int \<Rightarrow> shardState" where
  "tickErr st sec = st\<lparr>ss_secErrs := gm_add (ss_secErrs st) sec 1\<rparr>"

definition violate :: "shardState \<Rightarrow> string \<Rightarrow> shardState" where
  "violate st msg =
     (let st1 = st\<lparr>ss_violations := i64 (ss_violations st + 1)\<rparr>
      in if length (ss_samples st1) < 10 then st1\<lparr>ss_samples := ss_samples st1 @ [msg]\<rparr> else st1)"

section \<open>Validators\<close>

definition limit_verdicts :: "Order \<Rightarrow> Fill \<Rightarrow> string list" where
  "limit_verdicts od f =
     (if Type od = Limit then
        (if Side od = Buy \<and> f_Price f > Price od
         then [ID od @ '': buy fill @'' @ Itoa (f_Price f) @ '' above limit '' @ Itoa (Price od)] else []) @
        (if Side od = Sell \<and> f_Price f < Price od
         then [ID od @ '': sell fill @'' @ Itoa (f_Price f) @ '' below limit '' @ Itoa (Price od)] else [])
      else [])"

definition validate :: "Order \<Rightarrow> Ack \<Rightarrow> string list" where
  "validate od ack =
     (let (v, filled) = fold (\<lambda>f (v, filled). (v @ limit_verdicts od f, i64 (filled + f_Qty f))) (Fills ack) ([], 0);
          v1 = (if filled > Qty od
                then v @ [ID od @ '': overfill '' @ Itoa filled @ '' > qty '' @ Itoa (Qty od)] else v)
      in if Status ack = StatusFilled \<and> filled \<noteq> Qty od
         then v1 @ [ID od @ '': status filled but '' @ Itoa filled @ ''/'' @ Itoa (Qty od)] else v1)"

definition checkSeq :: "int \<Rightarrow> Ack \<Rightarrow> int \<times> string list" where
  "checkSeq lastSeq ack =
     (if Seq ack \<le> lastSeq
      then (Seq ack, [''seq regression '' @ Itoa (Seq ack) @ '' after '' @ Itoa lastSeq])
      else (Seq ack, []))"

section \<open>One request\<close>

text \<open>The clock readings of one iteration: loop test, ramp, before and after the request, and after decoding.\<close>

record timing =
  t_test :: int
  t_ramp :: int
  t_sent :: int
  t_resp :: int
  t_done :: int

definition Unix :: "int \<Rightarrow> int" where
  "Unix t = t div 10 ^ 9"

text \<open>
  One request. \<open>http.NewRequest\<close> fails only on a malformed method or URL; the method is a constant
  and the URL is the target the orchestrator made with an id of the bot appended, so its error
  return, before the request is counted, is left out.
\<close>

definition send ::
  "(float64 \<Rightarrow> float64) \<Rightarrow> timing \<Rightarrow> ('w \<Rightarrow> 'w \<times> Ack http_result) \<Rightarrow> shardState \<Rightarrow> 'w \<Rightarrow>
   shardState \<times> 'w \<times> (string + Ack)" where
  "send Log tm Do st w =
     (let st1 = st\<lparr>ss_sent := i64 (ss_sent st + 1)\<rparr>;
          (w', resp) = Do w;
          failed = (\<lambda>e. (tickErr (st1\<lparr>ss_errors := i64 (ss_errors st1 + 1)\<rparr>) (Unix (t_resp tm)), w', Inl e))
      in case resp of
           TransportError e \<Rightarrow> failed e
         | Response code body \<Rightarrow>
             if code \<noteq> 200 then failed (''http '' @ Itoa code)
             else case body of
               Inl e \<Rightarrow> failed e
             | Inr ack \<Rightarrow>
                 let st2 = st1\<lparr>ss_hist := Record Log (ss_hist st1) (t_done tm - t_sent tm)\<rparr>;
                     st3 = st2\<lparr>ss_acked := i64 (ss_acked st2 + 1)\<rparr>
                 in (tickAck st3 (Unix (t_resp tm)), w', Inr ack))"

definition sendOrder ::
  "(float64 \<Rightarrow> float64) \<Rightarrow> (string \<Rightarrow> string) \<Rightarrow> 'w post \<Rightarrow> timing \<Rightarrow> shardState \<Rightarrow> 'w \<Rightarrow> Order \<Rightarrow>
   shardState \<times> 'w \<times> (string + Ack)" where
  "sendOrder Log quote post tm st w od =
     (let (st1, w', res) = send Log tm (\<lambda>w. post w od) st w
      in (case res of
            Inl e \<Rightarrow> st1
          | Inr ack \<Rightarrow>
              if OrderID ack \<noteq> ID od
              then violate st1 (''ack order_id '' @ quote (OrderID ack) @ '' for order '' @ quote (ID od))
              else st1, w', res))"

section \<open>One bot\<close>

record bot =
  b_rng :: rng
  b_mid :: int
  b_resting :: "string list"
  b_lastSeq :: int
  b_n :: int
  b_stopped :: bool

definition side :: "rng \<Rightarrow> Side \<times> rng" where
  "side r = (let (x, r1) = Intn r 2 in (if x = 0 then Buy else Sell, r1))"

text \<open>The seed of bot \<open>idx\<close> selects its generator; \<open>NewSource\<close> maps seeds to generators.\<close>

definition bot_init :: "(int \<Rightarrow> rng) \<Rightarrow> LoadShard \<Rightarrow> int \<Rightarrow> bot" where
  "bot_init NewSource shard idx =
     (let r = NewSource (i64 (ls_Seed shard + idx * 1000003));
          (x, r1) = Intn r 60
      in \<lparr>b_rng = r1, b_mid = i64 (10000 + x - 30), b_resting = [], b_lastSeq = 0, b_n = 0,
          b_stopped = False\<rparr>)"

definition Seconds :: "int \<Rightarrow> float64" where
  "Seconds d = fl (float64_of (d div 10 ^ 9) + fl (float64_of (d mod 10 ^ 9) / 10 ^ 9))"

text \<open>The rate of the ramp and the pause before a request.\<close>

definition ramp_rate :: "LoadShard \<Rightarrow> int \<Rightarrow> float64" where
  "ramp_rate shard elapsed =
     (let perBotMax = fl (float64_of (ls_MaxRPS shard) / float64_of (ls_Bots shard));
          durS = float64_of (ls_DurationS shard);
          frac = fl (Seconds elapsed / durS);
          rate = fl (perBotMax * fl (fl (10 / 100) + fl (fl (90 / 100) * frac)))
      in if rate < 1 / 2 then 1 / 2 else rate)"

definition pause_ns :: "float64 \<Rightarrow> float64 \<Rightarrow> int" where
  "pause_ns rate x = go_int (fl (fl (10 ^ 9 / rate) * fl (1 / 2 + x)))"

definition next_mid :: "int \<Rightarrow> int \<Rightarrow> int" where
  "next_mid mid x =
     (let m1 = i64 (mid + (x - 3));
          m2 = (if m1 < 9000 then 9000 else m1)
      in if m2 > 11000 then 11000 else m2)"

definition order_id :: "LoadShard \<Rightarrow> int \<Rightarrow> int \<Rightarrow> string" where
  "order_id shard idx n = ''b'' @ Itoa (ls_Shard shard) @ ''-'' @ Itoa idx @ ''-'' @ Itoa n"

text \<open>
  The three cases of the switch. Each returns the shard state, the engine, the bot and the
  verdicts, or no verdicts at all when the request failed (\<open>continue\<close>).
\<close>

definition bot_cancel ::
  "(float64 \<Rightarrow> float64) \<Rightarrow> (string \<Rightarrow> string) \<Rightarrow> 'w delete \<Rightarrow> timing \<Rightarrow> shardState \<Rightarrow> 'w \<Rightarrow> bot \<Rightarrow>
   shardState \<times> 'w \<times> bot \<times> string list" where
  "bot_cancel Log quote del tm st w b =
     (let (i, r) = Intn (b_rng b) (int (length (b_resting b)));
          oid = b_resting b ! nat i;
          b1 = b\<lparr>b_rng := r, b_resting := take (nat i) (b_resting b) @ drop (nat i + 1) (b_resting b)\<rparr>;
          (st1, w', res) = send Log tm (\<lambda>w. del w oid) st w
      in case res of
           Inl e \<Rightarrow> (st1, w', b1, [])
         | Inr ack \<Rightarrow>
             let v = (if Status ack \<noteq> StatusCanceled \<and> Status ack \<noteq> StatusUnknown
                      then [''cancel '' @ oid @ '' got status '' @ quote (Status ack)] else []);
                 (ls, sv) = checkSeq (b_lastSeq b1) ack
             in (st1, w', b1\<lparr>b_lastSeq := ls\<rparr>, v @ sv))"

definition bot_market ::
  "(float64 \<Rightarrow> float64) \<Rightarrow> (string \<Rightarrow> string) \<Rightarrow> 'w post \<Rightarrow> LoadShard \<Rightarrow> int \<Rightarrow> timing \<Rightarrow>
   shardState \<Rightarrow> 'w \<Rightarrow> bot \<Rightarrow> shardState \<times> 'w \<times> bot \<times> string list" where
  "bot_market Log quote post shard idx tm st w b =
     (let (x, r1) = Intn (b_rng b) 50;
          (s, r2) = side r1;
          od = \<lparr>ID = order_id shard idx (b_n b), Side = s, Type = Market, Price = 0, Qty = 1 + x\<rparr>;
          b1 = b\<lparr>b_rng := r2, b_n := i64 (b_n b + 1)\<rparr>;
          (st1, w', res) = sendOrder Log quote post tm st w od
      in case res of
           Inl e \<Rightarrow> (st1, w', b1, [])
         | Inr ack \<Rightarrow>
             let (ls, sv) = checkSeq (b_lastSeq b1) ack
             in (st1, w', b1\<lparr>b_lastSeq := ls\<rparr>, validate od ack @ sv))"

definition limit_price :: "int \<Rightarrow> Side \<Rightarrow> rng \<Rightarrow> int \<times> rng" where
  "limit_price mid s r =
     (let (x, r1) = Intn r 25;
          (price, r2) = (if s = Sell then let (y, r2) = Intn r1 25 in (i64 (mid + y - 5), r2)
                         else (i64 (mid - x + 5), r1))
      in (if price < 1 then 1 else price, r2))"

definition bot_limit ::
  "(float64 \<Rightarrow> float64) \<Rightarrow> (string \<Rightarrow> string) \<Rightarrow> 'w post \<Rightarrow> LoadShard \<Rightarrow> int \<Rightarrow> timing \<Rightarrow>
   shardState \<Rightarrow> 'w \<Rightarrow> bot \<Rightarrow> shardState \<times> 'w \<times> bot \<times> string list" where
  "bot_limit Log quote post shard idx tm st w b =
     (let (s, r1) = side (b_rng b);
          (price, r2) = limit_price (b_mid b) s r1;
          (x, r3) = Intn r2 100;
          od = \<lparr>ID = order_id shard idx (b_n b), Side = s, Type = Limit, Price = price, Qty = 1 + x\<rparr>;
          b1 = b\<lparr>b_rng := r3, b_n := i64 (b_n b + 1)\<rparr>;
          (st1, w', res) = sendOrder Log quote post tm st w od
      in case res of
           Inl e \<Rightarrow> (st1, w', b1, [])
         | Inr ack \<Rightarrow>
             let b2 = (if (Status ack = StatusResting \<or> Status ack = StatusPartial) \<and> length (b_resting b1) < 50
                       then b1\<lparr>b_resting := b_resting b1 @ [ID od]\<rparr> else b1);
                 (ls, sv) = checkSeq (b_lastSeq b2) ack
             in (st1, w', b2\<lparr>b_lastSeq := ls\<rparr>, validate od ack @ sv))"

text \<open>One turn of the loop: the pause drawn, the walk of the mid, the switch, the verdicts reported.\<close>

definition bot_iter ::
  "(float64 \<Rightarrow> float64) \<Rightarrow> (string \<Rightarrow> string) \<Rightarrow> 'w post \<Rightarrow> 'w delete \<Rightarrow> LoadShard \<Rightarrow> int \<Rightarrow> timing \<Rightarrow>
   shardState \<Rightarrow> 'w \<Rightarrow> bot \<Rightarrow> shardState \<times> 'w \<times> bot" where
  "bot_iter Log quote post del shard idx tm st w b =
     (let (jitter, r1) = Float64 (b_rng b);
          (x, r2) = Intn r1 7;
          (p, r3) = Float64 r2;
          b1 = b\<lparr>b_rng := r3, b_mid := next_mid (b_mid b) x\<rparr>;
          (st1, w', b2, verdicts) =
            (if p < fl (20 / 100) \<and> length (b_resting b1) > 0 then bot_cancel Log quote del tm st w b1
             else if p < fl (40 / 100) then bot_market Log quote post shard idx tm st w b1
             else bot_limit Log quote post shard idx tm st w b1)
      in (fold (\<lambda>v st. violate st v) verdicts st1, w', b2))"

text \<open>
  How long the loop sleeps before a request; with \<open>DurationS = 0\<close> the loop test fails at once
  and the quotient by the duration is never formed.
\<close>

definition bot_pause :: "LoadShard \<Rightarrow> int \<Rightarrow> timing \<Rightarrow> bot \<Rightarrow> int" where
  "bot_pause shard start tm b = pause_ns (ramp_rate shard (t_ramp tm - start)) (fst (Float64 (b_rng b)))"

section \<open>Flushing\<close>

text \<open>The zero value of \<open>prev\<close>.\<close>

definition no_batch :: TelemetryBatch where
  "no_batch = \<lparr>tb_RunID = [], tb_Shard = 0, tb_TotalShards = 0, tb_Final = False, tb_Sent = 0,
     tb_Acked = 0, tb_Errors = 0, tb_Violations = 0, tb_Hist = [], tb_SecAcks = [], tb_SecErrs = [],
     tb_Samples = []\<rparr>"

text \<open>
  The result is the shard state, \<open>prev\<close> and the batch handed to \<open>XADD\<close>. Whether Redis accepted
  the batch is not part of the state: on an error the code only logs, so \<open>fs_stream\<close> below is the
  sequence of batches issued, and a batch whose \<open>XADD\<close> fails is lost, its counts included, since
  \<open>prev\<close> has been advanced.
\<close>

definition flush ::
  "LoadShard \<Rightarrow> shardState \<Rightarrow> TelemetryBatch \<Rightarrow> bool \<Rightarrow> shardState \<times> TelemetryBatch \<times> TelemetryBatch" where
  "flush shard st prev final =
     (let secAcks = ss_secAcks st; secErrs = ss_secErrs st; samples = ss_samples st;
          st1 = st\<lparr>ss_secAcks := [], ss_secErrs := [], ss_samples := []\<rparr>;
          (h, hist') = TakeDelta (ss_hist st1);
          st2 = st1\<lparr>ss_hist := hist'\<rparr>;
          cur = \<lparr>tb_RunID = ls_RunID shard, tb_Shard = ls_Shard shard, tb_TotalShards = ls_TotalShards shard,
            tb_Final = final, tb_Sent = ss_sent st1, tb_Acked = ss_acked st1, tb_Errors = ss_errors st1,
            tb_Violations = ss_violations st1, tb_Hist = h, tb_SecAcks = secAcks, tb_SecErrs = secErrs,
            tb_Samples = samples\<rparr>;
          delta = cur\<lparr>tb_Sent := i64 (tb_Sent cur - tb_Sent prev),
            tb_Acked := i64 (tb_Acked cur - tb_Acked prev),
            tb_Errors := i64 (tb_Errors cur - tb_Errors prev),
            tb_Violations := i64 (tb_Violations cur - tb_Violations prev)\<rparr>
      in (st2, cur, delta))"

section \<open>A shard\<close>

text \<open>
  The goroutines of \<open>runShard\<close>: bot \<open>i\<close> takes a turn, the ticker fires, or \<open>done\<close> is closed,
  which needs every bot to have returned. After the final flush nothing happens any more.
\<close>

record 'w fleet =
  fs_state :: shardState
  fs_world :: 'w
  fs_bots :: "bot list"
  fs_prev :: TelemetryBatch
  fs_stream :: "TelemetryBatch list"
  fs_done :: bool

datatype fleet_event = BotTurn nat timing | Tick | Done

definition fleet_init :: "(int \<Rightarrow> rng) \<Rightarrow> LoadShard \<Rightarrow> 'w \<Rightarrow> 'w fleet" where
  "fleet_init NewSource shard w =
     \<lparr>fs_state = new_state, fs_world = w,
      fs_bots = map (\<lambda>i. bot_init NewSource shard (int i)) [0..<nat (ls_Bots shard)],
      fs_prev = no_batch, fs_stream = [], fs_done = False\<rparr>"

definition bot_turn ::
  "(float64 \<Rightarrow> float64) \<Rightarrow> (string \<Rightarrow> string) \<Rightarrow> 'w post \<Rightarrow> 'w delete \<Rightarrow> LoadShard \<Rightarrow> int \<Rightarrow>
   'w fleet \<Rightarrow> nat \<Rightarrow> timing \<Rightarrow> 'w fleet" where
  "bot_turn Log quote post del shard deadline f i tm =
     (if i \<ge> length (fs_bots f) \<or> b_stopped (fs_bots f ! i) then f
      else if t_test tm \<ge> deadline then f\<lparr>fs_bots := (fs_bots f)[i := (fs_bots f ! i)\<lparr>b_stopped := True\<rparr>]\<rparr>
      else
        let (st, w, b) = bot_iter Log quote post del shard (int i) tm (fs_state f) (fs_world f) (fs_bots f ! i)
        in f\<lparr>fs_state := st, fs_world := w, fs_bots := (fs_bots f)[i := b]\<rparr>)"

definition fleet_flush :: "LoadShard \<Rightarrow> bool \<Rightarrow> 'w fleet \<Rightarrow> 'w fleet" where
  "fleet_flush shard final f =
     (let (st, prev, delta) = flush shard (fs_state f) (fs_prev f) final
      in f\<lparr>fs_state := st, fs_prev := prev, fs_stream := fs_stream f @ [delta]\<rparr>)"

definition fleet_step ::
  "(float64 \<Rightarrow> float64) \<Rightarrow> (string \<Rightarrow> string) \<Rightarrow> 'w post \<Rightarrow> 'w delete \<Rightarrow> LoadShard \<Rightarrow> int \<Rightarrow>
   fleet_event \<Rightarrow> 'w fleet \<Rightarrow> 'w fleet" where
  "fleet_step Log quote post del shard deadline ev f =
     (if fs_done f then f
      else case ev of
        BotTurn i tm \<Rightarrow> bot_turn Log quote post del shard deadline f i tm
      | Tick \<Rightarrow> fleet_flush shard False f
      | Done \<Rightarrow> if \<forall>b \<in> set (fs_bots f). b_stopped b then (fleet_flush shard True f)\<lparr>fs_done := True\<rparr> else f)"

definition runShard ::
  "(float64 \<Rightarrow> float64) \<Rightarrow> (string \<Rightarrow> string) \<Rightarrow> 'w post \<Rightarrow> 'w delete \<Rightarrow> (int \<Rightarrow> rng) \<Rightarrow> LoadShard \<Rightarrow>
   int \<Rightarrow> 'w \<Rightarrow> fleet_event list \<Rightarrow> 'w fleet" where
  "runShard Log quote post del NewSource shard start w evs =
     fold (fleet_step Log quote post del shard (i64 (start + ls_DurationS shard * 10 ^ 9))) evs
       (fleet_init NewSource shard w)"

section \<open>What the validators decide\<close>

lemma limit_verdicts_iff: "Type od = Limit \<longrightarrow> Side od = Buy \<or> Side od = Sell \<Longrightarrow>
  limit_verdicts od f = [] \<longleftrightarrow> within_limit od f"
  by (auto simp: limit_verdicts_def within_limit_def)

lemma validate_fold:
  "fold (\<lambda>f (v, filled). (v @ limit_verdicts od f, i64 (filled + f_Qty f))) fs (v, q) =
    (v @ concat (map (limit_verdicts od) fs), fold (\<lambda>f s. i64 (s + f_Qty f)) fs q)"
  by (induction fs arbitrary: v q) auto

lemma validate_sumFills:
  "validate od a =
     concat (map (limit_verdicts od) (Fills a)) @
     (if sumFills (Fills a) > Qty od
      then [ID od @ '': overfill '' @ Itoa (sumFills (Fills a)) @ '' > qty '' @ Itoa (Qty od)] else []) @
     (if Status a = StatusFilled \<and> sumFills (Fills a) \<noteq> Qty od
      then [ID od @ '': status filled but '' @ Itoa (sumFills (Fills a)) @ ''/'' @ Itoa (Qty od)] else [])"
  by (simp add: validate_def validate_fold sumFills_def Let_def)

lemma sumFills_i64: "sumFills fs = i64 (filled fs)"
proof -
  have "is_i64 q \<Longrightarrow> fold (\<lambda>f s. i64 (s + f_Qty f)) fs q = i64 (q + filled fs)" for q
    by (induction fs arbitrary: q) (simp_all add: i64_id i64_range add.assoc)
  from this[of 0] show ?thesis by (simp add: sumFills_def is_i64_def)
qed

lemma validate_iff:
  assumes "Side od = Buy \<or> Side od = Sell"
  shows "validate od a = [] \<longleftrightarrow>
    (\<forall>f \<in> set (Fills a). within_limit od f) \<and> i64 (filled (Fills a)) \<le> Qty od \<and>
    (Status a = StatusFilled \<longrightarrow> i64 (filled (Fills a)) = Qty od)"
  using assms by (auto simp: validate_sumFills limit_verdicts_iff sumFills_i64)

text \<open>
  (C33) The validator is exact on honest quantities: for a buy or sell order, when every fill
  has a positive quantity and the total fits an \<open>int64\<close>, \<open>validate\<close> is silent if and only if
  no fill is beyond the limit price, the order is not overfilled, and a \<open>filled\<close> status comes
  with the whole quantity.
\<close>

theorem validate_exact:
  assumes "Side od = Buy \<or> Side od = Sell" "\<forall>f \<in> set (Fills a). 0 < f_Qty f" "filled (Fills a) < 2 ^ 63"
  shows "validate od a = [] \<longleftrightarrow>
    (\<forall>f \<in> set (Fills a). within_limit od f) \<and> filled (Fills a) \<le> Qty od \<and>
    (Status a = StatusFilled \<longrightarrow> filled (Fills a) = Qty od)"
  using validate_iff[OF assms(1)] i64_nonneg[OF filled_nonneg[OF assms(2)] assms(3)] by simp

theorem validate_exact_witness:
  "validate \<lparr>ID = ''b0-0-1'', Side = Buy, Type = Limit, Price = 100, Qty = 5\<rparr>
     \<lparr>OrderID = ''b0-0-1'', Seq = 9, Status = StatusFilled,
      Fills = [\<lparr>f_Price = 99, f_Qty = 5, MakerID = ''m''\<rparr>], TS = 0\<rparr> = [] \<and>
   validate \<lparr>ID = ''b0-0-1'', Side = Buy, Type = Limit, Price = 100, Qty = 5\<rparr>
     \<lparr>OrderID = ''b0-0-1'', Seq = 9, Status = StatusFilled,
      Fills = [\<lparr>f_Price = 101, f_Qty = 5, MakerID = ''m''\<rparr>], TS = 0\<rparr> \<noteq> []"
  by (intro conjI; subst validate_exact) (simp_all add: within_limit_def)

text \<open>
  (C35) What the validator misses: the running total of the fills is an \<open>int64\<close> that wraps.
  For every buy or sell order of positive quantity there is an acknowledgement, all of whose
  fills have positive \<open>int64\<close> quantities at the order's own price, that overfills the order by
  \<open>2^64\<close> units and is reported as \<open>filled\<close>, on which \<open>validate\<close> is silent.
\<close>

theorem validate_misses_wrapped_overfill:
  assumes "Side od = Buy \<or> Side od = Sell" "0 < Qty od" "Qty od < 2 ^ 63 - 2"
  shows "\<exists>a. OrderID a = ID od \<and> Status a = StatusFilled \<and>
    (\<forall>f \<in> set (Fills a). 0 < f_Qty f \<and> is_i64 (f_Qty f) \<and> f_Price f = Price od) \<and>
    filled (Fills a) = Qty od + 2 ^ 64 \<and> validate od a = []"
proof (intro exI conjI)
  let ?f = "\<lambda>q. \<lparr>f_Price = Price od, f_Qty = q, MakerID = ''m''\<rparr>"
  let ?a = "\<lparr>OrderID = ID od, Seq = 1, Status = StatusFilled,
    Fills = [?f (2 ^ 63 - 1), ?f (2 ^ 63 - 1), ?f (Qty od + 2)], TS = 0\<rparr>"
  have "i64 (Qty od + 2 ^ 64) = i64 (Qty od)"
    unfolding i64_def using mod_add_self2[of "Qty od + 2 ^ 63" "2 ^ 64"] by (simp add: algebra_simps)
  also have "\<dots> = Qty od" using assms by (simp add: i64_nonneg)
  finally have "i64 (2 ^ 64 + Qty od) = Qty od" by (simp add: add.commute)
  then show "validate od ?a = []" using assms(1) by (simp add: validate_iff within_limit_def)
  show "\<forall>f \<in> set (Fills ?a). 0 < f_Qty f \<and> is_i64 (f_Qty f) \<and> f_Price f = Price od"
    using assms by (simp add: is_i64_def)
qed simp_all

theorem validate_misses_wrapped_overfill_witness:
  "\<exists>a. filled (Fills a) = 5 + 2 ^ 64 \<and>
     validate \<lparr>ID = ''b0-0-1'', Side = Buy, Type = Limit, Price = 100, Qty = 5\<rparr> a = []"
  using validate_misses_wrapped_overfill[of "\<lparr>ID = ''b0-0-1'', Side = Buy, Type = Limit, Price = 100, Qty = 5\<rparr>"]
  by auto

section \<open>Engines that keep the contract, behind a lossy network\<close>

text \<open>
  What becomes of the \<open>k\<close>-th request: it is answered, or it is lost before or after the engine
  handles it, which the client sees as a transport error.
\<close>

datatype fate = Delivered | RequestLost string | ReplyLost string

definition lossy ::
  "(nat \<Rightarrow> fate) \<Rightarrow> ('s \<Rightarrow> 's \<times> Ack) \<Rightarrow> 's \<times> nat \<Rightarrow> ('s \<times> nat) \<times> Ack http_result" where
  "lossy fates act sk =
     (case sk of (s, k) \<Rightarrow>
        case fates k of
          Delivered \<Rightarrow> ((fst (act s), Suc k), Response 200 (Inr (snd (act s))))
        | RequestLost e \<Rightarrow> ((s, Suc k), TransportError e)
        | ReplyLost e \<Rightarrow> ((fst (act s), Suc k), TransportError e))"

definition lossy_post ::
  "(nat \<Rightarrow> fate) \<Rightarrow> (nat \<Rightarrow> int) \<Rightarrow> ('s \<Rightarrow> int \<Rightarrow> Order \<Rightarrow> 's \<times> Ack) \<Rightarrow> ('s \<times> nat) post" where
  "lossy_post fates now submit sk od = lossy fates (\<lambda>s. submit s (now (snd sk)) od) sk"

definition lossy_delete ::
  "(nat \<Rightarrow> fate) \<Rightarrow> (nat \<Rightarrow> int) \<Rightarrow> ('s \<Rightarrow> int \<Rightarrow> string \<Rightarrow> 's \<times> Ack) \<Rightarrow> ('s \<times> nat) delete" where
  "lossy_delete fates now cancel sk i = lossy fates (\<lambda>s. cancel s (now (snd sk)) i) sk"

lemma bot_order_ok:
  assumes "is_i64 p" "0 \<le> x" "x < 100"
  shows "order_ok \<lparr>ID = i, Side = s, Type = t, Price = p, Qty = 1 + x\<rparr>"
  using assms by (simp add: order_ok_def is_i64_def)

lemma limit_price_i64: "is_i64 (fst (limit_price mid s r))"
  by (auto simp: limit_price_def Let_def i64_range is_i64_def[of 1] split: prod.splits)

lemma side_kind: "fst (side r) = Buy \<or> fst (side r) = Sell"
  by (simp add: side_def Let_def split_beta)

text \<open>A sound acknowledgement passes the validator.\<close>

lemma ack_sound_validates:
  assumes "ack_sound od a" "Side od = Buy \<or> Side od = Sell" "order_ok od"  "0 < Qty od"
  shows "validate od a = []"
proof -
  have pos: "\<forall>f \<in> set (Fills a). 0 < f_Qty f" and lim: "\<forall>f \<in> set (Fills a). within_limit od f"
    using assms(1) by (auto simp: ack_sound_def)
  have le: "filled (Fills a) \<le> Qty od" and full: "Status a = StatusFilled \<longrightarrow> filled (Fills a) = Qty od"
    using assms by (auto simp: ack_sound_def status_defs split: if_splits)
  then have "filled (Fills a) < 2 ^ 63" using assms(3) by (simp add: order_ok_def is_i64_def)
  then have "i64 (filled (Fills a)) = filled (Fills a)" using filled_nonneg[OF pos] by (simp add: i64_nonneg)
  then show ?thesis using validate_iff[OF assms(2), of a] lim le full by metis
qed

text \<open>Neither the request nor its reply adds a violation.\<close>

definition innocent :: "shardState \<Rightarrow> bool" where
  "innocent st \<longleftrightarrow> ss_violations st = 0 \<and> ss_samples st = []"

lemma innocent_send:
  "innocent st \<Longrightarrow> innocent (fst (send Log tm Do st w))"
  by (auto simp: innocent_def send_def tickErr_def tickAck_def Let_def
      split: prod.splits http_result.splits sum.splits)

lemma send_world:
  "fst (snd (send Log tm Do st w)) = fst (Do w)"
  "snd (snd (send Log tm Do st w)) = decodeAck (snd (Do w))"
  by (auto simp: send_def decodeAck_def Let_def split: prod.splits http_result.splits sum.splits)

lemma decode_lossy:
  "decodeAck (snd (lossy fates act (s, k))) = Inr a \<Longrightarrow>
     a = snd (act s) \<and> fst (lossy fates act (s, k)) = (fst (act s), Suc k)"
  "\<exists>s'. fst (lossy fates act (s, k)) = (s', Suc k) \<and> (s' = s \<or> s' = fst (act s))"
  by (auto simp: lossy_def decodeAck_def split: fate.splits)


context price_time_engine
begin

text \<open>
  The engine state and the sequence numbers the bots have seen: a bot's \<open>lastSeq\<close> is never
  above the engine's counter, which is never above the number of requests.
\<close>

definition seen :: "'s \<times> nat \<Rightarrow> int \<Rightarrow> bool" where
  "seen sk ls \<longleftrightarrow> inv (fst sk) \<and> ls \<le> p_seq (abs (fst sk)) \<and> 0 \<le> p_seq (abs (fst sk)) \<and>
     p_seq (abs (fst sk)) \<le> int (snd sk)"

lemma submit_seq:
  assumes "inv s" "order_ok od"
  shows "Seq (snd (submit s t od)) = i64 (p_seq (abs s) + 1)"
    "p_seq (abs (fst (submit s t od))) = i64 (p_seq (abs s) + 1)"
  using pb_step_seq[of "abs s" "OpSubmit od"] submit_ack[OF assms] submit_abs[OF assms]
  by (simp_all, metis untimed_simps(2))

lemma cancel_seq:
  assumes "inv s"
  shows "Seq (snd (cancel s t i)) = i64 (p_seq (abs s) + 1)"
    "p_seq (abs (fst (cancel s t i))) = i64 (p_seq (abs s) + 1)"
  using pb_step_seq[of "abs s" "OpCancel i"] cancel_ack[OF assms] cancel_abs[OF assms]
  by (simp_all, metis untimed_simps(2))

lemma cancel_status:
  assumes "inv s"
  shows "Status (snd (cancel s t i)) = StatusCanceled \<or> Status (snd (cancel s t i)) = StatusUnknown"
proof -
  have "Status (snd (pb_cancel b i)) = StatusCanceled \<or> Status (snd (pb_cancel b i)) = StatusUnknown" for b
    by (simp add: pb_cancel_def Let_def)
  then show ?thesis using cancel_ack[OF assms] by (metis untimed_simps(3))
qed

lemma seen_lossy:
  fixes fates :: "nat \<Rightarrow> fate" and act :: "'s \<Rightarrow> 's \<times> Ack"
  assumes "seen (s, k) ls" "int k + 1 < 2 ^ 63"
    and "inv (fst (act s))" "p_seq (abs (fst (act s))) = i64 (p_seq (abs s) + 1)"
    and "Seq (snd (act s)) = i64 (p_seq (abs s) + 1)"
  defines "r \<equiv> lossy fates act (s, k)"
  shows "seen (fst r) ls" "snd (fst r) = Suc k"
    "p_seq (abs s) \<le> p_seq (abs (fst (fst r)))"
    "decodeAck (snd r) = Inr a \<Longrightarrow> a = snd (act s) \<and> seen (fst r) (Seq a) \<and> snd (checkSeq ls a) = [] \<and> fst (checkSeq ls a) = Seq a"
proof -
  have n: "i64 (p_seq (abs s) + 1) = p_seq (abs s) + 1"
    using assms(1,2) by (simp add: seen_def i64_nonneg)
  obtain s' where s': "fst r = (s', Suc k)" "s' = s \<or> s' = fst (act s)"
    using decode_lossy(2)[of fates act s k] unfolding r_def by blast
  then show "seen (fst r) ls" "snd (fst r) = Suc k" "p_seq (abs s) \<le> p_seq (abs (fst (fst r)))"
    using assms n by (auto simp: seen_def)
  assume "decodeAck (snd r) = Inr a"
  then have a: "a = snd (act s)" "fst r = (fst (act s), Suc k)"
    using decode_lossy(1)[of fates act s k a] unfolding r_def by auto
  then show "a = snd (act s) \<and> seen (fst r) (Seq a) \<and> snd (checkSeq ls a) = [] \<and> fst (checkSeq ls a) = Seq a"
    using assms n by (simp add: seen_def checkSeq_def)
qed

text \<open>What one request leaves behind, with the acknowledgement judged by the caller's check \<open>ok\<close>.\<close>

definition calm :: "'s \<times> nat \<Rightarrow> shardState \<times> ('s \<times> nat) \<times> bot \<times> string list \<Rightarrow> bool" where
  "calm sk r \<longleftrightarrow>
     (case r of (st, sk', b, v) \<Rightarrow> innocent st \<and> seen sk' (b_lastSeq b) \<and> snd sk' = Suc (snd sk) \<and>
        p_seq (abs (fst sk)) \<le> p_seq (abs (fst sk')) \<and> v = [])"

lemma cancel_calm:
  assumes "seen (s, k) (b_lastSeq b)" "int k + 1 < 2 ^ 63" "innocent st"
  shows "calm (s, k) (bot_cancel Log quote (lossy_delete fates now cancel) tm st (s, k) b)"
proof -
  obtain i r where ir: "Intn (b_rng b) (int (length (b_resting b))) = (i, r)" by fastforce
  define oid where "oid = b_resting b ! nat i"
  let ?act = "\<lambda>s. cancel s (now k) oid"
  obtain st1 w res where snd_eq: "send Log tm (\<lambda>w. lossy_delete fates now cancel w oid) st (s, k) = (st1, w, res)"
    by (metis prod_cases3)
  have i: "inv s" using assms(1) by (simp add: seen_def)
  note L = seen_lossy[OF assms(1,2), of ?act fates, OF cancel_inv[OF i] cancel_seq(2)[OF i] cancel_seq(1)[OF i]]
  have w: "w = fst (lossy fates ?act (s, k))" "res = decodeAck (snd (lossy fates ?act (s, k)))"
    using send_world[of Log tm "\<lambda>w. lossy_delete fates now cancel w oid" st "(s, k)"] snd_eq
    by (simp_all add: lossy_delete_def)
  have inn: "innocent st1"
    using innocent_send[OF assms(3), of Log tm "\<lambda>w. lossy_delete fates now cancel w oid" "(s, k)"] snd_eq by simp
  have W: "seen w (b_lastSeq b)" "snd w = Suc k" "p_seq (abs s) \<le> p_seq (abs (fst w))"
    using L(1-3) unfolding w(1) by auto
  have A: "(Status a = StatusCanceled \<or> Status a = StatusUnknown) \<and> seen w (Seq a) \<and>
    checkSeq (b_lastSeq b) a = (Seq a, [])" if "res = Inr a" for a
    using L(4)[of a] that cancel_status[OF i] unfolding w by (auto simp: prod_eq_iff)
  show ?thesis
    using A inn W snd_eq ir
    by (cases res) (auto simp: bot_cancel_def calm_def Let_def oid_def)
qed

lemma sendOrder_calm:
  assumes "seen (s, k) ls" "int k + 1 < 2 ^ 63" "innocent st"
    "order_ok od" "0 < Qty od" "Side od = Buy \<or> Side od = Sell"
  obtains st1 w res where
    "sendOrder Log quote (lossy_post fates now submit) tm st (s, k) od = (st1, w, res)"
    "innocent st1" "seen w ls" "snd w = Suc k" "p_seq (abs s) \<le> p_seq (abs (fst w))"
    "\<And>a. res = Inr a \<Longrightarrow> seen w (Seq a) \<and> checkSeq ls a = (Seq a, []) \<and> validate od a = []"
proof -
  let ?act = "\<lambda>s. submit s (now k) od" and ?Do = "\<lambda>w. lossy_post fates now submit w od"
  obtain st1 w res where snd_eq: "send Log tm ?Do st (s, k) = (st1, w, res)"
    by (metis prod_cases3)
  have i: "inv s" using assms(1) by (simp add: seen_def)
  note L = seen_lossy[OF assms(1,2), of ?act fates, OF submit_inv[OF i assms(4)] submit_seq(2)[OF i assms(4)]
      submit_seq(1)[OF i assms(4)]]
  have w: "w = fst (lossy fates ?act (s, k))" "res = decodeAck (snd (lossy fates ?act (s, k)))"
    using send_world[of Log tm ?Do st "(s, k)"] snd_eq by (simp_all add: lossy_post_def)
  have inn: "innocent st1" using innocent_send[OF assms(3), of Log tm ?Do "(s, k)"] snd_eq by simp
  have A: "OrderID a = ID od \<and> seen w (Seq a) \<and> checkSeq ls a = (Seq a, []) \<and> validate od a = []"
    if "res = Inr a" for a
  proof -
    have a: "a = snd (submit s (now k) od)" "seen w (Seq a)" "checkSeq ls a = (Seq a, [])"
      using L(4)[of a] that unfolding w by (auto simp: prod_eq_iff)
    then have "ack_sound od a" using ack_sound_submit[OF i assms(4)] by simp
    then show ?thesis
      using a ack_sound_validates[OF _ assms(6,4,5)] by (simp add: ack_sound_def)
  qed
  have "sendOrder Log quote (lossy_post fates now submit) tm st (s, k) od = (st1, w, res)"
    using snd_eq A by (cases res) (auto simp: sendOrder_def Let_def)
  moreover have "seen w ls" "snd w = Suc k" "p_seq (abs s) \<le> p_seq (abs (fst w))"
    using L(1-3) unfolding w(1) by auto
  ultimately show thesis using that inn A by blast
qed

lemma market_calm:
  assumes "seen (s, k) (b_lastSeq b)" "int k + 1 < 2 ^ 63" "innocent st"
  shows "calm (s, k) (bot_market Log quote (lossy_post fates now submit) shard idx tm st (s, k) b)"
proof -
  obtain x r1 where x: "Intn (b_rng b) 50 = (x, r1)" by fastforce
  obtain sd r2 where sd: "side r1 = (sd, r2)" by fastforce
  define od where "od = \<lparr>ID = order_id shard idx (b_n b), Side = sd, Type = Market, Price = 0, Qty = 1 + x\<rparr>"
  have xr: "0 \<le> x" "x < 50" using Intn_range[of 50 "b_rng b"] x by auto
  then have od: "order_ok od" "0 < Qty od" "Side od = Buy \<or> Side od = Sell"
    using bot_order_ok[of 0 x] side_kind[of r1] sd by (auto simp: od_def is_i64_def)
  from sendOrder_calm[OF assms od, of Log quote fates now tm] obtain st1 w res where
    "sendOrder Log quote (lossy_post fates now submit) tm st (s, k) od = (st1, w, res)"
    "innocent st1" "seen w (b_lastSeq b)" "snd w = Suc k" "p_seq (abs s) \<le> p_seq (abs (fst w))"
    "\<And>a. res = Inr a \<Longrightarrow> seen w (Seq a) \<and> checkSeq (b_lastSeq b) a = (Seq a, []) \<and> validate od a = []"
    by blast
  then show ?thesis
    using x sd by (cases res) (simp_all add: bot_market_def calm_def Let_def flip: od_def)
qed

lemma limit_calm:
  assumes "seen (s, k) (b_lastSeq b)" "int k + 1 < 2 ^ 63" "innocent st"
  shows "calm (s, k) (bot_limit Log quote (lossy_post fates now submit) shard idx tm st (s, k) b)"
proof -
  obtain sd r1 where sd: "side (b_rng b) = (sd, r1)" by fastforce
  obtain p r2 where p: "limit_price (b_mid b) sd r1 = (p, r2)" by fastforce
  obtain x r3 where x: "Intn r2 100 = (x, r3)" by fastforce
  define od where "od = \<lparr>ID = order_id shard idx (b_n b), Side = sd, Type = Limit, Price = p, Qty = 1 + x\<rparr>"
  have xr: "0 \<le> x" "x < 100" using Intn_range[of 100 r2] x by auto
  then have od: "order_ok od" "0 < Qty od" "Side od = Buy \<or> Side od = Sell"
    using bot_order_ok[OF limit_price_i64[of "b_mid b" sd r1], of x] side_kind[of "b_rng b"] sd p
    by (auto simp: od_def)
  from sendOrder_calm[OF assms od, of Log quote fates now tm] obtain st1 w res where
    "sendOrder Log quote (lossy_post fates now submit) tm st (s, k) od = (st1, w, res)"
    "innocent st1" "seen w (b_lastSeq b)" "snd w = Suc k" "p_seq (abs s) \<le> p_seq (abs (fst w))"
    "\<And>a. res = Inr a \<Longrightarrow> seen w (Seq a) \<and> checkSeq (b_lastSeq b) a = (Seq a, []) \<and> validate od a = []"
    by blast
  then show ?thesis
    using sd p x by (cases res) (simp_all add: bot_limit_def calm_def Let_def flip: od_def)
qed

lemma iter_calm:
  assumes "seen (s, k) (b_lastSeq b)" "int k + 1 < 2 ^ 63" "innocent st"
    "bot_iter Log quote (lossy_post fates now submit) (lossy_delete fates now cancel) shard idx tm st (s, k) b =
       (st', sk', b')"
  shows "innocent st'" "seen sk' (b_lastSeq b')" "snd sk' = Suc k" "p_seq (abs s) \<le> p_seq (abs (fst sk'))"
proof -
  obtain x r1 where x: "Float64 (b_rng b) = (x, r1)" by fastforce
  obtain y r2 where y: "Intn r1 7 = (y, r2)" by fastforce
  obtain p r3 where p: "Float64 r2 = (p, r3)" by fastforce
  define b1 where "b1 = b\<lparr>b_rng := r3, b_mid := next_mid (b_mid b) y\<rparr>"
  let ?r = "if p < fl (20 / 100) \<and> length (b_resting b1) > 0
    then bot_cancel Log quote (lossy_delete fates now cancel) tm st (s, k) b1
    else if p < fl (40 / 100) then bot_market Log quote (lossy_post fates now submit) shard idx tm st (s, k) b1
    else bot_limit Log quote (lossy_post fates now submit) shard idx tm st (s, k) b1"
  have "seen (s, k) (b_lastSeq b1)" using assms(1) by (simp add: b1_def)
  then have c: "calm (s, k) ?r" using assms(2,3) by (simp add: cancel_calm market_calm limit_calm)
  obtain st1 w b2 v where r: "?r = (st1, w, b2, v)" by (metis prod_cases4)
  have "v = []" using c r by (simp add: calm_def)
  moreover have "bot_iter Log quote (lossy_post fates now submit) (lossy_delete fates now cancel) shard idx tm st (s, k) b =
      (fold (\<lambda>v st. violate st v) v st1, w, b2)"
    unfolding bot_iter_def Let_def x y p prod.case b1_def[symmetric] r ..
  ultimately have "st' = st1" "sk' = w" "b' = b2" using assms(4) by simp_all
  then show "innocent st'" "seen sk' (b_lastSeq b')" "snd sk' = Suc k" "p_seq (abs s) \<le> p_seq (abs (fst sk'))"
    using c r by (simp_all add: calm_def)
qed

text \<open>The invariant of a whole shard against such an engine.\<close>

definition unaccused :: "('s \<times> nat) fleet \<Rightarrow> bool" where
  "unaccused f \<longleftrightarrow>
     inv (fst (fs_world f)) \<and> innocent (fs_state f) \<and>
     (\<forall>b \<in> set (fs_bots f). seen (fs_world f) (b_lastSeq b)) \<and>
     tb_Violations (fs_prev f) = 0 \<and>
     (\<forall>d \<in> set (fs_stream f). tb_Violations d = 0 \<and> tb_Samples d = [])"

lemma turn_unaccused:
  assumes "unaccused f" "int (snd (fs_world f)) + 1 < 2 ^ 63"
    and f'_def: "f' = bot_turn Log quote (lossy_post fates now submit) (lossy_delete fates now cancel) shard deadline f i tm"
  shows "unaccused f' \<and> snd (fs_world f') \<le> Suc (snd (fs_world f))"
proof (cases "i \<ge> length (fs_bots f) \<or> b_stopped (fs_bots f ! i)")
  case True
  then show ?thesis using assms(1) by (auto simp: f'_def bot_turn_def)
next
  case False
  then have mem: "fs_bots f ! i \<in> set (fs_bots f)" by simp
  show ?thesis
  proof (cases "t_test tm \<ge> deadline")
    case True
    with False have "f' = f\<lparr>fs_bots := (fs_bots f)[i := (fs_bots f ! i)\<lparr>b_stopped := True\<rparr>]\<rparr>"
      by (simp add: f'_def bot_turn_def)
    then show ?thesis using assms(1) mem by (auto simp: unaccused_def dest!: set_update_subset_insert[THEN subsetD])
  next
    case run: False
    obtain s k where w: "fs_world f = (s, k)" by fastforce
    obtain st' sk' b' where it: "bot_iter Log quote (lossy_post fates now submit) (lossy_delete fates now cancel)
        shard (int i) tm (fs_state f) (s, k) (fs_bots f ! i) = (st', sk', b')"
      by (metis prod_cases3)
    have "seen (s, k) (b_lastSeq (fs_bots f ! i))" "int k + 1 < 2 ^ 63" "innocent (fs_state f)"
      using assms(1,2) mem w by (simp_all add: unaccused_def)
    note C = iter_calm[OF this it]
    have f': "f' = f\<lparr>fs_state := st', fs_world := sk', fs_bots := (fs_bots f)[i := b']\<rparr>"
      using False run w it by (simp add: f'_def bot_turn_def)
    have "seen sk' (b_lastSeq b)" if "b \<in> set (fs_bots f)" for b
    proof -
      have "seen (s, k) (b_lastSeq b)" using assms(1) that w by (simp add: unaccused_def)
      then show ?thesis using C by (simp add: seen_def)
    qed
    then show ?thesis
      using assms(1) C w unfolding f' unaccused_def
      by (auto simp: seen_def dest!: set_update_subset_insert[THEN subsetD])
  qed
qed

lemma flush_unaccused:
  assumes "unaccused f"
  shows "unaccused (fleet_flush shard final f)" "fs_world (fleet_flush shard final f) = fs_world f"
  using assms
  by (simp_all add: unaccused_def fleet_flush_def flush_def innocent_def TakeDelta_def Let_def)

lemma step_unaccused:
  assumes "unaccused f" "int (snd (fs_world f)) + 1 < 2 ^ 63"
    and f'_def: "f' = fleet_step Log quote (lossy_post fates now submit) (lossy_delete fates now cancel) shard deadline ev f"
  shows "unaccused f' \<and> snd (fs_world f') \<le> Suc (snd (fs_world f))"
proof -
  have "unaccused (f\<lparr>fs_done := True\<rparr>)" if "unaccused f" for f using that by (simp add: unaccused_def)
  then show ?thesis
    using turn_unaccused[OF assms(1,2) refl] flush_unaccused[OF assms(1)] assms(1)
    by (cases ev) (auto simp: f'_def fleet_step_def)
qed

lemma steps_unaccused:
  assumes "unaccused f" "int (snd (fs_world f)) + int (length evs) < 2 ^ 63"
  shows "unaccused (fold (fleet_step Log quote (lossy_post fates now submit) (lossy_delete fates now cancel)
    shard deadline) evs f)"
  using assms
proof (induction evs arbitrary: f)
  case (Cons ev evs)
  let ?f = "fleet_step Log quote (lossy_post fates now submit) (lossy_delete fates now cancel) shard deadline ev f"
  have "unaccused ?f \<and> snd (fs_world ?f) \<le> Suc (snd (fs_world f))"
    by (rule step_unaccused) (use Cons.prems in simp_all)
  with Cons show ?case by simp
qed simp

lemma shard_unaccused:
  assumes "int (length evs) < 2 ^ 63"
  shows "unaccused (runShard Log quote (lossy_post fates now submit) (lossy_delete fates now cancel)
    NewSource shard start (init, 0) evs)"
proof -
  have "unaccused (fleet_init NewSource shard (init, 0))"
    using init_inv init_abs
    by (auto simp: unaccused_def fleet_init_def innocent_def new_state_def no_batch_def seen_def
        bot_init_def pb_new_def Let_def split_beta)
  moreover have "fs_world (fleet_init NewSource shard (init, 0 :: nat)) = (init, 0)" by (simp add: fleet_init_def)
  ultimately show ?thesis unfolding runShard_def using assms by (intro steps_unaccused) simp_all
qed

end

text \<open>
  (C5) No false accusations: whatever the seeds, the clock, the scheduling of the bots and
  flushes, and whichever requests and replies the network loses, a shard run against the
  example engine counts no violation and every batch it sends reports none (for runs of fewer
  than \<open>2^63\<close> events, so that the engine's sequence numbers do not wrap).
\<close>

theorem honest_engine_never_accused:
  assumes "int (length evs) < 2 ^ 63"
    and "f = runShard Log quote (lossy_post fates now e_submit) (lossy_delete fates now e_cancel)
    NewSource shard start (newBook, 0) evs"
  shows "ss_violations (fs_state f) = 0 \<and> (\<forall>d \<in> set (fs_stream f). tb_Violations d = 0 \<and> tb_Samples d = [])"
  using eng.shard_unaccused[OF assms(1), of Log quote fates now NewSource shard start]
  unfolding assms(2) eng.unaccused_def innocent_def by blast

definition demo_shard :: LoadShard where
  "demo_shard = \<lparr>ls_RunID = ''r1'', ls_Target = ''http://arena-sub-r1:8080'', ls_Shard = 0, ls_TotalShards = 1,
     ls_Bots = 2, ls_DurationS = 60, ls_MaxRPS = 100, ls_Seed = 7\<rparr>"

definition demo_timing :: timing where
  "demo_timing = \<lparr>t_test = 1, t_ramp = 2, t_sent = 3, t_resp = 4, t_done = 5\<rparr>"

theorem honest_engine_never_accused_witness:
  "ss_violations (fs_state (runShard ln id (lossy_post (\<lambda>k. if k = 1 then ReplyLost ''EOF'' else Delivered) int e_submit)
     (lossy_delete (\<lambda>k. if k = 1 then ReplyLost ''EOF'' else Delivered) int e_cancel)
     (\<lambda>seed. \<lparr>ints = \<lambda>k. 5 * k, floats = \<lambda>k. 1 / 2, pos = 0\<rparr>) demo_shard 0 (newBook, 0)
     [BotTurn 0 demo_timing, BotTurn 1 demo_timing, BotTurn 0 demo_timing, Tick])) = 0"
  by (rule honest_engine_never_accused[THEN conjunct1, OF _ refl]) simp

section \<open>The telemetry is complete\<close>

text \<open>A property of the counters that a request and a verdict keep is kept by a bot's turn.\<close>

lemma bot_iter_preserves:
  fixes post :: "'w post" and del :: "'w delete" and w :: 'w
  assumes "\<And>od st w. P st \<Longrightarrow> P (fst (send Log tm (\<lambda>w. post w od) st w))"
    "\<And>i st w. P st \<Longrightarrow> P (fst (send Log tm (\<lambda>w. del w i) st w))" "\<And>st v. P st \<Longrightarrow> P (violate st v)" "P st"
  shows "P (fst (bot_iter Log quote post del shard idx tm st w b))"
proof -
  have so: "P st \<Longrightarrow> P (fst (sendOrder Log quote post tm st w od))" for st w od
    using assms(1)[of st od w] assms(3)
    by (auto simp: sendOrder_def Let_def split: prod.splits sum.splits)
  have "P (fst (bot_cancel Log quote del tm st w b))" for b
    by (simp add: bot_cancel_def Let_def split_beta assms(2,4) split: sum.split)
  moreover have "P (fst (bot_market Log quote post shard idx tm st w b))" for b
    by (simp add: bot_market_def Let_def split_beta so assms(4) split: sum.split)
  moreover have "P (fst (bot_limit Log quote post shard idx tm st w b))" for b
    by (simp add: bot_limit_def Let_def split_beta so assms(4) split: sum.split)
  moreover have "P st \<Longrightarrow> P (fold (\<lambda>v st. violate st v) vs st)" for vs st
    by (induction vs arbitrary: st) (simp_all add: assms(3))
  ultimately show ?thesis
    by (simp add: bot_iter_def Let_def split_beta)
qed

definition gsum :: "('k, int) gomap \<Rightarrow> int" where
  "gsum m = sum_list (map snd m)"

lemma gsum_Nil [simp]: "gsum [] = 0"
  by (simp add: gsum_def)

lemma gsum_put: "gm_ok m \<Longrightarrow> gsum (gm_put m k v) = gsum m - gm_get 0 m k + v"
proof (induction m)
  case (Cons kv m)
  moreover have "k \<notin> fst ` set m \<Longrightarrow> gm_get 0 m k = 0"
    by (simp add: gm_get_def flip: map_of_eq_None_iff)
  ultimately show ?case by (cases kv) (auto simp: gsum_def gm_put_def gm_get_def gm_ok_def)
qed (simp add: gsum_def gm_put_def)

lemma i64_cong_add: "i64 a = i64 b \<Longrightarrow> i64 (a + c) = i64 (b + c)"
  by (metis i64_add_left)

lemma gsum_gm_add: "gm_ok m \<Longrightarrow> i64 (x + gsum (gm_add m k v)) = i64 (x + gsum m + v)"
  using i64_add_right[of "x + gsum m - gm_get 0 m k" "gm_get 0 m k + v"]
  by (simp add: gm_add_def gsum_put algebra_simps)

text \<open>
  The counters agree with the maps, where \<open>H\<close>, \<open>A\<close> and \<open>E\<close> are the totals already flushed out
  of the histogram and the per-second maps.
\<close>

definition balanced :: "int \<Rightarrow> int \<Rightarrow> int \<Rightarrow> shardState \<Rightarrow> bool" where
  "balanced H A E st \<longleftrightarrow>
     is_i64 (ss_sent st) \<and> is_i64 (ss_acked st) \<and> is_i64 (ss_errors st) \<and> is_i64 (ss_violations st) \<and>
     gm_ok (counts (ss_hist st)) \<and> gm_ok (ss_secAcks st) \<and> gm_ok (ss_secErrs st) \<and>
     i64 (ss_acked st + ss_errors st) = ss_sent st \<and>
     i64 (H + gsum (counts (ss_hist st))) = ss_acked st \<and>
     i64 (A + gsum (ss_secAcks st)) = ss_acked st \<and>
     i64 (E + gsum (ss_secErrs st)) = ss_errors st"

lemma balanced_violate: "balanced H A E st \<Longrightarrow> balanced H A E (violate st v)"
  by (simp add: balanced_def violate_def Let_def i64_range)

lemma i64_Suc: "i64 x = y \<Longrightarrow> i64 (x + 1) = i64 (y + 1)"
  by auto

lemma balanced_ack:
  assumes "balanced H A E st"
  shows "balanced H A E (tickAck (st\<lparr>ss_sent := i64 (ss_sent st + 1),
    ss_hist := Record Log (ss_hist st) ns, ss_acked := i64 (ss_acked st + 1)\<rparr>) sec)"
  using assms i64_Suc[of "ss_acked st + ss_errors st" "ss_sent st"] i64_Suc[of "H + gsum (counts (ss_hist st))" "ss_acked st"]
    i64_Suc[of "A + gsum (ss_secAcks st)" "ss_acked st"]
  by (simp add: balanced_def tickAck_def Record_def i64_range gsum_gm_add add.commute add.left_commute)

lemma balanced_err:
  assumes "balanced H A E st"
  shows "balanced H A E (tickErr (st\<lparr>ss_sent := i64 (ss_sent st + 1), ss_errors := i64 (ss_errors st + 1)\<rparr>) sec)"
  using assms i64_Suc[of "ss_acked st + ss_errors st" "ss_sent st"] i64_Suc[of "E + gsum (ss_secErrs st)" "ss_errors st"]
  by (simp add: balanced_def tickErr_def i64_range gsum_gm_add add.commute add.left_commute)

lemma balanced_send: "balanced H A E st \<Longrightarrow> balanced H A E (fst (send Log tm Do st w))"
  using balanced_ack[of H A E st Log] balanced_err[of H A E st]
  by (simp add: send_def Let_def split_beta split: http_result.split sum.split)

definition tally :: "(TelemetryBatch \<Rightarrow> int) \<Rightarrow> TelemetryBatch list \<Rightarrow> int" where
  "tally sel ds = sum_list (map sel ds)"

lemma tally_simps [simp]: "tally sel [] = 0" "tally sel (ds @ [d]) = tally sel ds + sel d"
  by (simp_all add: tally_def)

definition drained :: "shardState \<Rightarrow> TelemetryBatch \<Rightarrow> bool" where
  "drained st prev \<longleftrightarrow> tb_Sent prev = ss_sent st \<and> tb_Acked prev = ss_acked st \<and>
     tb_Errors prev = ss_errors st \<and> tb_Violations prev = ss_violations st \<and>
     counts (ss_hist st) = [] \<and> ss_secAcks st = [] \<and> ss_secErrs st = []"

definition ledger :: "'w fleet \<Rightarrow> bool" where
  "ledger f \<longleftrightarrow>
     balanced (tally (\<lambda>d. gsum (tb_Hist d)) (fs_stream f)) (tally (\<lambda>d. gsum (tb_SecAcks d)) (fs_stream f))
       (tally (\<lambda>d. gsum (tb_SecErrs d)) (fs_stream f)) (fs_state f) \<and>
     i64 (tally tb_Sent (fs_stream f)) = tb_Sent (fs_prev f) \<and>
     i64 (tally tb_Acked (fs_stream f)) = tb_Acked (fs_prev f) \<and>
     i64 (tally tb_Errors (fs_stream f)) = tb_Errors (fs_prev f) \<and>
     i64 (tally tb_Violations (fs_stream f)) = tb_Violations (fs_prev f) \<and>
     (if fs_done f then drained (fs_state f) (fs_prev f) \<and> (\<exists>n. map tb_Final (fs_stream f) = replicate n False @ [True])
      else (\<exists>n. map tb_Final (fs_stream f) = replicate n False))"

lemma telescope: "i64 x = y \<Longrightarrow> is_i64 z \<Longrightarrow> i64 (x + (z - y)) = z"
  using i64_add_left[of x "z - y"] by (simp add: i64_id)

lemma ledger_flush:
  assumes "ledger f" "\<not> fs_done f"
  shows "ledger (fleet_flush shard False f)" "ledger ((fleet_flush shard True f)\<lparr>fs_done := True\<rparr>)"
proof -
  obtain n where n: "map tb_Final (fs_stream f) = replicate n False" using assms by (auto simp: ledger_def)
  have "replicate n False @ [False] = replicate (Suc n) False" by (simp add: replicate_append_same)
  then have F: "\<exists>k. replicate n False @ [False] = replicate k False" by blast
  show "ledger (fleet_flush shard False f)"
    using n F assms
    by (simp add: ledger_def fleet_flush_def flush_def TakeDelta_def Let_def telescope balanced_def)
  show "ledger ((fleet_flush shard True f)\<lparr>fs_done := True\<rparr>)"
    using n assms
    by (simp add: ledger_def fleet_flush_def flush_def TakeDelta_def Let_def telescope balanced_def drained_def)
qed

lemma ledger_turn:
  assumes "ledger f" "\<not> fs_done f"
  shows "ledger (bot_turn Log quote post del shard deadline f i tm)"
proof -
  let ?it = "bot_iter Log quote post del shard (int i) tm (fs_state f) (fs_world f) (fs_bots f ! i)"
  have "balanced H A E (fst ?it)" if "balanced H A E (fs_state f)" for H A E
    by (rule bot_iter_preserves[where P = "balanced H A E", OF balanced_send balanced_send balanced_violate that])
  then have "ledger (f\<lparr>fs_state := fst ?it, fs_world := w, fs_bots := bs\<rparr>)" for w bs
    using assms by (simp add: ledger_def)
  moreover have "ledger (f\<lparr>fs_bots := bs\<rparr>)" for bs using assms by (simp add: ledger_def)
  ultimately show ?thesis using assms(1) by (simp add: bot_turn_def Let_def split_beta)
qed

lemma ledger_run: "ledger (runShard Log quote post del NewSource shard start w evs)"
proof -
  have step: "ledger (fleet_step Log quote post del shard deadline ev f)" if "ledger f" for f ev deadline
    using that ledger_flush ledger_turn by (cases ev) (auto simp: fleet_step_def)
  have "ledger f \<Longrightarrow> ledger (fold (fleet_step Log quote post del shard deadline) evs f)" for f deadline
    by (induction evs arbitrary: f) (simp_all add: step)
  moreover have "ledger (fleet_init NewSource shard w)"
    by (simp add: ledger_def fleet_init_def balanced_def new_state_def no_batch_def NewHist_def is_i64_def)
  ultimately show ?thesis unfolding runShard_def by blast
qed

text \<open>
  (C12) Nothing is lost between the bots and the ingester: once a shard is done, against any
  engine and for any scheduling, exactly its last batch is marked final; the batches' counters
  add up to the shard's own (modulo \<open>2^64\<close>, like the counters themselves); every request is
  counted as acknowledged or as an error; every acknowledged request is in exactly one
  latency bucket and one per-second bucket of exactly one batch, and every error in one.
\<close>

theorem shard_telemetry_complete:
  assumes "f = runShard Log quote post del NewSource shard start w evs" "fs_done f"
  shows "(\<exists>n. map tb_Final (fs_stream f) = replicate n False @ [True]) \<and>
    i64 (tally tb_Sent (fs_stream f)) = ss_sent (fs_state f) \<and>
    i64 (tally tb_Acked (fs_stream f)) = ss_acked (fs_state f) \<and>
    i64 (tally tb_Errors (fs_stream f)) = ss_errors (fs_state f) \<and>
    i64 (tally tb_Violations (fs_stream f)) = ss_violations (fs_state f) \<and>
    i64 (ss_acked (fs_state f) + ss_errors (fs_state f)) = ss_sent (fs_state f) \<and>
    i64 (tally (\<lambda>d. gsum (tb_Hist d)) (fs_stream f)) = ss_acked (fs_state f) \<and>
    i64 (tally (\<lambda>d. gsum (tb_SecAcks d)) (fs_stream f)) = ss_acked (fs_state f) \<and>
    i64 (tally (\<lambda>d. gsum (tb_SecErrs d)) (fs_stream f)) = ss_errors (fs_state f)"
proof -
  have "ledger f" unfolding assms(1) by (rule ledger_run)
  then show ?thesis using assms(2) by (auto simp: ledger_def balanced_def drained_def)
qed

text \<open>A shard of one bot, which returns at the deadline after a flush by the ticker.\<close>

definition demo_finished :: "(book \<times> nat) fleet" where
  "demo_finished = runShard ln id (lossy_post (\<lambda>k. Delivered) int e_submit) (lossy_delete (\<lambda>k. Delivered) int e_cancel)
     (\<lambda>seed. \<lparr>ints = \<lambda>k. k, floats = \<lambda>k. 1 / 2, pos = 0\<rparr>) (demo_shard\<lparr>ls_Bots := 1\<rparr>) 0 (newBook, 0)
     [BotTurn 0 demo_timing, Tick, BotTurn 0 (demo_timing\<lparr>t_test := 10 ^ 12\<rparr>), Done]"

lemma turn_frame:
  "length (fs_bots (bot_turn Log quote post del shard deadline f i tm)) = length (fs_bots f)"
  "fs_stream (bot_turn Log quote post del shard deadline f i tm) = fs_stream f"
  "fs_done (bot_turn Log quote post del shard deadline f i tm) = fs_done f"
  by (simp_all add: bot_turn_def Let_def split_beta)

lemma flush_frame:
  "fs_bots (fleet_flush shard final f) = fs_bots f" "fs_done (fleet_flush shard final f) = fs_done f"
  "length (fs_stream (fleet_flush shard final f)) = Suc (length (fs_stream f))"
  by (simp_all add: fleet_flush_def Let_def split_beta)

lemma turn_at_deadline:
  "deadline \<le> t_test tm \<Longrightarrow> i < length (fs_bots f) \<Longrightarrow> b_stopped (fs_bots (bot_turn Log quote post del shard deadline f i tm) ! i)"
  by (simp add: bot_turn_def)

lemma one_bot_finishes:
  assumes "ls_Bots shard = 1" "i64 (start + ls_DurationS shard * 10 ^ 9) \<le> t_test tm'"
    "f = runShard Log quote post del NewSource shard start w [BotTurn 0 tm, Tick, BotTurn 0 tm', Done]"
  shows "fs_done f" "length (fs_stream f) = 2"
proof -
  let ?d = "i64 (start + ls_DurationS shard * 10 ^ 9)"
  let ?step = "fleet_step Log quote post del shard ?d"
  define f0 where "f0 = fleet_init NewSource shard w"
  define f1 where "f1 = ?step (BotTurn 0 tm) f0"
  define f2 where "f2 = ?step Tick f1"
  define f3 where "f3 = ?step (BotTurn 0 tm') f2"
  have 0: "length (fs_bots f0) = 1" "fs_stream f0 = []" "\<not> fs_done f0" using assms(1) by (simp_all add: f0_def fleet_init_def)
  then have 1: "length (fs_bots f1) = 1" "fs_stream f1 = []" "\<not> fs_done f1" by (simp_all add: f1_def fleet_step_def turn_frame)
  then have 2: "length (fs_bots f2) = 1" "length (fs_stream f2) = 1" "\<not> fs_done f2" by (simp_all add: f2_def fleet_step_def flush_frame)
  then have 3: "length (fs_bots f3) = 1" "length (fs_stream f3) = 1" "\<not> fs_done f3" "b_stopped (fs_bots f3 ! 0)"
    using turn_at_deadline[OF assms(2), of 0 f2] by (simp_all add: f3_def fleet_step_def turn_frame)
  then have "\<forall>b \<in> set (fs_bots f3). b_stopped b" by (metis One_nat_def in_set_conv_nth less_one)
  moreover have "f = ?step Done f3" by (simp add: assms(3) runShard_def f3_def f2_def f1_def f0_def)
  ultimately show "fs_done f" "length (fs_stream f) = 2" using 3 by (simp_all add: fleet_step_def flush_frame)
qed

lemma demo_finished_done: "fs_done demo_finished" "length (fs_stream demo_finished) = 2"
  by (rule one_bot_finishes[OF _ _ demo_finished_def], simp_all add: demo_shard_def demo_timing_def i64_nonneg)+

theorem shard_telemetry_complete_witness:
  "i64 (tally tb_Sent (fs_stream demo_finished)) = ss_sent (fs_state demo_finished) \<and>
   i64 (ss_acked (fs_state demo_finished) + ss_errors (fs_state demo_finished)) = ss_sent (fs_state demo_finished)"
  using shard_telemetry_complete[OF demo_finished_def demo_finished_done(1)] by blast

section \<open>What the bots offer\<close>

lemma Itoa_no_dash: "0 \<le> n \<Longrightarrow> CHR ''-'' \<notin> set (Itoa n)"
proof
  assume "0 \<le> n" "CHR ''-'' \<in> set (Itoa n)"
  then obtain d where "d < 10" "digit d = CHR ''-''" by (metis Itoa_def not_less show_nat_digits)
  moreover have "(of_char (CHR ''-'') :: nat) < 48" by simp
  ultimately show False using digit_neq by blast
qed

lemma dash_split:
  "c \<notin> set xs \<Longrightarrow> c \<notin> set ys \<Longrightarrow> xs @ c # xs' = ys @ c # ys' \<longleftrightarrow> xs = ys \<and> xs' = ys'"
proof (induction xs arbitrary: ys)
  case Nil
  then show ?case by (cases ys) auto
next
  case (Cons x xs)
  then show ?case by (cases ys) auto
qed

lemma order_id_inj:
  assumes "0 \<le> i" "0 \<le> j"
  shows "order_id shard i m = order_id shard j n \<longleftrightarrow> i = j \<and> m = n"
  using dash_split[OF Itoa_no_dash[OF assms(1)] Itoa_no_dash[OF assms(2)]]
  by (simp add: order_id_def Itoa_inj)

definition offer_ok :: "Order \<Rightarrow> bool" where
  "offer_ok od \<longleftrightarrow> \<not> bad_order od \<and> 1 \<le> Qty od \<and> Qty od \<le> 100 \<and>
     (Type od = Limit \<longrightarrow> 8981 \<le> Price od \<and> Price od \<le> 11019)"

lemma next_mid_range: "9000 \<le> next_mid m x \<and> next_mid m x \<le> 11000"
  by (simp add: next_mid_def Let_def)

lemma limit_price_range:
  assumes "9000 \<le> mid" "mid \<le> 11000"
  shows "8981 \<le> fst (limit_price mid s r) \<and> fst (limit_price mid s r) \<le> 11019"
proof -
  have R: "0 \<le> fst (Intn r' 25) \<and> fst (Intn r' 25) < 25" for r' by (rule Intn_range) simp
  have "is_i64 (mid + fst (Intn r' 25) - 5) \<and> is_i64 (mid - fst (Intn r' 25) + 5) \<and>
    8981 \<le> mid + fst (Intn r' 25) - 5 \<and> mid + fst (Intn r' 25) - 5 \<le> 11019 \<and>
    8981 \<le> mid - fst (Intn r' 25) + 5 \<and> mid - fst (Intn r' 25) + 5 \<le> 11019" for r'
    using assms R[of r'] by (simp add: is_i64_def)
  from this[of r] this[of "snd (Intn r 25)"] show ?thesis
    by (auto simp: limit_price_def Let_def split_beta i64_id)
qed

text \<open>An endpoint that keeps the orders it was sent and answers anything at all.\<close>

definition keep_post :: "(Order list \<Rightarrow> Order \<Rightarrow> Ack http_result) \<Rightarrow> Order list post" where
  "keep_post answer w od = (w @ [od], answer w od)"

definition keep_delete :: "(Order list \<Rightarrow> string \<Rightarrow> Ack http_result) \<Rightarrow> Order list delete" where
  "keep_delete answer w i = (w, answer w i)"

text \<open>One turn sends at most one order, a good one, under the bot's next identifier.\<close>

definition offers :: "LoadShard \<Rightarrow> int \<Rightarrow> Order list \<Rightarrow> bot \<Rightarrow> Order list \<Rightarrow> bot \<Rightarrow> bool" where
  "offers shard idx w b w' b' \<longleftrightarrow>
     w' = w \<and> b_n b' = b_n b \<or>
     (\<exists>od. w' = w @ [od] \<and> offer_ok od \<and> ID od = order_id shard idx (b_n b) \<and> b_n b' = i64 (b_n b + 1))"

lemma sendOrder_world:
  "fst (snd (sendOrder Log quote post tm st w od)) = fst (post w od)"
  using send_world(1)[of Log tm "\<lambda>w. post w od" st w] by (simp add: sendOrder_def Let_def split_beta)

lemma market_offers:
  assumes r_def: "r = bot_market Log quote (keep_post answer) shard idx tm st w b"
  shows "offers shard idx w b (fst (snd r)) (fst (snd (snd r)))"
proof -
  let ?x = "fst (Intn (b_rng b) 50)"
  let ?od = "\<lparr>ID = order_id shard idx (b_n b), Side = fst (side (snd (Intn (b_rng b) 50))), Type = Market,
    Price = 0, Qty = 1 + ?x\<rparr>"
  have "0 \<le> ?x \<and> ?x < 50" by (rule Intn_range) simp
  then have "offer_ok ?od"
    using side_kind[of "snd (Intn (b_rng b) 50)"] by (auto simp: offer_ok_def bad_order_def)
  moreover have "fst (snd r) = w @ [?od]" "b_n (fst (snd (snd r))) = i64 (b_n b + 1)"
    by (simp_all add: r_def bot_market_def Let_def split_beta sendOrder_world keep_post_def split: sum.split)
  ultimately show ?thesis by (auto simp: offers_def)
qed

lemma limit_offers:
  assumes "9000 \<le> b_mid b" "b_mid b \<le> 11000"
    and r_def: "r = bot_limit Log quote (keep_post answer) shard idx tm st w b"
  shows "offers shard idx w b (fst (snd r)) (fst (snd (snd r)))"
proof -
  let ?s = "fst (side (b_rng b))"
  let ?p = "limit_price (b_mid b) ?s (snd (side (b_rng b)))"
  let ?x = "fst (Intn (snd ?p) 100)"
  let ?od = "\<lparr>ID = order_id shard idx (b_n b), Side = ?s, Type = Limit, Price = fst ?p, Qty = 1 + ?x\<rparr>"
  have "0 \<le> ?x \<and> ?x < 100" by (rule Intn_range) simp
  then have "offer_ok ?od"
    using side_kind[of "b_rng b"] limit_price_range[OF assms(1,2), of ?s "snd (side (b_rng b))"]
    by (auto simp: offer_ok_def bad_order_def)
  moreover have "fst (snd r) = w @ [?od]" "b_n (fst (snd (snd r))) = i64 (b_n b + 1)"
    by (simp_all add: r_def bot_limit_def Let_def split_beta sendOrder_world keep_post_def split: sum.split)
  ultimately show ?thesis by (auto simp: offers_def)
qed

lemma iter_offers:
  assumes r_def: "r = bot_iter Log quote (keep_post answer) (keep_delete danswer) shard idx tm st w b"
  shows "offers shard idx w b (fst (snd r)) (snd (snd r))"
proof -
  let ?r1 = "snd (Float64 (b_rng b))"
  let ?r2 = "snd (Intn ?r1 7)"
  let ?b1 = "b\<lparr>b_rng := snd (Float64 ?r2), b_mid := next_mid (b_mid b) (fst (Intn ?r1 7))\<rparr>"
  have n: "offers shard idx w ?b1 w' b' = offers shard idx w b w' b'" for w' b' by (simp add: offers_def)
  have c: "offers shard idx w ?b1 (fst (snd (bot_cancel Log quote (keep_delete danswer) tm st w ?b1)))
      (fst (snd (snd (bot_cancel Log quote (keep_delete danswer) tm st w ?b1))))"
    by (simp add: offers_def bot_cancel_def Let_def split_beta send_world keep_delete_def split: sum.split)
  have "9000 \<le> b_mid ?b1" "b_mid ?b1 \<le> 11000" using next_mid_range by simp_all
  note cases = c market_offers[OF refl, of shard idx w ?b1 Log quote answer tm st]
    limit_offers[OF this refl, of shard idx w Log quote answer tm st]
  show ?thesis
    using cases unfolding n by (simp add: r_def bot_iter_def Let_def split_beta)
qed

text \<open>Every order kept so far is a good one, issued by some bot under a number it has used up.\<close>

definition issued :: "LoadShard \<Rightarrow> bot list \<Rightarrow> Order \<Rightarrow> bool" where
  "issued shard bs od \<longleftrightarrow>
     offer_ok od \<and> (\<exists>i n. i < length bs \<and> n < b_n (bs ! i) \<and> ID od = order_id shard (int i) n)"

definition offers_inv :: "LoadShard \<Rightarrow> nat \<Rightarrow> Order list fleet \<Rightarrow> bool" where
  "offers_inv shard k f \<longleftrightarrow>
     (\<forall>od \<in> set (fs_world f). issued shard (fs_bots f) od) \<and> distinct (map ID (fs_world f)) \<and>
     (\<forall>b \<in> set (fs_bots f). 0 \<le> b_n b \<and> b_n b \<le> int k)"

lemma issued_mono:
  "issued shard bs od \<Longrightarrow> i < length bs \<Longrightarrow> b_n (bs ! i) \<le> b_n b \<Longrightarrow> issued shard (bs[i := b]) od"
  unfolding issued_def by (metis length_list_update nth_list_update_eq nth_list_update_neq order_less_le_trans)

lemma offers_inv_update:
  assumes "offers_inv shard k f" "int k + 1 < 2 ^ 63" "i < length (fs_bots f)"
    "offers shard (int i) (fs_world f) (fs_bots f ! i) w b"
  shows "offers_inv shard (Suc k) (f\<lparr>fs_state := st, fs_world := w, fs_bots := (fs_bots f)[i := b]\<rparr>)"
proof -
  let ?b = "fs_bots f ! i" and ?bs = "(fs_bots f)[i := b]"
  have bn: "0 \<le> b_n ?b" "b_n ?b \<le> int k" using assms(1,3) by (simp_all add: offers_inv_def)
  then have up: "b_n b = b_n ?b \<or> b_n b = b_n ?b + 1"
    using assms(2,4) by (auto simp: offers_def i64_nonneg)
  then have old: "\<forall>od \<in> set (fs_world f). issued shard ?bs od"
    using assms(1,3) by (auto simp: offers_inv_def intro!: issued_mono)
  have bs: "\<forall>b \<in> set ?bs. 0 \<le> b_n b \<and> b_n b \<le> int (Suc k)"
    using assms(1) bn up by (fastforce simp: offers_inv_def dest!: set_update_subset_insert[THEN subsetD])
  consider "w = fs_world f" | od where "w = fs_world f @ [od]" "offer_ok od"
      "ID od = order_id shard (int i) (b_n ?b)" "b_n b = b_n ?b + 1"
    using assms(2,4) bn by (auto simp: offers_def i64_nonneg)
  then show ?thesis
  proof cases
    case 1
    with old bs assms(1) show ?thesis by (simp add: offers_inv_def)
  next
    case 2
    have "issued shard ?bs od" using 2 assms(3) by (auto simp: issued_def intro!: exI[of _ i] exI[of _ "b_n ?b"])
    moreover have "ID od \<notin> ID ` set (fs_world f)"
    proof
      assume "ID od \<in> ID ` set (fs_world f)"
      then obtain od' where "od' \<in> set (fs_world f)" "ID od' = order_id shard (int i) (b_n ?b)" using 2 by auto
      moreover from this obtain j n where "n < b_n (fs_bots f ! j)" "ID od' = order_id shard (int j) n"
        using assms(1) by (auto simp: offers_inv_def issued_def)
      ultimately show False using order_id_inj[of "int i" "int j" shard "b_n ?b" n] by auto
    qed
    ultimately show ?thesis using 2 old bs assms(1) by (simp add: offers_inv_def)
  qed
qed

lemma offers_inv_mono: "offers_inv shard k f \<Longrightarrow> offers_inv shard (Suc k) f"
  by (auto simp: offers_inv_def)

lemma offers_inv_step:
  assumes "offers_inv shard k f" "int k + 1 < 2 ^ 63"
  shows "offers_inv shard (Suc k) (fleet_step Log quote (keep_post answer) (keep_delete danswer) shard deadline ev f)"
proof -
  have id: "offers_inv shard (Suc k) f" using assms(1) by (rule offers_inv_mono)
  have st: "offers_inv shard (Suc k) (f\<lparr>fs_bots := (fs_bots f)[i := (fs_bots f ! i)\<lparr>b_stopped := True\<rparr>]\<rparr>)"
    if "i < length (fs_bots f)" for i
    using offers_inv_update[OF assms that, of "fs_world f" "(fs_bots f ! i)\<lparr>b_stopped := True\<rparr>" "fs_state f"]
    by (simp add: offers_def)
  have it: "offers_inv shard (Suc k) (bot_turn Log quote (keep_post answer) (keep_delete danswer) shard deadline f i tm)" for i tm
    using id st[of i] offers_inv_update[OF assms _ iter_offers[OF refl]]
    by (simp add: bot_turn_def Let_def split_beta)
  have "offers_inv shard k' (fleet_flush sh fin f)" "offers_inv shard k' ((fleet_flush sh fin f)\<lparr>fs_done := True\<rparr>)"
    if "offers_inv shard k' f" for k' sh fin
    using that by (simp_all add: offers_inv_def fleet_flush_def Let_def split_beta)
  with id it show ?thesis by (cases ev) (auto simp: fleet_step_def)
qed

lemma offers_inv_run:
  assumes "offers_inv shard k f" "int k + int (length evs) < 2 ^ 63"
  shows "offers_inv shard (k + length evs)
    (fold (fleet_step Log quote (keep_post answer) (keep_delete danswer) shard deadline) evs f)"
  using assms
proof (induction evs arbitrary: k f)
  case (Cons ev evs)
  have "offers_inv shard (Suc k) (fleet_step Log quote (keep_post answer) (keep_delete danswer) shard deadline ev f)"
    using Cons.prems by (intro offers_inv_step) simp_all
  from Cons.IH[OF this] Cons.prems show ?case by simp
qed simp

text \<open>
  (C32) The load is well formed: whatever the engine answers and however the bots are
  scheduled, every order a shard posts is one the contract accepts as well formed (quantity 1
  to 100, limit prices between 8981 and 11019), and no two of them have the same identifier.
\<close>

theorem bots_post_distinct_valid_orders:
  assumes "f = runShard Log quote (keep_post answer) (keep_delete danswer) NewSource shard start [] evs"
    "int (length evs) < 2 ^ 63"
  shows "(\<forall>od \<in> set (fs_world f). offer_ok od) \<and> distinct (map ID (fs_world f))"
proof -
  have "offers_inv shard 0 (fleet_init NewSource shard [])"
    by (auto simp: offers_inv_def fleet_init_def bot_init_def Let_def split_beta)
  then have "offers_inv shard (0 + length evs) f"
    unfolding assms(1) runShard_def using assms(2) by (intro offers_inv_run) simp_all
  then show ?thesis by (auto simp: offers_inv_def issued_def)
qed

theorem bots_post_distinct_valid_orders_witness:
  "distinct (map ID (fs_world (runShard ln id (keep_post (\<lambda>w od. TransportError ''EOF'')) (keep_delete (\<lambda>w i. TransportError ''EOF''))
     (\<lambda>seed. \<lparr>ints = \<lambda>k. 5 * k, floats = \<lambda>k. 1 / 2, pos = 0\<rparr>) demo_shard 0 []
     [BotTurn 0 demo_timing, BotTurn 1 demo_timing, BotTurn 0 demo_timing, Tick])))"
  by (rule bots_post_distinct_valid_orders[THEN conjunct2, OF refl]) simp

section \<open>Pacing\<close>

lemma ramp_rate_floor: "1 / 2 \<le> ramp_rate shard t"
  by (simp add: ramp_rate_def Let_def)

lemma fl_numeral_exact: "\<bar>n\<bar> < 2 ^ 53 \<Longrightarrow> x \<le> of_int n \<Longrightarrow> fl x \<le> of_int n"
  using fl_mono[of x "of_int n"] by (simp add: fl_of_int)

lemma fl_three_halves: "fl (3 / 2) = 3 / 2"
  by code_simp

text \<open>
  A bot never stalls: at any point of the ramp, for any rate budget and any jitter in
  \<open>[0, 1)\<close>, the pause before a request is between zero and three seconds, rounding included.
\<close>

theorem pause_at_most_three_seconds:
  assumes "\<forall>k. 0 \<le> floats (b_rng b) k \<and> floats (b_rng b) k < 1"
  shows "0 \<le> bot_pause shard start tm b \<and> bot_pause shard start tm b \<le> 3 * 10 ^ 9"
proof -
  let ?x = "fst (Float64 (b_rng b))" and ?rate = "ramp_rate shard (t_ramp tm - start)"
  have x: "0 \<le> ?x" "?x < 1" using assms by (simp_all add: Float64_def)
  have r: "1 / 2 \<le> ?rate" by (rule ramp_rate_floor)
  then have "10 ^ 9 / ?rate \<le> 2 * 10 ^ 9" by (simp add: field_simps)
  then have a: "fl (10 ^ 9 / ?rate) \<le> 2 * 10 ^ 9" using fl_numeral_exact[of "2 * 10 ^ 9"] by simp
  have a0: "0 \<le> fl (10 ^ 9 / ?rate)" using r by (intro fl_nonneg) simp
  have b: "fl (1 / 2 + ?x) \<le> 3 / 2" using fl_mono[of "1 / 2 + ?x" "3 / 2"] x fl_three_halves by simp
  have b0: "0 \<le> fl (1 / 2 + ?x)" using x by (intro fl_nonneg) simp
  have "fl (10 ^ 9 / ?rate) * fl (1 / 2 + ?x) \<le> (2 * 10 ^ 9) * (3 / 2)"
    using a b a0 b0 by (intro mult_mono) simp_all
  then have "fl (fl (10 ^ 9 / ?rate) * fl (1 / 2 + ?x)) \<le> of_int (3 * 10 ^ 9)"
    by (intro fl_numeral_exact) simp_all
  then have "pause_ns ?rate ?x \<le> go_int (of_int (3 * 10 ^ 9))" unfolding pause_ns_def by (rule go_int_mono)
  moreover have "0 \<le> pause_ns ?rate ?x"
    unfolding pause_ns_def using a0 b0 by (intro go_int_nonneg fl_nonneg) simp
  ultimately show ?thesis unfolding bot_pause_def go_int_of_int by simp
qed

theorem pause_at_most_three_seconds_witness:
  "bot_pause demo_shard 0 demo_timing
     \<lparr>b_rng = \<lparr>ints = \<lambda>k. k, floats = \<lambda>k. 1 / 2, pos = 0\<rparr>, b_mid = 10000, b_resting = [], b_lastSeq = 0, b_n = 0,
      b_stopped = False\<rparr> \<le> 3 * 10 ^ 9"
  by (rule pause_at_most_three_seconds[THEN conjunct2]) simp

end
