(* ===== verification/GoFormat.thy ===== *)
theory GoFormat
  imports GoStrings GoFloat
begin

text \<open>
  Numbers as text: the verbs \<open>%.0f\<close>, \<open>%.2f\<close> and \<open>%.4f\<close> of \<open>fmt.Sprintf\<close>, and
  \<open>strconv.ParseInt\<close> (base 10, 64 bits) and \<open>strconv.ParseFloat\<close> as the services call them:
  the error is dropped and the returned value used, which is 0 on malformed text and the
  nearest bound when the number does not fit. \<open>ParseFloat\<close> covers decimal notation without
  exponent, the only notation a service of the platform writes.
\<close>

section \<open>Printing\<close>

definition pad :: "nat \<Rightarrow> nat \<Rightarrow> string" where
  "pad k n = replicate (k - length (show_nat n)) (CHR ''0'') @ show_nat n"

text \<open>The exact decimal expansion is rounded half to even at the last digit printed.\<close>

definition fmt_f :: "nat \<Rightarrow> float64 \<Rightarrow> string" where
  "fmt_f k x =
     (let n = nat (round_even (\<bar>x\<bar> * 10 ^ k))
      in (if x < 0 then ''-'' else []) @ show_nat (n div 10 ^ k) @
         (if k = 0 then [] else ''.'' @ pad k (n mod 10 ^ k)))"

section \<open>Reading\<close>

definition is_digit :: "char \<Rightarrow> bool" where
  "is_digit c \<longleftrightarrow> 48 \<le> (of_char c :: nat) \<and> (of_char c :: nat) \<le> 57"

definition digits :: "string \<Rightarrow> bool" where
  "digits s \<longleftrightarrow> s \<noteq> [] \<and> list_all is_digit s"

definition sign_split :: "string \<Rightarrow> int \<times> string" where
  "sign_split s =
     (case s of c # cs \<Rightarrow> if c = CHR ''-'' then (-1, cs) else if c = CHR ''+'' then (1, cs) else (1, s)
      | [] \<Rightarrow> (1, s))"

definition ParseInt :: "string \<Rightarrow> int" where
  "ParseInt s =
     (let (sg, ds) = sign_split s
      in if digits ds then max (- (2 ^ 63)) (min (2 ^ 63 - 1) (sg * int (read_nat 0 ds))) else 0)"

definition ParseFloat :: "string \<Rightarrow> float64" where
  "ParseFloat s =
     (let (sg, r) = sign_split s;
          whole = takeWhile (\<lambda>c. c \<noteq> CHR ''.'') r;
          frac = drop (length whole + 1) r
      in if digits (whole @ frac)
         then fl (of_int sg * of_nat (read_nat 0 (whole @ frac)) / 10 ^ length frac) else 0)"

section \<open>Round trips\<close>

lemma is_digit_digit: "d < 10 \<Longrightarrow> is_digit (digit d)"
  by (simp add: is_digit_def of_char_digit)

lemma digits_show_nat: "digits (show_nat n)"
  using show_nat_digits[of _ n] is_digit_digit show_nat_nonempty[of n]
  by (fastforce simp: digits_def list_all_iff)

lemma is_digit_char: "is_digit c \<Longrightarrow> c \<noteq> CHR ''-'' \<and> c \<noteq> CHR ''+'' \<and> c \<noteq> CHR ''.''"
  by (auto simp: is_digit_def)

lemma sign_split_digits: "digits ds \<Longrightarrow> sign_split (ds @ r) = (1, ds @ r)"
  by (cases ds) (auto simp: digits_def sign_split_def dest: is_digit_char)

lemma ParseInt_Itoa:
  assumes "is_i64 n"
  shows "ParseInt (Itoa n) = n"
proof (cases "n < 0")
  case True
  then have "ParseInt (Itoa n) = max (- (2 ^ 63)) (min (2 ^ 63 - 1) n)"
    by (simp add: Itoa_def ParseInt_def sign_split_def digits_show_nat read_show_nat)
  with assms show ?thesis by (simp add: is_i64_def)
next
  case False
  then have "ParseInt (Itoa n) = max (- (2 ^ 63)) (min (2 ^ 63 - 1) n)"
    using sign_split_digits[OF digits_show_nat, of "nat n" "[]"]
    by (simp add: Itoa_def ParseInt_def digits_show_nat read_show_nat)
  with assms False show ?thesis by (simp add: is_i64_def)
qed

lemma read_nat_zeros: "read_nat 0 (replicate k (CHR ''0'') @ s) = read_nat 0 s"
  by (induction k) simp_all

lemma read_nat_acc: "read_nat acc s = acc * 10 ^ length s + read_nat 0 s"
proof (induction s arbitrary: acc)
  case (Cons c s)
  have "read_nat (10 * acc + (of_char c - 48)) s = (10 * acc + (of_char c - 48)) * 10 ^ length s + read_nat 0 s"
    by (rule Cons.IH)
  moreover have "read_nat (of_char c - 48) s = (of_char c - 48) * 10 ^ length s + read_nat 0 s" by (rule Cons.IH)
  ultimately show ?case by (simp add: algebra_simps)
qed simp

lemma length_show_nat: "n < 10 ^ k \<Longrightarrow> 0 < k \<Longrightarrow> length (show_nat n) \<le> k"
proof (induction n arbitrary: k rule: show_nat.induct)
  case (1 n)
  show ?case
  proof (cases "n < 10")
    case True
    with "1.prems" show ?thesis by (subst show_nat.simps) simp
  next
    case False
    then obtain k' where k: "k = Suc k'" "0 < k'" using "1.prems" by (cases k; cases "k - 1") auto
    then have "n div 10 < 10 ^ k'" using "1.prems" by (simp add: less_mult_imp_div_less mult.commute)
    then have "length (show_nat (n div 10)) \<le> k'" using "1.IH"[OF False] k by simp
    then show ?thesis using False k by (subst show_nat.simps) simp
  qed
qed

lemma pad_length: "n < 10 ^ k \<Longrightarrow> 0 < k \<Longrightarrow> length (pad k n) = k"
  using length_show_nat[of n k] by (simp add: pad_def)

lemma pad_read: "read_nat 0 (pad k n) = n"
  by (simp add: pad_def read_nat_zeros read_show_nat)

lemma digits_pad: "digits (pad k n)"
  using digits_show_nat[of n] by (auto simp: digits_def pad_def list_all_iff is_digit_def)

text \<open>Printing with \<open>k\<close> digits and reading back rounds to the nearest multiple of \<open>10^-k\<close>.\<close>

lemma ParseFloat_fmt_f:
  assumes "0 \<le> x"
  shows "ParseFloat (fmt_f k x) = fl (of_int (round_even (x * 10 ^ k)) / 10 ^ k)"
proof -
  let ?n = "nat (round_even (x * 10 ^ k))"
  have r0: "0 \<le> round_even (x * 10 ^ k)" using assms by (intro round_even_ge) simp
  have x: "\<not> x < 0" "\<bar>x\<bar> = x" using assms by simp_all
  define w where "w = show_nat (?n div 10 ^ k)"
  have dw: "digits w" unfolding w_def by (rule digits_show_nat)
  have w: "takeWhile (\<lambda>c. c \<noteq> CHR ''.'') w = w"
    using dw by (auto simp: digits_def list_all_iff dest: is_digit_char)
  have val: "of_nat ?n = (of_int (round_even (x * 10 ^ k)) :: real)" using r0 by simp
  show ?thesis
  proof (cases "k = 0")
    case True
    then have f: "fmt_f k x = w" using x by (simp add: fmt_f_def w_def)
    have sp: "sign_split w = (1, w)" using sign_split_digits[OF dw, of "[]"] by simp
    have "read_nat 0 w = ?n" using True by (simp add: w_def read_show_nat)
    then show ?thesis
      unfolding f ParseFloat_def sp Let_def prod.case w using dw True val by simp
  next
    case False
    define p where "p = pad k (?n mod 10 ^ k)"
    have f: "fmt_f k x = w @ CHR ''.'' # p" using x False by (simp add: fmt_f_def w_def p_def Let_def)
    have sp: "sign_split (w @ CHR ''.'' # p) = (1, w @ CHR ''.'' # p)" using sign_split_digits[OF dw] .
    have t: "takeWhile (\<lambda>c. c \<noteq> CHR ''.'') (w @ CHR ''.'' # p) = w"
      using dw by (auto simp: digits_def list_all_iff takeWhile_append dest: is_digit_char)
    have lp: "length p = k" unfolding p_def using False by (intro pad_length) simp_all
    have "digits (w @ p)" using dw digits_pad[of k "?n mod 10 ^ k"] by (simp add: digits_def p_def)
    moreover have "read_nat 0 (w @ p) = ?n div 10 ^ k * 10 ^ k + ?n mod 10 ^ k"
      using read_nat_acc[of "read_nat 0 w" p] lp
      by (simp add: read_nat_append w_def read_show_nat p_def pad_read)
    then have "read_nat 0 (w @ p) = ?n" by (simp only: div_mult_mod_eq)
    ultimately show ?thesis
      unfolding f ParseFloat_def sp Let_def prod.case t using lp val by simp
  qed
qed

end
