(* ===== verification/Orchestrator.thy ===== *)
theory Orchestrator
  imports Conformance GoFormat
begin

unbundle bit_operations_syntax

text \<open>
  The run life cycle of \<open>cmd/orchestrator/main.go\<close>: build, sandbox, health wait, conformance
  probe, fan-out of load shards, wait for the verdict, teardown. Redis, the docker CLI, the
  file system and the clock are outside the program: \<open>handle\<close> is a function from their answers
  to the trace of effects it performs. The answer to an effect may depend on its position in
  the trace; an effect takes a non-negative time of the environment's choosing, a sleep at
  least its duration.
\<close>

section \<open>Effects\<close>

datatype effect =
    HSet string "(string \<times> string) list"
  | OpenBundle string string \<comment> \<open>the two elements of the joined path\<close>
  | Docker "string list"
  | Health string
  | Conformance string
  | XAddLoad LoadShard
  | HGetStatus string
  | Sleep int

record answers =
  open_err :: "nat \<Rightarrow> string option"
  docker_res :: "nat \<Rightarrow> string \<times> bool"
  health_res :: "nat \<Rightarrow> int option"
  status_res :: "nat \<Rightarrow> string"
  lag :: "nat \<Rightarrow> nat"

record ostate =
  tr :: "effect list"
  clk :: int

definition slept :: "effect \<Rightarrow> int" where
  "slept e = (case e of Sleep d \<Rightarrow> max 0 d | _ \<Rightarrow> 0)"

definition perform :: "answers \<Rightarrow> effect \<Rightarrow> ostate \<Rightarrow> ostate" where
  "perform env e s = \<lparr>tr = tr s @ [e], clk = clk s + slept e + int (lag env (length (tr s)))\<rparr>"

definition Second :: int where "Second = 10 ^ 9"
definition Minute :: int where "Minute = 60 * Second"

record orch =
  o_dataDir :: string
  o_arenaNet :: string
  o_cpus :: string
  o_mem :: string
  o_pids :: string
  o_cores :: int
  o_botsPerShard :: int

section \<open>Operations\<close>

definition setRun :: "answers \<Rightarrow> string \<Rightarrow> (string \<times> string) list \<Rightarrow> ostate \<Rightarrow> ostate" where
  "setRun env runID kv = perform env (HSet (''run:'' @ runID) kv)"

definition fail :: "answers \<Rightarrow> string \<Rightarrow> string \<Rightarrow> ostate \<Rightarrow> ostate" where
  "fail env runID msg s =
     setRun env runID [(''status'', ''failed''), (''error'', msg), (''finished'', Itoa (clk s div Second))] s"

definition docker :: "answers \<Rightarrow> string list \<Rightarrow> ostate \<Rightarrow> ostate \<times> string \<times> bool" where
  "docker env args s = (perform env (Docker args) s, docker_res env (length (tr s)))"

definition tail :: "string \<Rightarrow> nat \<Rightarrow> string" where
  "tail s n =
     (let lines = Split (CHR 0x0A) (TrimSpace s);
          lines1 = (if length lines > n then drop (length lines - n) lines else lines)
      in Join lines1 [CHR 0x0A])"

definition pinCore :: "string \<Rightarrow> int \<Rightarrow> string" where
  "pinCore submissionID cores =
     Itoa (go_rem (fold (\<lambda>c h. i64 (h * 31 + c) AND 0x7fffffff) (runes submissionID) 0) cores)"

definition teardown :: "answers \<Rightarrow> string \<Rightarrow> string \<Rightarrow> ostate \<Rightarrow> ostate" where
  "teardown env name img s =
     (let s1 = fst (docker env [''rm'', ''-f'', name] s)
      in fst (docker env [''rmi'', ''-f'', img] s1))"

lemma clk_perform: "clk s + slept e \<le> clk (perform env e s)"
  by (simp add: perform_def)

function wait_loop :: "answers \<Rightarrow> string \<Rightarrow> int \<Rightarrow> ostate \<Rightarrow> ostate \<times> bool" where
  "wait_loop env target deadline s =
     (if clk s < deadline then
        let s1 = perform env (Health (target @ ''/health'')) s
        in if health_res env (length (tr s)) = Some 200 then (s1, True)
           else wait_loop env target deadline (perform env (Sleep (500 * 10 ^ 6)) s1)
      else (s, False))"
  by pat_completeness auto
termination
proof (relation "measure (\<lambda>(env, target, deadline, s). nat (deadline - clk s))")
  fix env target deadline s s1
  assume "clk (s :: ostate) < deadline" "s1 = perform env (Health (target @ ''/health'')) s"
  then have "clk s < clk (perform env (Sleep (500 * 10 ^ 6)) s1)"
    using clk_perform[of s1 "Sleep (500 * 10 ^ 6)" env] clk_perform[of s "Health (target @ ''/health'')" env]
    by (simp add: slept_def)
  with \<open>clk s < deadline\<close>
  show "((env, target, deadline, perform env (Sleep (500 * 10 ^ 6)) s1), env, target, deadline, s)
    \<in> measure (\<lambda>(env, target, deadline, s). nat (deadline - clk s))"
    by simp
qed simp

declare wait_loop.simps [simp del]

definition waitHealthy :: "answers \<Rightarrow> string \<Rightarrow> int \<Rightarrow> ostate \<Rightarrow> ostate \<times> bool" where
  "waitHealthy env target timeout s = wait_loop env target (clk s + timeout) s"

section \<open>Fanning out\<close>

definition shard_count :: "int \<Rightarrow> int \<Rightarrow> int" where
  "shard_count bots perShard = \<lceil>fl (float64_of bots / float64_of perShard)\<rceil>"

definition shard_of :: "RunJob \<Rightarrow> string \<Rightarrow> int \<Rightarrow> int \<Rightarrow> int \<Rightarrow> LoadShard" where
  "shard_of job target shards now i =
     (let bots = go_quot (rj_Bots job) shards;
          bots1 = (if i < go_rem (rj_Bots job) shards then bots + 1 else bots)
      in \<lparr>ls_RunID = rj_RunID job, ls_Target = target, ls_Shard = i, ls_TotalShards = shards,
          ls_Bots = bots1, ls_DurationS = rj_DurationS job, ls_MaxRPS = go_quot (rj_MaxRPS job) shards,
          ls_Seed = i64 (now + i * 7919)\<rparr>)"

definition dispatch :: "answers \<Rightarrow> RunJob \<Rightarrow> string \<Rightarrow> int \<Rightarrow> ostate \<Rightarrow> ostate" where
  "dispatch env job target shards s =
     fold (\<lambda>i s. perform env (XAddLoad (shard_of job target shards (clk s) (int i))) s) [0..<nat shards] s"

section \<open>Waiting for the verdict\<close>

function poll_loop :: "answers \<Rightarrow> string \<Rightarrow> int \<Rightarrow> ostate \<Rightarrow> ostate \<times> bool" where
  "poll_loop env runID deadline s =
     (if clk s < deadline then
        let s1 = perform env (Sleep (2 * Second)) s;
            s2 = perform env (HGetStatus (''run:'' @ runID)) s1;
            status = status_res env (length (tr s1))
        in if status = ''done'' \<or> status = ''failed'' then (s2, True)
           else poll_loop env runID deadline s2
      else (s, False))"
  by pat_completeness auto
termination
proof (relation "measure (\<lambda>(env, runID, deadline, s). nat (deadline - clk s))")
  fix env runID deadline s s1 s2 st
  assume "clk (s :: ostate) < deadline" "s1 = perform env (Sleep (2 * Second)) s"
    "s2 = perform env (HGetStatus (''run:'' @ runID)) s1"
  then have "clk s < clk s2"
    using clk_perform[of s "Sleep (2 * Second)" env] clk_perform[of s1 "HGetStatus (''run:'' @ runID)" env]
    by (simp add: slept_def Second_def)
  with \<open>clk s < deadline\<close>
  show "((env, runID, deadline, s2), env, runID, deadline, s)
    \<in> measure (\<lambda>(env, runID, deadline, s). nat (deadline - clk s))"
    by simp
qed simp

declare poll_loop.simps [simp del]

section \<open>The handler\<close>

definition run_args :: "orch \<Rightarrow> RunJob \<Rightarrow> string \<Rightarrow> string \<Rightarrow> string list" where
  "run_args c job name img =
     [''run'', ''-d'', ''--name'', name, ''--network'', o_arenaNet c, ''--cpus'', o_cpus c,
      ''--cpuset-cpus'', pinCore (rj_SubmissionID job) (o_cores c), ''--memory'', o_mem c,
      ''--pids-limit'', o_pids c, ''--cap-drop'', ''ALL'', ''--security-opt'', ''no-new-privileges:true'',
      ''--read-only'', ''--tmpfs'', ''/tmp:rw,size=64m'', ''--label'', ''arena.run='' @ rj_RunID job, img]"

text \<open>The load phase: dispatch, then wait until the ingester's verdict or the deadline.\<close>

definition load_phase :: "orch \<Rightarrow> answers \<Rightarrow> RunJob \<Rightarrow> string \<Rightarrow> ostate \<Rightarrow> ostate" where
  "load_phase c env job target s =
     (let shards = shard_count (rj_Bots job) (o_botsPerShard c);
          s1 = setRun env (rj_RunID job) [(''status'', ''load''), (''total_shards'', Itoa shards)] s;
          s2 = dispatch env job target shards s1;
          deadline = clk s2 + i64 (i64 (rj_DurationS job * Second) + 2 * Minute);
          (s3, seen) = poll_loop env (rj_RunID job) deadline s2
      in if seen then s3 else fail env (rj_RunID job) ''run timed out waiting for telemetry verdict'' s3)"

text \<open>What runs between the start of the container and the deferred teardown.\<close>

definition sandboxed ::
  "(string \<Rightarrow> string) \<Rightarrow> 'w post \<Rightarrow> 'w delete \<Rightarrow> 'w \<Rightarrow> orch \<Rightarrow> answers \<Rightarrow> RunJob \<Rightarrow> string \<Rightarrow>
   string \<times> bool \<Rightarrow> ostate \<Rightarrow> ostate" where
  "sandboxed quote post del w c env job name started s =
     (let runID = rj_RunID job; target = ''http://'' @ name @ '':8080''
      in if snd started then fail env runID (''sandbox start failed:'' @ [CHR 0x0A] @ tail (fst started) 15) s
         else
           let (s1, healthy) = waitHealthy env target (45 * Second) s
           in if \<not> healthy then
                let (s2, logs, err) = docker env [''logs'', ''--tail'', ''15'', name] s1
                in fail env runID (''engine never became healthy'' @ [CHR 0x0A] @ tail logs 15) s2
              else
                let s2 = setRun env runID [(''status'', ''conformance'')] s1;
                    (confScore, detail) = conformance quote post del w;
                    s3 = perform env (Conformance target) s2;
                    s4 = setRun env runID [(''conformance_score'', fmt_f 4 confScore), (''conformance_detail'', detail)] s3
                in load_phase c env job target s4)"

definition handle ::
  "(string \<Rightarrow> string) \<Rightarrow> 'w post \<Rightarrow> 'w delete \<Rightarrow> 'w \<Rightarrow> orch \<Rightarrow> answers \<Rightarrow> RunJob \<Rightarrow> ostate \<Rightarrow> ostate" where
  "handle quote post del w c env job s =
     (let runID = rj_RunID job;
          img = ''arena/sub:'' @ runID;
          name = ''arena-sub-'' @ runID;
          s1 = setRun env runID [(''status'', ''building''), (''started'', Itoa (clk s div Second))] s;
          s2 = perform env (OpenBundle (o_dataDir c) (rj_SubmissionID job @ ''.tar.gz'')) s1
      in case open_err env (length (tr s1)) of
           Some e \<Rightarrow> fail env runID (''bundle missing: '' @ e) s2
         | None \<Rightarrow>
             let (s3, out, err) = docker env [''build'', ''-t'', img, ''-''] s2
             in if err then fail env runID (''image build failed:'' @ [CHR 0x0A] @ tail out 15) s3
                else
                  let (s4, started) = docker env (run_args c job name img) s3
                  in teardown env name img (sandboxed quote post del w c env job name started s4))"

section \<open>Core pinning\<close>

lemma and_31: "x AND 0x7fffffff = x mod 2 ^ 31" for x :: int
  using take_bit_eq_mask[of 31 x] by (simp add: take_bit_eq_mod mask_eq_exp_minus_1)

lemma pin_hash_range: "0 \<le> h \<Longrightarrow> 0 \<le> fold (\<lambda>c h. i64 (h * 31 + c) AND 0x7fffffff) cs h"
  by (induction cs arbitrary: h) (simp_all only: fold_simps and_31, simp)

text \<open>
  Pinning is always to a core that exists: for every submission id (any bytes, valid
  UTF-8 or not) the \<open>cpuset\<close> argument is the decimal number of a core in \<open>[0, cores)\<close>.
\<close>

theorem pinCore_in_range:
  assumes "0 < cores"
  shows "\<exists>k. 0 \<le> k \<and> k < cores \<and> pinCore submissionID cores = Itoa k"
  unfolding pinCore_def go_rem_nonneg[OF pin_hash_range[OF order_refl]] using assms pos_mod_sign pos_mod_bound by blast

theorem pinCore_in_range_witness:
  "\<exists>k. 0 \<le> k \<and> k < (4 :: int) \<and> pinCore ''s-9f2'' 4 = Itoa k"
  by (rule pinCore_in_range) simp

section \<open>Shard arithmetic\<close>

lemma shard_count_exact:
  assumes "0 < b" "b < 2 ^ 53" "0 < p" "p < 2 ^ 53"
  shows "shard_count b p = \<lceil>of_int b / of_int p :: real\<rceil>"
proof -
  let ?x = "of_int b / of_int p :: real" and ?n = "\<lceil>of_int b / of_int p :: real\<rceil>"
  have x: "0 < ?x" using assms by simp
  have n: "1 \<le> ?n" using x by linarith
  have "?x \<le> of_int b" using assms by (simp add: field_simps)
  then have nb: "?n \<le> b" by (simp add: ceiling_le_iff)
  have "fl ?x \<le> fl (of_int ?n)" by (rule fl_mono) (rule le_of_int_ceiling)
  moreover have "\<bar>?n\<bar> < 2 ^ 53" using n nb assms(2) by linarith
  ultimately have up: "fl ?x \<le> of_int ?n" by (simp only: fl_of_int)
  have "of_int ?n - 1 < ?x" by linarith
  then have "of_int p * (?n - 1) < b" using assms(3) by (simp add: field_simps flip: of_int_mult of_int_less_iff)
  then have "p * (?n - 1) + 1 \<le> b" by simp
  then have "real_of_int (p * (?n - 1) + 1) \<le> of_int b" by (simp only: of_int_le_iff)
  then have "real_of_int (p * (?n - 1) + 1) / of_int p \<le> ?x" using assms(3) by (intro divide_right_mono) simp_all
  then have gap: "of_int (?n - 1) + 1 / of_int p \<le> ?x" using assms(3) by (simp add: add_divide_distrib)
  have "\<bar>fl ?x - ?x\<bar> \<le> ?x / 2 ^ 53" using fl_err_pos[OF x] .
  moreover have "?x / 2 ^ 53 < 1 / of_int p" using assms by (simp add: field_simps)
  ultimately have "of_int (?n - 1) < fl ?x" using gap by linarith
  with up have "\<lceil>fl ?x\<rceil> = ?n" by (intro ceiling_unique) simp_all
  then show ?thesis using assms by (simp add: shard_count_def float64_of_exact)
qed

lemma shard_count_bounds:
  assumes "0 < b" "b < 2 ^ 53" "0 < p" "p < 2 ^ 53"
  defines "k \<equiv> shard_count b p"
  shows "1 \<le> k" "k \<le> b" "b \<le> k * p"
proof -
  have k: "k = \<lceil>of_int b / of_int p :: real\<rceil>" unfolding k_def using assms by (intro shard_count_exact)
  have "0 < of_int b / (of_int p :: real)" using assms by simp
  then show "1 \<le> k" unfolding k by linarith
  have "of_int b / of_int p \<le> (of_int b :: real)" using assms by (simp add: field_simps)
  then show "k \<le> b" unfolding k by (simp add: ceiling_le_iff)
  have "of_int b / of_int p \<le> (of_int k :: real)" unfolding k by (rule le_of_int_ceiling)
  then have "real_of_int b \<le> of_int (k * p)" using assms(3) by (simp add: field_simps)
  then show "b \<le> k * p" by (simp only: of_int_le_iff)
qed

lemma share_sum: "0 \<le> r \<Longrightarrow> r \<le> int n \<Longrightarrow>
  sum_list (map (\<lambda>i. if int i < r then q + 1 else q) [0..<n]) = int n * q + r"
proof (induction n arbitrary: r)
  case (Suc n)
  show ?case
  proof (cases "r \<le> int n")
    case True
    then show ?thesis using Suc by (simp add: algebra_simps)
  next
    case False
    then have r: "r = int n + 1" using Suc.prems by simp
    have "map (\<lambda>i. if int i < r then q + 1 else q) [0..<Suc n] = map (\<lambda>i. q + 1) [0..<Suc n]"
      using r by (intro map_cong) auto
    then show ?thesis unfolding r by (simp only: sum_list_triv) (simp add: algebra_simps)
  qed
qed simp

text \<open>The shards a dispatch must make of a job, and what it may lose of the rate budget.\<close>

definition partition_ok :: "RunJob \<Rightarrow> int \<Rightarrow> LoadShard list \<Rightarrow> bool" where
  "partition_ok job per ls \<longleftrightarrow>
     sum_list (map ls_Bots ls) = rj_Bots job \<and>
     (\<forall>l \<in> set ls. 1 \<le> ls_Bots l \<and> ls_Bots l \<le> per \<and> ls_TotalShards l = int (length ls) \<and>
        ls_RunID l = rj_RunID job \<and> ls_DurationS l = rj_DurationS job) \<and>
     map ls_Shard ls = map int [0..<length ls] \<and>
     sum_list (map ls_MaxRPS ls) \<le> rj_MaxRPS job \<and>
     rj_MaxRPS job < sum_list (map ls_MaxRPS ls) + int (length ls)"

lemma shard_of_simps:
  "ls_RunID (shard_of job target k now i) = rj_RunID job" "ls_Shard (shard_of job target k now i) = i"
  "ls_TotalShards (shard_of job target k now i) = k" "ls_DurationS (shard_of job target k now i) = rj_DurationS job"
  "0 \<le> rj_Bots job \<Longrightarrow> ls_Bots (shard_of job target k now i) =
     (if i < rj_Bots job mod k then rj_Bots job div k + 1 else rj_Bots job div k)"
  "0 \<le> rj_MaxRPS job \<Longrightarrow> ls_MaxRPS (shard_of job target k now i) = rj_MaxRPS job div k"
  by (simp_all add: shard_of_def Let_def go_rem_nonneg go_quot_def)

lemma share_le:
  assumes "0 < k" "b \<le> k * p" "0 \<le> i" "i < b mod k"
  shows "b div k + 1 \<le> (p :: int)"
proof (rule ccontr)
  assume "\<not> b div k + 1 \<le> p"
  then have "k * p \<le> k * (b div k)" using assms(1) by simp
  then show False using assms mult_div_mod_eq[of k b] by linarith
qed

lemma shards_partition:
  assumes "0 < rj_Bots job" "rj_Bots job < 2 ^ 53" "0 < per" "per < 2 ^ 53" "0 \<le> rj_MaxRPS job"
    "ls = map (\<lambda>i. shard_of job target (shard_count (rj_Bots job) per) (nows i) (int i))
       [0..<nat (shard_count (rj_Bots job) per)]"
  shows "partition_ok job per ls"
proof -
  let ?b = "rj_Bots job" and ?m = "rj_MaxRPS job"
  define k where "k = shard_count ?b per"
  have k: "1 \<le> k" "k \<le> ?b" "?b \<le> k * per" unfolding k_def using assms shard_count_bounds by blast+
  have ls: "ls = map (\<lambda>i. shard_of job target k (nows i) (int i)) [0..<nat k]" by (simp add: assms(6) k_def)
  have "map ls_Bots ls = map (\<lambda>i. if int i < ?b mod k then ?b div k + 1 else ?b div k) [0..<nat k]"
    using assms(1) by (simp add: ls shard_of_simps comp_def)
  moreover have "?b mod k \<le> int (nat k)" using k pos_mod_bound[of k ?b] by linarith
  ultimately have sum: "sum_list (map ls_Bots ls) = ?b"
    using share_sum[of "?b mod k" "nat k" "?b div k"] k by (simp add: mult_div_mod_eq)
  have "map ls_MaxRPS ls = map (\<lambda>i. ?m div k) [0..<nat k]"
    using assms(5) by (simp add: ls shard_of_simps comp_def)
  then have rps: "sum_list (map ls_MaxRPS ls) = k * (?m div k)" using k by (simp add: sum_list_triv)
  have "1 \<le> ?b div k" using k by (simp add: pos_imp_zdiv_pos_iff int_one_le_iff_zero_less)
  moreover have "?b div k \<le> per"
    using k zdiv_mono1[of ?b "k * per" k] by simp
  ultimately have each: "\<forall>l \<in> set ls. 1 \<le> ls_Bots l \<and> ls_Bots l \<le> per"
    using share_le[of k ?b per "int i" for i] k assms(1) by (auto simp: ls shard_of_simps)
  have "k * (?m div k) \<le> ?m \<and> ?m < k * (?m div k) + k"
    using k mult_div_mod_eq[of k ?m] pos_mod_bound[of k ?m] pos_mod_sign[of k ?m] by linarith
  with sum rps each show ?thesis
    using k by (auto simp: partition_ok_def ls shard_of_simps comp_def)
qed

section \<open>The trace\<close>

definition loads :: "effect list \<Rightarrow> LoadShard list" where
  "loads es = concat (map (\<lambda>e. case e of XAddLoad l \<Rightarrow> [l] | _ \<Rightarrow> []) es)"

definition status_writes :: "effect list \<Rightarrow> string list" where
  "status_writes es =
     concat (map (\<lambda>e. case e of HSet k kv \<Rightarrow> map snd (filter (\<lambda>(f, v). f = ''status'') kv) | _ \<Rightarrow> []) es)"

definition starts :: "effect \<Rightarrow> bool" where
  "starts e = (case e of Docker args \<Rightarrow> args \<noteq> [] \<and> hd args = ''run'' | _ \<Rightarrow> False)"

definition removes :: "effect \<Rightarrow> bool" where
  "removes e = (case e of Docker args \<Rightarrow> args \<noteq> [] \<and> (hd args = ''rm'' \<or> hd args = ''rmi'') | _ \<Rightarrow> False)"

lemma trace_fun_simps [simp]:
  "loads [] = []" "loads (es @ es') = loads es @ loads es'" "loads [XAddLoad l] = [l]"
  "loads [HSet k kv] = []" "loads [Docker a] = []" "loads [OpenBundle d n] = []" "loads [Conformance t] = []"
  "status_writes [] = []" "status_writes (es @ es') = status_writes es @ status_writes es'"
  "status_writes [Docker a] = []" "status_writes [XAddLoad l] = []" "status_writes [OpenBundle d n] = []"
  "status_writes [Conformance t] = []"
  "status_writes [HSet k kv] = map snd (filter (\<lambda>(f, v). f = ''status'') kv)"
  by (simp_all add: loads_def status_writes_def)

text \<open>Effects of the two waiting loops: they touch neither the run record nor containers.\<close>

definition waiting :: "effect \<Rightarrow> bool" where
  "waiting e = (case e of Health t \<Rightarrow> True | Sleep d \<Rightarrow> True | HGetStatus k \<Rightarrow> True | _ \<Rightarrow> False)"

lemma waiting_silent:
  "\<forall>e \<in> set es. waiting e \<Longrightarrow> loads es = [] \<and> status_writes es = [] \<and> (\<forall>e \<in> set es. \<not> starts e \<and> \<not> removes e)"
proof (induction es)
  case (Cons e es)
  then show ?case
    by (cases e) (simp_all add: waiting_def loads_def status_writes_def starts_def removes_def)
qed simp

definition extends :: "ostate \<Rightarrow> ostate \<Rightarrow> effect list \<Rightarrow> bool" where
  "extends s s' es \<longleftrightarrow> tr s' = tr s @ es"

lemma extends_intros [intro]:
  "extends s (perform env e s) [e]" "extends s (setRun env r kv s) [HSet (''run:'' @ r) kv]"
  "extends s (fst (docker env args s)) [Docker args]"
  by (simp_all add: extends_def perform_def setRun_def docker_def)

lemma extends_trans: "extends s s' es \<Longrightarrow> extends s' s'' es' \<Longrightarrow> extends s s'' (es @ es')"
  by (simp add: extends_def)

lemma wait_loop_extends: "\<exists>es. extends s (fst (wait_loop env target d s)) es \<and> (\<forall>e \<in> set es. waiting e)"
proof (induction env target d s rule: wait_loop.induct)
  case (1 env target d s)
  let ?s1 = "perform env (Health (target @ ''/health'')) s"
  have h: "extends s ?s1 [Health (target @ ''/health'')]" by blast
  have z: "extends ?s1 (perform env (Sleep (500 * 10 ^ 6)) ?s1) [Sleep (500 * 10 ^ 6)]" by blast
  show ?case
  proof (cases "clk s < d \<and> health_res env (length (tr s)) \<noteq> Some 200")
    case True
    then have "wait_loop env target d s = wait_loop env target d (perform env (Sleep (500 * 10 ^ 6)) ?s1)"
      by (subst wait_loop.simps) (simp add: Let_def)
    with "1.IH"[OF _ refl] True obtain es where
      "extends (perform env (Sleep (500 * 10 ^ 6)) ?s1) (fst (wait_loop env target d s)) es" "\<forall>e \<in> set es. waiting e"
      by auto
    moreover from this have "\<forall>e \<in> set ([Health (target @ ''/health'')] @ [Sleep (500 * 10 ^ 6)] @ es). waiting e"
      by (simp add: waiting_def)
    ultimately show ?thesis using extends_trans[OF h extends_trans[OF z]] by blast
  next
    case False
    then have "fst (wait_loop env target d s) = s \<or> fst (wait_loop env target d s) = ?s1"
      by (subst (1 2) wait_loop.simps) (auto simp: Let_def)
    moreover have "extends s s []" "\<forall>e \<in> set [Health (target @ ''/health'')]. waiting e"
      by (simp_all add: extends_def waiting_def)
    ultimately show ?thesis using h by (metis empty_iff list.set(1))
  qed
qed

lemma poll_loop_extends: "\<exists>es. extends s (fst (poll_loop env r d s)) es \<and> (\<forall>e \<in> set es. waiting e)"
proof (induction env r d s rule: poll_loop.induct)
  case (1 env r d s)
  let ?s1 = "perform env (Sleep (2 * Second)) s"
  let ?s2 = "perform env (HGetStatus (''run:'' @ r)) ?s1"
  let ?st = "status_res env (length (tr ?s1))"
  have z: "extends s ?s1 [Sleep (2 * Second)]" by blast
  have h: "extends ?s1 ?s2 [HGetStatus (''run:'' @ r)]" by blast
  show ?case
  proof (cases "clk s < d \<and> ?st \<noteq> ''done'' \<and> ?st \<noteq> ''failed''")
    case True
    then have "poll_loop env r d s = poll_loop env r d ?s2"
      by (subst poll_loop.simps) (simp add: Let_def)
    with "1.IH"[OF _ refl refl refl] True obtain es where
      "extends ?s2 (fst (poll_loop env r d s)) es" "\<forall>e \<in> set es. waiting e"
      by auto
    moreover from this have "\<forall>e \<in> set ([Sleep (2 * Second)] @ [HGetStatus (''run:'' @ r)] @ es). waiting e"
      by (simp add: waiting_def)
    ultimately show ?thesis using extends_trans[OF z extends_trans[OF h]] by blast
  next
    case False
    then have "fst (poll_loop env r d s) = s \<or> fst (poll_loop env r d s) = ?s2"
      by (subst (1 2) poll_loop.simps) (auto simp: Let_def)
    moreover have "extends s s []" "\<forall>e \<in> set ([Sleep (2 * Second)] @ [HGetStatus (''run:'' @ r)]). waiting e"
      by (simp_all add: extends_def waiting_def)
    ultimately show ?thesis using extends_trans[OF z h] by (metis empty_iff list.set(1))
  qed
qed

lemma dispatch_extends:
  "\<exists>nows. extends s (dispatch env job target k s)
     (map (\<lambda>i. XAddLoad (shard_of job target k (nows i) (int i))) [0..<nat k])"
proof -
  have "\<exists>nows. extends s (fold (\<lambda>i s. perform env (XAddLoad (shard_of job target k (clk s) (int i))) s) [0..<n] s)
      (map (\<lambda>i. XAddLoad (shard_of job target k (nows i) (int i))) [0..<n])" for n
  proof (induction n)
    case 0
    show ?case by (simp add: extends_def)
  next
    case (Suc n)
    let ?f = "\<lambda>n. fold (\<lambda>i s. perform env (XAddLoad (shard_of job target k (clk s) (int i))) s) [0..<n] s"
    from Suc obtain nows where n: "extends s (?f n) (map (\<lambda>i. XAddLoad (shard_of job target k (nows i) (int i))) [0..<n])"
      by blast
    define c where "c = clk (?f n)"
    have "extends (?f n) (?f (Suc n)) [XAddLoad (shard_of job target k c (int n))]" by (auto simp: c_def)
    from extends_trans[OF n this]
    have e: "extends s (?f (Suc n)) (map (\<lambda>i. XAddLoad (shard_of job target k (nows i) (int i))) [0..<n] @
        [XAddLoad (shard_of job target k c (int n))])" .
    have "map (\<lambda>i. XAddLoad (shard_of job target k ((nows(n := c)) i) (int i))) [0..<Suc n] =
        map (\<lambda>i. XAddLoad (shard_of job target k (nows i) (int i))) [0..<n] @ [XAddLoad (shard_of job target k c (int n))]"
      by simp
    with e show ?case by metis
  qed
  then show ?thesis by (simp add: dispatch_def)
qed

lemma loads_map: "loads (map (\<lambda>i. XAddLoad (f i)) xs) = map f xs"
  and status_map: "status_writes (map (\<lambda>i. XAddLoad (f i)) xs) = []"
  by (induction xs) (simp_all add: loads_def status_writes_def)

text \<open>What each part of the handler contributes to the trace.\<close>

definition tame :: "effect list \<Rightarrow> bool" where
  "tame es \<longleftrightarrow> (\<forall>e \<in> set es. \<not> starts e \<and> \<not> removes e)"

lemma tame_append [simp]: "tame [] = True" "tame (es @ es') \<longleftrightarrow> tame es \<and> tame es'" "tame [HSet k kv]" "tame [Conformance t]"
  "tame [XAddLoad l]" "tame [OpenBundle d n]"
  by (auto simp: tame_def starts_def removes_def)

lemma tame_docker: "tame [Docker (''logs'' # as)]" "tame [Docker (''build'' # as)]"
  by (simp_all add: tame_def starts_def removes_def)

text \<open>\<open>phase s s' L V\<close>: from \<open>s\<close> to \<open>s'\<close> the shards \<open>L\<close> are dispatched and the statuses \<open>V\<close> written, no container starts or goes.\<close>

definition phase :: "ostate \<Rightarrow> ostate \<Rightarrow> LoadShard list \<Rightarrow> string list \<Rightarrow> bool" where
  "phase s s' L V \<longleftrightarrow> (\<exists>es. extends s s' es \<and> loads es = L \<and> status_writes es = V \<and> tame es)"

lemma phase_trans: "phase s s' L V \<Longrightarrow> phase s' s'' L' V' \<Longrightarrow> phase s s'' (L @ L') (V @ V')"
proof -
  assume "phase s s' L V" "phase s' s'' L' V'"
  then obtain es es' where "extends s s' es" "loads es = L" "status_writes es = V" "tame es"
    "extends s' s'' es'" "loads es' = L'" "status_writes es' = V'" "tame es'"
    unfolding phase_def by blast
  then show ?thesis unfolding phase_def using extends_trans[of s s' es s'' es']
    by (intro exI[of _ "es @ es'"]) simp
qed

lemma phaseI: "extends s s' es \<Longrightarrow> tame es \<Longrightarrow> phase s s' (loads es) (status_writes es)"
  by (auto simp: phase_def)

lemma phase_setRun: "phase s (setRun env r kv s) [] (map snd (filter (\<lambda>(f, v). f = ''status'') kv))"
  using phaseI[OF extends_intros(2)[of s env r kv]] by simp

lemma phase_perform: "tame [e] \<Longrightarrow> phase s (perform env e s) (loads [e]) (status_writes [e])"
  using phaseI[OF extends_intros(1)[of s env e]] by simp

lemma phase_docker: "tame [Docker args] \<Longrightarrow> phase s (fst (docker env args s)) [] []"
  using phaseI[OF extends_intros(3)[of s env args]] by simp

lemma phase_fail: "phase s (fail env r msg s) [] [''failed'']"
  unfolding fail_def
  using phase_setRun[of s env r "[(''status'', ''failed''), (''error'', msg), (''finished'', Itoa (clk s div Second))]"]
  by simp

lemma phase_wait: "phase s (fst (waitHealthy env target t s)) [] []"
  using wait_loop_extends[of s env target "clk s + t"] waiting_silent
  unfolding waitHealthy_def phase_def tame_def by metis

lemma phase_poll: "phase s (fst (poll_loop env r d s)) [] []"
  using poll_loop_extends[of s env r d] waiting_silent unfolding phase_def tame_def by metis

lemma phase_dispatch:
  "\<exists>nows. phase s (dispatch env job target k s) (map (\<lambda>i. shard_of job target k (nows i) (int i)) [0..<nat k]) []"
proof -
  obtain nows where e: "extends s (dispatch env job target k s)
      (map (\<lambda>i. XAddLoad (shard_of job target k (nows i) (int i))) [0..<nat k])"
    using dispatch_extends by blast
  have "tame (map (\<lambda>i. XAddLoad (shard_of job target k (nows i) (int i))) [0..<nat k])"
    by (auto simp: tame_def starts_def removes_def)
  from phaseI[OF e this] show ?thesis by (auto simp: loads_map status_map)
qed

text \<open>The load phase writes \<open>load\<close>, dispatches the shards, and writes \<open>failed\<close> only at the timeout.\<close>

definition job_shards :: "orch \<Rightarrow> RunJob \<Rightarrow> string \<Rightarrow> (nat \<Rightarrow> int) \<Rightarrow> LoadShard list" where
  "job_shards c job target nows =
     (let k = shard_count (rj_Bots job) (o_botsPerShard c)
      in map (\<lambda>i. shard_of job target k (nows i) (int i)) [0..<nat k])"

lemma phase_load:
  "\<exists>nows. phase s (load_phase c env job target s) (job_shards c job target nows) [''load''] \<or>
     phase s (load_phase c env job target s) (job_shards c job target nows) [''load'', ''failed'']"
proof -
  let ?k = "shard_count (rj_Bots job) (o_botsPerShard c)" and ?r = "rj_RunID job"
  define s1 where "s1 = setRun env ?r [(''status'', ''load''), (''total_shards'', Itoa ?k)] s"
  define s2 where "s2 = dispatch env job target ?k s1"
  define d where "d = clk s2 + i64 (i64 (rj_DurationS job * Second) + 2 * Minute)"
  define s3 where "s3 = fst (poll_loop env ?r d s2)"
  have "phase s s1 [] [''load'']"
    unfolding s1_def using phase_setRun[of s env ?r "[(''status'', ''load''), (''total_shards'', Itoa ?k)]"] by simp
  moreover obtain nows where "phase s1 s2 (job_shards c job target nows) []"
    unfolding s2_def job_shards_def Let_def using phase_dispatch by blast
  ultimately have "phase s s2 (job_shards c job target nows) [''load'']" using phase_trans by fastforce
  then have p3: "phase s s3 (job_shards c job target nows) [''load'']"
    using phase_trans[OF _ phase_poll[of s2 env ?r d]] unfolding s3_def by fastforce
  have "load_phase c env job target s =
      (if snd (poll_loop env ?r d s2) then s3 else fail env ?r ''run timed out waiting for telemetry verdict'' s3)"
    by (simp add: load_phase_def s1_def s2_def s3_def d_def Let_def split_beta)
  then show ?thesis using p3 phase_trans[OF p3 phase_fail] by (metis append_Cons append_Nil append_Nil2)
qed

text \<open>The whole time in the sandbox: the probe ran and the load phase followed, or the run failed before.\<close>

lemma phase_sandboxed:
  defines "target \<equiv> \<lambda>name. ''http://'' @ name @ '':8080''"
  shows "phase s (sandboxed quote post del w c env job name started s) [] [''failed''] \<or>
    (\<exists>nows V. phase s (sandboxed quote post del w c env job name started s) (job_shards c job (target name) nows)
       ([''conformance'', ''load''] @ V) \<and> (V = [] \<or> V = [''failed'']))"
proof (cases "snd started")
  case True
  then show ?thesis using phase_fail by (simp add: sandboxed_def)
next
  case started: False
  let ?r = "rj_RunID job" and ?t = "target name"
  define s1 where "s1 = fst (waitHealthy env ?t (45 * Second) s)"
  have p1: "phase s s1 [] []" unfolding s1_def by (rule phase_wait)
  show ?thesis
  proof (cases "snd (waitHealthy env ?t (45 * Second) s)")
    case False
    define s2 where "s2 = fst (docker env [''logs'', ''--tail'', ''15'', name] s1)"
    have p2: "phase s1 s2 [] []" unfolding s2_def by (rule phase_docker) (rule tame_docker)
    have "\<exists>msg. sandboxed quote post del w c env job name started s = fail env ?r msg s2"
      using started False by (auto simp: sandboxed_def s1_def s2_def target_def Let_def split_beta)
    then show ?thesis using phase_trans[OF phase_trans[OF p1 p2] phase_fail] by (metis append_Nil)
  next
    case True
    obtain score detail where sd: "conformance quote post del w = (score, detail)" by fastforce
    define s2 where "s2 = setRun env ?r [(''status'', ''conformance'')] s1"
    define s3 where "s3 = perform env (Conformance ?t) s2"
    define s4 where "s4 = setRun env ?r [(''conformance_score'', fmt_f 4 score), (''conformance_detail'', detail)] s3"
    have "phase s1 s2 [] [''conformance'']" "phase s2 s3 [] []" "phase s3 s4 [] []"
      using phase_setRun[of s1 env ?r "[(''status'', ''conformance'')]"] phase_perform[of "Conformance ?t" s2 env]
        phase_setRun[of s3 env ?r "[(''conformance_score'', fmt_f 4 score), (''conformance_detail'', detail)]"]
      by (simp_all flip: s2_def s3_def s4_def)
    from phase_trans[OF p1 phase_trans[OF this(1) phase_trans[OF this(2,3)]]]
    have p4: "phase s s4 [] [''conformance'']" by simp
    have "sandboxed quote post del w c env job name started s = load_phase c env job ?t s4"
      using started True
      by (simp add: sandboxed_def s1_def s2_def s3_def s4_def sd target_def Let_def split_beta)
    then show ?thesis using phase_load[of s4 c env job ?t] phase_trans[OF p4]
      by (metis append_Cons append_Nil)
  qed
qed

text \<open>
  The shape of a handled job: it fails before the container is started, or the trace is a
  prologue, the start, the time in the sandbox, and the teardown.
\<close>

lemma handle_shape:
  defines "name \<equiv> \<lambda>job. ''arena-sub-'' @ rj_RunID job" and "img \<equiv> \<lambda>job. ''arena/sub:'' @ rj_RunID job"
  shows "phase s (handle quote post del w c env job s) [] [''building'', ''failed''] \<or>
    (\<exists>s3 s4 s5 started. phase s s3 [] [''building''] \<and>
       extends s3 s4 [Docker (run_args c job (name job) (img job))] \<and>
       s5 = sandboxed quote post del w c env job (name job) started s4 \<and>
       extends s5 (handle quote post del w c env job s)
         [Docker [''rm'', ''-f'', name job], Docker [''rmi'', ''-f'', img job]])"
proof -
  let ?r = "rj_RunID job" and ?name = "name job" and ?img = "img job"
  define s1 where "s1 = setRun env ?r [(''status'', ''building''), (''started'', Itoa (clk s div Second))] s"
  define s2 where "s2 = perform env (OpenBundle (o_dataDir c) (rj_SubmissionID job @ ''.tar.gz'')) s1"
  define s3 where "s3 = fst (docker env [''build'', ''-t'', ?img, ''-''] s2)"
  define s4 where "s4 = fst (docker env (run_args c job ?name ?img) s3)"
  define started where "started = snd (docker env (run_args c job ?name ?img) s3)"
  define s5 where "s5 = sandboxed quote post del w c env job ?name started s4"
  have "phase s s1 [] [''building'']"
    using phase_setRun[of s env ?r "[(''status'', ''building''), (''started'', Itoa (clk s div Second))]"]
    by (simp flip: s1_def)
  moreover have "phase s1 s2 [] []"
    using phase_perform[of "OpenBundle (o_dataDir c) (rj_SubmissionID job @ ''.tar.gz'')" s1 env] by (simp flip: s2_def)
  ultimately have p2: "phase s s2 [] [''building'']" using phase_trans by fastforce
  have "phase s2 s3 [] []" unfolding s3_def by (rule phase_docker) (rule tame_docker)
  then have p3: "phase s s3 [] [''building'']" using phase_trans[OF p2] by fastforce
  have e: "extends s3 s4 [Docker (run_args c job ?name ?img)]" unfolding s4_def by blast
  have t: "extends s5 (teardown env ?name ?img s5) [Docker [''rm'', ''-f'', ?name], Docker [''rmi'', ''-f'', ?img]]"
    by (simp add: teardown_def extends_def docker_def perform_def Let_def)
  consider (missing) msg where "handle quote post del w c env job s = fail env ?r msg s2"
    | (build) msg where "handle quote post del w c env job s = fail env ?r msg s3"
    | (run) "handle quote post del w c env job s = teardown env ?name ?img s5"
    by (cases "open_err env (length (tr s1))"; cases "snd (snd (docker env [''build'', ''-t'', ?img, ''-''] s2))")
       (auto simp: handle_def s1_def s2_def s3_def s4_def s5_def started_def name_def img_def Let_def split_beta)
  then show ?thesis
  proof cases
    case missing
    then show ?thesis using phase_trans[OF p2 phase_fail] by simp
  next
    case build
    then show ?thesis using phase_trans[OF p3 phase_fail] by simp
  next
    case run
    then show ?thesis using p3 e t s5_def by metis
  qed
qed

section \<open>Properties of the handler\<close>

text \<open>The handler started on an empty trace at time \<open>t0\<close>, and its whole trace.\<close>

definition run_trace ::
  "(string \<Rightarrow> string) \<Rightarrow> 'w post \<Rightarrow> 'w delete \<Rightarrow> 'w \<Rightarrow> orch \<Rightarrow> answers \<Rightarrow> RunJob \<Rightarrow> int \<Rightarrow> effect list" where
  "run_trace quote post del w c env job t0 = tr (handle quote post del w c env job \<lparr>tr = [], clk = t0\<rparr>)"

lemma starts_run [simp]: "starts (Docker (run_args c job name img))" "\<not> removes (Docker (run_args c job name img))"
  by (simp_all add: starts_def removes_def run_args_def)

lemma docker_cons [simp]:
  "loads (Docker a # es) = loads es" "status_writes (Docker a # es) = status_writes es"
  by (simp_all add: loads_def status_writes_def)

lemma run_trace_cases:
  defines "trace \<equiv> run_trace"
  obtains (before) "loads (trace quote post del w c env job t0) = []"
      "status_writes (trace quote post del w c env job t0) = [''building'', ''failed'']"
      "tame (trace quote post del w c env job t0)"
  | (after) es es' where
      "trace quote post del w c env job t0 =
         es @ Docker (run_args c job (''arena-sub-'' @ rj_RunID job) (''arena/sub:'' @ rj_RunID job)) # es' @
         [Docker [''rm'', ''-f'', ''arena-sub-'' @ rj_RunID job], Docker [''rmi'', ''-f'', ''arena/sub:'' @ rj_RunID job]]"
      "tame es" "tame es'" "loads es = []" "status_writes es = [''building'']"
      "loads es' = [] \<and> status_writes es' = [''failed''] \<or>
       (\<exists>nows V. loads es' = job_shards c job (''http://arena-sub-'' @ rj_RunID job @ '':8080'') nows \<and>
          status_writes es' = [''conformance'', ''load''] @ V \<and> (V = [] \<or> V = [''failed'']))"
proof -
  let ?s = "\<lparr>tr = [], clk = t0\<rparr> :: ostate" and ?name = "''arena-sub-'' @ rj_RunID job" and ?img = "''arena/sub:'' @ rj_RunID job"
  let ?h = "handle quote post del w c env job ?s"
  from handle_shape[of ?s quote post del w c env job] show thesis
  proof (elim disjE exE conjE)
    assume "phase ?s ?h [] [''building'', ''failed'']"
    then show thesis using before by (auto simp: phase_def extends_def trace_def run_trace_def)
  next
    fix s3 s4 s5 started
    assume a: "phase ?s s3 [] [''building'']" "extends s3 s4 [Docker (run_args c job ?name ?img)]"
      "s5 = sandboxed quote post del w c env job ?name started s4"
      "extends s5 ?h [Docker [''rm'', ''-f'', ?name], Docker [''rmi'', ''-f'', ?img]]"
    obtain es where es: "tr s3 = es" "loads es = []" "status_writes es = [''building'']" "tame es"
      using a(1) by (auto simp: phase_def extends_def)
    obtain es' where es': "extends s4 s5 es'" "tame es'"
      "loads es' = [] \<and> status_writes es' = [''failed''] \<or>
       (\<exists>nows V. loads es' = job_shards c job (''http://'' @ ?name @ '':8080'') nows \<and>
          status_writes es' = [''conformance'', ''load''] @ V \<and> (V = [] \<or> V = [''failed'']))"
      using phase_sandboxed[of s4 quote post del w c env job ?name started] unfolding a(3) phase_def by blast
    show thesis
      by (rule after[of es es']) (use a(2,4) es es' in \<open>simp_all add: extends_def trace_def run_trace_def\<close>)
  qed
qed

text \<open>
  (C10) No sandbox is left behind: in every run of the handler, whatever docker, Redis, the
  file system and the clock answer, either no container is started and nothing is removed, or
  exactly one is started and the run ends by removing that container and then its image, each
  once.
\<close>

theorem sandbox_always_torn_down:
  fixes quote post del w c env job t0
  defines "t \<equiv> run_trace quote post del w c env job t0"
  shows "(filter starts t = [] \<and> filter removes t = []) \<or>
    (filter starts t = [Docker (run_args c job (''arena-sub-'' @ rj_RunID job) (''arena/sub:'' @ rj_RunID job))] \<and>
     filter removes t = [Docker [''rm'', ''-f'', ''arena-sub-'' @ rj_RunID job], Docker [''rmi'', ''-f'', ''arena/sub:'' @ rj_RunID job]] \<and>
     (\<exists>es. t = es @ filter removes t))"
proof -
  have tame: "tame es \<Longrightarrow> filter starts es = [] \<and> filter removes es = []" for es
    by (auto simp: tame_def filter_empty_conv)
  have rm: "removes (Docker (''rm'' # as)) \<and> removes (Docker (''rmi'' # as)) \<and>
    \<not> starts (Docker (''rm'' # as)) \<and> \<not> starts (Docker (''rmi'' # as))" for as
    by (simp add: removes_def starts_def)
  show ?thesis
  proof (cases rule: run_trace_cases[of quote post del w c env job t0])
    case before
    then show ?thesis using tame unfolding t_def by blast
  next
    case (after es es')
    then show ?thesis unfolding t_def using tame rm by simp
  qed
qed

text \<open>
  (C29) The life cycle a run record shows: the statuses the orchestrator writes are, in this
  order, \<open>building\<close>, then \<open>failed\<close> or \<open>conformance\<close> and \<open>load\<close>, then possibly \<open>failed\<close>. In
  particular \<open>failed\<close> is written at most once and last, and \<open>done\<close> is never written.
\<close>

theorem run_status_life_cycle:
  "status_writes (run_trace quote post del w c env job t0) \<in>
     {[''building'', ''failed''], [''building'', ''conformance'', ''load''],
      [''building'', ''conformance'', ''load'', ''failed'']}"
proof (cases rule: run_trace_cases[of quote post del w c env job t0])
  case before
  then show ?thesis by simp
next
  case (after es es')
  then show ?thesis unfolding after(1) by auto
qed

lemma run_loads_partition:
  assumes "0 < rj_Bots job" "rj_Bots job < 2 ^ 53" "0 < o_botsPerShard c" "o_botsPerShard c < 2 ^ 53" "0 \<le> rj_MaxRPS job"
    and t: "t = run_trace quote post del w c env job t0"
  shows "if ''load'' \<in> set (status_writes t) then partition_ok job (o_botsPerShard c) (loads t) else loads t = []"
proof (cases rule: run_trace_cases[of quote post del w c env job t0])
  case before
  then show ?thesis using t by simp
next
  case (after es es')
  have l: "loads t = loads es'" "status_writes t = [''building''] @ status_writes es'"
    unfolding t after(1) using after(4,5) by simp_all
  consider "loads es' = []" "status_writes es' = [''failed'']"
    | nows V where "loads es' = job_shards c job (''http://arena-sub-'' @ rj_RunID job @ '':8080'') nows"
      "status_writes es' = [''conformance'', ''load''] @ V"
    using after(6) by blast
  then show ?thesis
  proof cases
    case 1
    then show ?thesis using l by simp
  next
    case 2
    then show ?thesis using l shards_partition[OF assms(1-5)] by (simp add: job_shards_def Let_def)
  qed
qed

text \<open>
  (C13) Load is only offered after a probe, and then all of it: for a job of 1 to \<open>2^53\<close> bots
  and a non-negative rate budget, the shards put on the load stream are none unless the run
  reached \<open>load\<close>; then they split the bots exactly, at least one and at most
  \<open>botsPerShard\<close> each, are numbered from 0 with the true total, and their rate budgets sum to
  at most the job's and fall short of it by less than the number of shards.
\<close>

theorem load_shards_partition_job:
  assumes "0 < rj_Bots job" "rj_Bots job < 2 ^ 53" "0 < o_botsPerShard c" "o_botsPerShard c < 2 ^ 53" "0 \<le> rj_MaxRPS job"
    and t: "t = run_trace quote post del w c env job t0"
  shows "if ''load'' \<in> set (status_writes t) then partition_ok job (o_botsPerShard c) (loads t) else loads t = []"
  by (rule run_loads_partition[OF assms])

definition demo_job :: RunJob where
  "demo_job = \<lparr>rj_RunID = ''r1'', rj_SubmissionID = ''s1'', rj_Bots = 600, rj_DurationS = 30, rj_MaxRPS = 1000\<rparr>"

definition demo_orch :: orch where
  "demo_orch = \<lparr>o_dataDir = ''/data/submissions'', o_arenaNet = ''arena-net'', o_cpus = ''1.0'', o_mem = ''512m'',
     o_pids = ''256'', o_cores = 4, o_botsPerShard = 250\<rparr>"

definition demo_answers :: answers where
  "demo_answers = \<lparr>open_err = \<lambda>k. None, docker_res = \<lambda>k. ([], False), health_res = \<lambda>k. Some 200,
     status_res = \<lambda>k. ''done'', lag = \<lambda>k. 1\<rparr>"

lemma demo_shard_count: "shard_count 600 250 = 3"
  using shard_count_exact[of 600 250] by simp

lemma demo_reaches_load: "''load'' \<in> set (status_writes (run_trace id (\<lambda>w od. (w, TransportError ''EOF'')) (\<lambda>w i. (w, TransportError ''EOF''))
       () demo_orch demo_answers demo_job 0))"
  by (simp add: run_trace_def handle_def demo_orch_def demo_answers_def demo_job_def setRun_def perform_def
      docker_def sandboxed_def waitHealthy_def wait_loop.simps slept_def Second_def Minute_def load_phase_def
      status_writes_def poll_loop.simps dispatch_def teardown_def demo_shard_count i64_def upt_rec Let_def split_beta)

theorem load_shards_partition_job_witness:
  "partition_ok demo_job 250 (loads (run_trace id (\<lambda>w od. (w, TransportError ''EOF'')) (\<lambda>w i. (w, TransportError ''EOF''))
     () demo_orch demo_answers demo_job 0))"
proof -
  have c: "o_botsPerShard demo_orch = 250" by (simp add: demo_orch_def)
  have "if ''load'' \<in> set (status_writes (run_trace id (\<lambda>w od. (w, TransportError ''EOF'')) (\<lambda>w i. (w, TransportError ''EOF''))
        () demo_orch demo_answers demo_job 0))
      then partition_ok demo_job (o_botsPerShard demo_orch) (loads (run_trace id (\<lambda>w od. (w, TransportError ''EOF''))
        (\<lambda>w i. (w, TransportError ''EOF'')) () demo_orch demo_answers demo_job 0))
      else loads (run_trace id (\<lambda>w od. (w, TransportError ''EOF'')) (\<lambda>w i. (w, TransportError ''EOF'')) ()
        demo_orch demo_answers demo_job 0) = []"
    by (rule load_shards_partition_job[OF _ _ _ _ _ refl]) (simp_all add: demo_job_def demo_orch_def)
  then show ?thesis using demo_reaches_load unfolding c by simp
qed

end
