(* ===== verification/Redis.thy ===== *)
theory Redis
  imports GoFloat
begin

text \<open>
  The Redis server as the ingester and the gateway use it: a record of the commands, on a
  state type of the server's own. Redis is not part of the repository, so the commands are
  parameters; \<open>redis_ok\<close> states the documented behaviour that theorems rely on. A read that
  fails, or finds nothing, is \<open>None\<close>; the services ignore the errors of writes, except for the
  enqueueing \<open>XADD\<close>, whose error text is returned. A key is used with one type only, as the
  services do: the laws say nothing about what \<open>SET\<close> does to a hash or a sorted set of the same
  key, and the typed writes are not applied to keys of another type. \<open>mem\<close> is a server held in memory, on which
  witnesses are evaluated.
\<close>

section \<open>Commands\<close>

record 'r redis =
  HSET :: "'r \<Rightarrow> string \<Rightarrow> (string \<times> string) list \<Rightarrow> 'r"
  HGETALL :: "'r \<Rightarrow> string \<Rightarrow> (string, string) gomap"
  EXISTS :: "'r \<Rightarrow> string \<Rightarrow> int"
  SET :: "'r \<Rightarrow> string \<Rightarrow> string \<Rightarrow> 'r"
  GET :: "'r \<Rightarrow> string \<Rightarrow> string option"
  ZADD :: "'r \<Rightarrow> string \<Rightarrow> float64 \<Rightarrow> string \<Rightarrow> 'r"
  ZSCORE :: "'r \<Rightarrow> string \<Rightarrow> string \<Rightarrow> float64 option"
  ZREVRANGE :: "'r \<Rightarrow> string \<Rightarrow> nat \<Rightarrow> nat \<Rightarrow> (string \<times> float64) list option"
  LPUSH :: "'r \<Rightarrow> string \<Rightarrow> string \<Rightarrow> 'r"
  LTRIM :: "'r \<Rightarrow> string \<Rightarrow> nat \<Rightarrow> nat \<Rightarrow> 'r"
  LRANGE :: "'r \<Rightarrow> string \<Rightarrow> nat \<Rightarrow> nat \<Rightarrow> string list"
  XADD :: "'r \<Rightarrow> string \<Rightarrow> string \<Rightarrow> 'r \<times> string option"
  PUBLISH :: "'r \<Rightarrow> string \<Rightarrow> string \<Rightarrow> 'r"

definition HGET :: "'r redis \<Rightarrow> 'r \<Rightarrow> string \<Rightarrow> string \<Rightarrow> string option" where
  "HGET R r k f = map_of (HGETALL R r k) f"

section \<open>Documented behaviour\<close>

text \<open>A hash write changes the fields it names of the key it names, and nothing else.\<close>

definition hash_ok :: "'r redis \<Rightarrow> bool" where
  "hash_ok R \<longleftrightarrow>
     (\<forall>r k kvs k'. map_of (HGETALL R (HSET R r k kvs) k') =
        (if k' = k then map_of (HGETALL R r k) ++ map_of (rev kvs) else map_of (HGETALL R r k'))) \<and>
     (\<forall>r k v k'. k' \<noteq> k \<longrightarrow> HGETALL R (SET R r k v) k' = HGETALL R r k') \<and>
     (\<forall>r k s m k'. HGETALL R (ZADD R r k s m) k' = HGETALL R r k') \<and>
     (\<forall>r c p k'. HGETALL R (PUBLISH R r c p) k' = HGETALL R r k') \<and>
     (\<forall>r k v k'. HGETALL R (LPUSH R r k v) k' = HGETALL R r k') \<and>
     (\<forall>r k i j k'. HGETALL R (LTRIM R r k i j) k' = HGETALL R r k') \<and>
     (\<forall>r st p k'. HGETALL R (fst (XADD R r st p)) k' = HGETALL R r k')"

text \<open>A sorted set holds the last score added for each member; its reverse range is by descending score.\<close>

definition zset_ok :: "'r redis \<Rightarrow> bool" where
  "zset_ok R \<longleftrightarrow>
     (\<forall>r k s m k' m'. ZSCORE R (ZADD R r k s m) k' m' = (if k' = k \<and> m' = m then Some s else ZSCORE R r k' m')) \<and>
     (\<forall>r k kvs k' m'. ZSCORE R (HSET R r k kvs) k' m' = ZSCORE R r k' m') \<and>
     (\<forall>r k v k' m'. k' \<noteq> k \<longrightarrow> ZSCORE R (SET R r k v) k' m' = ZSCORE R r k' m') \<and>
     (\<forall>r c p k' m'. ZSCORE R (PUBLISH R r c p) k' m' = ZSCORE R r k' m') \<and>
     (\<forall>r k i j ms. ZREVRANGE R r k i j = Some ms \<longrightarrow>
        sorted_wrt (\<lambda>x y. snd x \<ge> snd y) ms \<and> length ms \<le> Suc j - i \<and>
        (\<forall>(m, s) \<in> set ms. ZSCORE R r k m = Some s))"

text \<open>Plain keys: the last value set, untouched by the other writes.\<close>

definition string_ok :: "'r redis \<Rightarrow> bool" where
  "string_ok R \<longleftrightarrow>
     (\<forall>r k v k'. GET R (SET R r k v) k' = (if k' = k then Some v else GET R r k')) \<and>
     (\<forall>r k kvs k'. GET R (HSET R r k kvs) k' = GET R r k') \<and>
     (\<forall>r k s m k'. GET R (ZADD R r k s m) k' = GET R r k') \<and>
     (\<forall>r c p k'. GET R (PUBLISH R r c p) k' = GET R r k')"

text \<open>
  Lists: \<open>LPUSH\<close> adds at the head, \<open>LTRIM\<close> from 0 keeps a prefix, \<open>LRANGE\<close> from 0 reads one; the
  other writes leave lists alone.
\<close>

definition list_ok :: "'r redis \<Rightarrow> bool" where
  "list_ok R \<longleftrightarrow>
     (\<forall>r k v j. LRANGE R (LPUSH R r k v) k 0 j = (case j of 0 \<Rightarrow> [v] | Suc i \<Rightarrow> v # LRANGE R r k 0 i)) \<and>
     (\<forall>r k n j. LRANGE R (LTRIM R r k 0 n) k 0 j = LRANGE R r k 0 (min n j)) \<and>
     (\<forall>r k j. length (LRANGE R r k 0 j) \<le> Suc j) \<and>
     (\<forall>r k v k' i j. k' \<noteq> k \<longrightarrow> LRANGE R (LPUSH R r k v) k' i j = LRANGE R r k' i j) \<and>
     (\<forall>r k n m k' i j. k' \<noteq> k \<longrightarrow> LRANGE R (LTRIM R r k n m) k' i j = LRANGE R r k' i j) \<and>
     (\<forall>r k kvs k' i j. LRANGE R (HSET R r k kvs) k' i j = LRANGE R r k' i j) \<and>
     (\<forall>r st p k' i j. LRANGE R (fst (XADD R r st p)) k' i j = LRANGE R r k' i j)"

definition redis_ok :: "'r redis \<Rightarrow> bool" where
  "redis_ok R \<longleftrightarrow> hash_ok R \<and> zset_ok R \<and> string_ok R \<and> list_ok R"

lemma HGET_HSET:
  "hash_ok R \<Longrightarrow> HGET R (HSET R r k kvs) k' f =
     (if k' = k then case map_of (rev kvs) f of Some v \<Rightarrow> Some v | None \<Rightarrow> HGET R r k f else HGET R r k' f)"
  by (auto simp: HGET_def hash_ok_def map_add_def split: option.split)

lemma HGET_other:
  assumes "hash_ok R"
  shows "k' \<noteq> k \<Longrightarrow> HGET R (SET R r k v) k' f = HGET R r k' f" "HGET R (ZADD R r k s m) k' f = HGET R r k' f"
    "HGET R (PUBLISH R r c p) k' f = HGET R r k' f" "HGET R (LPUSH R r k v) k' f = HGET R r k' f"
    "HGET R (LTRIM R r k i j) k' f = HGET R r k' f" "HGET R (fst (XADD R r c p)) k' f = HGET R r k' f"
  using assms by (simp_all add: HGET_def hash_ok_def)

lemma ZSCORE_simps:
  assumes "zset_ok R"
  shows "ZSCORE R (ZADD R r k s m) k' m' = (if k' = k \<and> m' = m then Some s else ZSCORE R r k' m')"
    "ZSCORE R (HSET R r k kvs) k' m' = ZSCORE R r k' m'"
    "k' \<noteq> k \<Longrightarrow> ZSCORE R (SET R r k v) k' m' = ZSCORE R r k' m'"
    "ZSCORE R (PUBLISH R r c p) k' m' = ZSCORE R r k' m'"
  using assms by (simp_all add: zset_ok_def)

text \<open>An index that is pushed to and trimmed shows the new entry first.\<close>

lemma LRANGE_index:
  "list_ok R \<Longrightarrow> j < n \<Longrightarrow> LRANGE R (LTRIM R (LPUSH R r k v) k 0 n) k 0 (Suc j) = v # LRANGE R r k 0 j"
  by (simp add: list_ok_def)

lemma LRANGE_other:
  assumes "list_ok R"
  shows "LRANGE R (HSET R r k kvs) k' i j = LRANGE R r k' i j" "LRANGE R (fst (XADD R r st p)) k' i j = LRANGE R r k' i j"
  using assms by (simp_all add: list_ok_def)

section \<open>A server in memory\<close>

record memdb =
  m_hash :: "(string, (string, string) gomap) gomap"
  m_str :: "(string, string) gomap"
  m_zset :: "(string, (string, float64) gomap) gomap"
  m_list :: "(string, string list) gomap"
  m_stream :: "(string \<times> string) list"
  m_chan :: "(string \<times> string) list"

definition mem_empty :: memdb where
  "mem_empty = \<lparr>m_hash = [], m_str = [], m_zset = [], m_list = [], m_stream = [], m_chan = []\<rparr>"

definition mem :: "memdb redis" where
  "mem = \<lparr>
     HSET = \<lambda>r k kvs. r\<lparr>m_hash := gm_put (m_hash r) k (fold (\<lambda>(f, v) m. gm_put m f v) kvs (gm_get [] (m_hash r) k))\<rparr>,
     HGETALL = \<lambda>r k. gm_get [] (m_hash r) k,
     EXISTS = \<lambda>r k. if map_of (m_hash r) k = None then 0 else 1,
     SET = \<lambda>r k v. r\<lparr>m_str := gm_put (m_str r) k v\<rparr>,
     GET = \<lambda>r k. map_of (m_str r) k,
     ZADD = \<lambda>r k s m. r\<lparr>m_zset := gm_put (m_zset r) k (gm_put (gm_get [] (m_zset r) k) m s)\<rparr>,
     ZSCORE = \<lambda>r k m. map_of (gm_get [] (m_zset r) k) m,
     ZREVRANGE = \<lambda>r k i j. Some (drop i (take (Suc j) (rev (sort_key snd
        (map (\<lambda>m. (m, gm_get 0 (gm_get [] (m_zset r) k) m)) (remdups (map fst (gm_get [] (m_zset r) k)))))))),
     LPUSH = \<lambda>r k v. r\<lparr>m_list := gm_put (m_list r) k (v # gm_get [] (m_list r) k)\<rparr>,
     LTRIM = \<lambda>r k i j. r\<lparr>m_list := gm_put (m_list r) k (drop i (take (Suc j) (gm_get [] (m_list r) k)))\<rparr>,
     LRANGE = \<lambda>r k i j. drop i (take (Suc j) (gm_get [] (m_list r) k)),
     XADD = \<lambda>r st p. (r\<lparr>m_stream := m_stream r @ [(st, p)]\<rparr>, None),
     PUBLISH = \<lambda>r c p. r\<lparr>m_chan := m_chan r @ [(c, p)]\<rparr>\<rparr>"

lemma map_of_puts: "map_of (fold (\<lambda>(f, v) m. gm_put m f v) kvs m) = map_of m ++ map_of (rev kvs)"
  by (induction kvs arbitrary: m) (auto simp: map_add_def fun_eq_iff split: option.splits)

lemma sorted_rev_key: "sorted_wrt (\<lambda>x y. snd x \<ge> snd y) (rev (sort_key snd ms))"
  for ms :: "('a \<times> 'b :: linorder) list"
proof -
  have "sorted (map snd (sort_key snd ms))" by simp
  then have "sorted_wrt (\<lambda>x y. snd x \<le> snd y) (sort_key snd ms)" by (simp add: sorted_wrt_map)
  then show ?thesis by (simp add: sorted_wrt_rev)
qed

lemma mem_ok: "redis_ok mem"
proof -
  have z: "sorted_wrt (\<lambda>x y. snd x \<ge> snd y) ms \<and> length ms \<le> Suc j - i \<and> (\<forall>(m, s) \<in> set ms. ZSCORE mem r k m = Some s)"
    if "ZREVRANGE mem r k i j = Some ms" for r k i j ms
  proof -
    let ?z = "gm_get [] (m_zset r) k"
    let ?all = "map (\<lambda>m. (m, gm_get 0 ?z m)) (remdups (map fst ?z))"
    have ms: "ms = drop i (take (Suc j) (rev (sort_key snd ?all)))" using that by (simp add: mem_def)
    have "sorted_wrt (\<lambda>x y. snd x \<ge> snd y) ms"
      unfolding ms by (intro sorted_wrt_drop sorted_wrt_take sorted_rev_key)
    moreover have "length ms \<le> Suc j - i" unfolding ms by simp
    moreover have "set ms \<subseteq> set ?all"
      unfolding ms
      using set_drop_subset[of i "take (Suc j) (rev (sort_key snd ?all))"] set_take_subset[of "Suc j" "rev (sort_key snd ?all)"]
      by (simp only: set_rev set_sort)
    moreover have "ZSCORE mem r k m = Some (gm_get 0 ?z m)" if "m \<in> fst ` set ?z" for m
    proof -
      have "map_of ?z m \<noteq> None" using that by (simp add: map_of_eq_None_iff)
      then show ?thesis by (auto simp: mem_def gm_get_def[of 0])
    qed
    then have "\<forall>(m, s) \<in> set ?all. ZSCORE mem r k m = Some s" by auto
    ultimately show ?thesis by blast
  qed
  have "hash_ok mem" by (auto simp: hash_ok_def mem_def map_of_puts)
  moreover have "zset_ok mem"
    unfolding zset_ok_def using z by (simp add: mem_def)
  moreover have "string_ok mem" by (simp add: string_ok_def mem_def)
  moreover have "list_ok mem"
    by (auto simp: list_ok_def mem_def take_Cons' min.commute split: nat.split)
  ultimately show ?thesis by (simp add: redis_ok_def)
qed

end
