(* ===== verification/Ingester.thy ===== *)
theory Ingester
  imports Redis GoFormat Telemetry Score Protocol
begin

text \<open>
  The telemetry ingester of \<open>cmd/ingester/main.go\<close>. Aggregates are shared between the table
  \<open>runs\<close> and the goroutine that handles them, so they live in a store and the table holds
  pointers. The two goroutines (the consumer of the telemetry stream and the sweeper) are a
  step relation whose steps are the sections the code runs under its mutex and, for
  \<open>finalize\<close>, the part before and the part after the leaderboard is compared. One access is not
  covered by that: the sweeper reads \<open>ing.runs[id]\<close> without the mutex when it calls \<open>finalize\<close>.
  The model takes this lookup as one step; Go does not, and its runtime aborts the process when
  it notices a map read during a map write. Redis, the
  database, \<open>math\<close> and JSON encoding are parameters.
\<close>

section \<open>State\<close>

record runAgg =
  a_hist :: "(int, int) gomap"
  a_secAcks :: "(int, int) gomap"
  a_secErrs :: "(int, int) gomap"
  a_sent :: int
  a_acked :: int
  a_errors :: int
  a_violations :: int
  a_samples :: "string list"
  a_totalShards :: int
  a_finalShards :: "(int, bool) gomap"
  a_lastSeen :: int
  a_finalized :: bool

definition staleAfter :: int where "staleAfter = 60 * 10 ^ 9"

definition new_agg :: runAgg where
  "new_agg = \<lparr>a_hist = [], a_secAcks = [], a_secErrs = [], a_sent = 0, a_acked = 0, a_errors = 0,
     a_violations = 0, a_samples = [], a_totalShards = 0, a_finalShards = [], a_lastSeen = 0, a_finalized = False\<rparr>"

record metrics =
  p50 :: int
  p90 :: int
  p99 :: int
  tps :: float64
  correctness :: float64
  errRate :: float64

record boardRow =
  br_Rank :: int
  br_SubmissionID :: string
  br_Team :: string
  br_Name :: string
  br_RunID :: string
  br_Score :: float64
  br_P50us :: int
  br_P99us :: int
  br_TPS :: float64
  br_Correctness :: float64

text \<open>What \<open>persist\<close> inserts.\<close>

record archive_row =
  ar_run :: string
  ar_sub :: string
  ar_metrics :: metrics
  ar_score :: float64
  ar_agg :: runAgg

text \<open>What the ingester depends on: Redis, \<open>math.Log10\<close>, \<open>math.Pow\<close>, \<open>json.Marshal\<close> of the rows, and the
  database, as the configured DSN and whether each of its three calls succeeds.\<close>

record 'r deps =
  rdb :: "'r redis"
  Log10 :: "float64 \<Rightarrow> float64"
  mPow :: "float64 \<Rightarrow> float64 \<Rightarrow> float64"
  Marshal :: "boardRow list \<Rightarrow> string"
  pgDSN :: string
  pgConnect :: bool
  pgCreate :: bool
  pgInsert :: bool

section \<open>Absorbing a batch\<close>

text \<open>What a batch does to the aggregate of its run, when that is not finalized.\<close>

definition absorb_agg :: "TelemetryBatch \<Rightarrow> int \<Rightarrow> runAgg \<Rightarrow> runAgg" where
  "absorb_agg b now agg =
     (let agg1 = agg\<lparr>
            a_hist := Merge (a_hist agg) (tb_Hist b),
            a_secAcks := gm_adds (a_secAcks agg) (tb_SecAcks b),
            a_secErrs := gm_adds (a_secErrs agg) (tb_SecErrs b),
            a_sent := i64 (a_sent agg + tb_Sent b),
            a_acked := i64 (a_acked agg + tb_Acked b),
            a_errors := i64 (a_errors agg + tb_Errors b),
            a_violations := i64 (a_violations agg + tb_Violations b),
            a_samples := (if length (a_samples agg) < 10 then a_samples agg @ tb_Samples b else a_samples agg),
            a_totalShards := tb_TotalShards b,
            a_lastSeen := now,
            a_finalShards := (if tb_Final b then gm_put (a_finalShards agg) (tb_Shard b) True else a_finalShards agg)\<rparr>
      in agg1\<lparr>a_finalized := a_totalShards agg1 > 0 \<and> int (length (a_finalShards agg1)) \<ge> a_totalShards agg1\<rparr>)"

record 'r ingester =
  i_rdb :: 'r
  i_heap :: "runAgg list"
  i_runs :: "(string, nat) gomap"
  i_throttle :: "(string, int) gomap"
  i_verdicts :: "(string \<times> nat \<times> metrics \<times> float64) list" \<comment> \<open>the \<open>FINAL\<close> log lines\<close>
  i_archive :: "archive_row list"

definition ing_init :: "'r \<Rightarrow> 'r ingester" where
  "ing_init r = \<lparr>i_rdb = r, i_heap = [], i_runs = [], i_throttle = [], i_verdicts = [], i_archive = []\<rparr>"

text \<open>
  The locked part of \<open>absorb\<close>: find or create the aggregate, and unless it is finalized merge
  the batch. The result says which aggregate to go on with and whether the run is complete.
\<close>

definition absorb :: "TelemetryBatch \<Rightarrow> int \<Rightarrow> 'r ingester \<Rightarrow> 'r ingester \<times> (nat \<times> bool) option" where
  "absorb b now ing =
     (let (ing1, p) =
            (case map_of (i_runs ing) (tb_RunID b) of
               Some p \<Rightarrow> (ing, p)
             | None \<Rightarrow> (ing\<lparr>i_heap := i_heap ing @ [new_agg],
                         i_runs := gm_put (i_runs ing) (tb_RunID b) (length (i_heap ing))\<rparr>, length (i_heap ing)));
          agg = i_heap ing1 ! p
      in if a_finalized agg then (ing1, None)
         else
           let agg' = absorb_agg b now agg
           in (ing1\<lparr>i_heap := (i_heap ing1)[p := agg']\<rparr>, Some (p, a_finalized agg')))"

section \<open>Metrics and results\<close>

text \<open>One turn of the loop over the seconds.\<close>

definition tps_step :: "runAgg \<Rightarrow> int \<Rightarrow> float64 \<Rightarrow> float64" where
  "tps_step agg s best =
     (let a = float64_of (gm_get 0 (a_secAcks agg) s); e = float64_of (gm_get 0 (a_secErrs agg) s)
      in if fl (a + e) = 0 \<or> fl (e / fl (a + e)) \<ge> fl (1 / 100) then best
         else if a > best then a else best)"

definition compute :: "(float64 \<Rightarrow> float64 \<Rightarrow> float64) \<Rightarrow> runAgg \<Rightarrow> metrics" where
  "compute powf agg =
     \<lparr>p50 = Quantile powf (a_hist agg) (fl (50 / 100)),
      p90 = Quantile powf (a_hist agg) (fl (90 / 100)),
      p99 = Quantile powf (a_hist agg) (fl (99 / 100)),
      tps = fold (tps_step agg) (sort (map fst (a_secAcks agg))) 0,
      correctness =
        (if a_acked agg > 0 then
           let c = fl (1 - fl (float64_of (a_violations agg) / float64_of (a_acked agg)))
           in if c < 0 then 0 else c
         else 0),
      errRate = (if a_sent agg > 0 then fl (float64_of (a_errors agg) / float64_of (a_sent agg)) else 0)\<rparr>"

definition result_fields :: "metrics \<Rightarrow> runAgg \<Rightarrow> float64 \<Rightarrow> bool \<Rightarrow> (string \<times> string) list" where
  "result_fields m agg sc final =
     [(''p50_us'', Itoa (go_quot (p50 m) 1000)), (''p90_us'', Itoa (go_quot (p90 m) 1000)),
      (''p99_us'', Itoa (go_quot (p99 m) 1000)), (''tps'', fmt_f 0 (tps m)),
      (''correctness'', fmt_f 4 (correctness m)), (''err_rate'', fmt_f 4 (errRate m)),
      (''sent'', Itoa (a_sent agg)), (''acked'', Itoa (a_acked agg)),
      (''errors'', Itoa (a_errors agg)), (''violations'', Itoa (a_violations agg))] @
     (if a_samples agg \<noteq> [] then [(''violation_samples'', Join (a_samples agg) '' | '')] else []) @
     (if final then [(''score'', fmt_f 2 sc)] else [])"

definition writeResult ::
  "'r deps \<Rightarrow> string \<Rightarrow> metrics \<Rightarrow> runAgg \<Rightarrow> float64 \<Rightarrow> bool \<Rightarrow> 'r \<Rightarrow> 'r" where
  "writeResult d runID m agg sc final r =
     HSET (rdb d) r (''result:'' @ runID) (result_fields m agg sc final)"

text \<open>\<open>live\<close>, with the clock readings of the throttle test and of the store.\<close>

definition live :: "'r deps \<Rightarrow> string \<Rightarrow> nat \<Rightarrow> int \<Rightarrow> int \<Rightarrow> 'r ingester \<Rightarrow> 'r ingester" where
  "live d runID p t1 t2 ing =
     (case map_of (i_throttle ing) runID of
        Some t \<Rightarrow> if t1 - t < 10 ^ 9 then ing
          else ing\<lparr>i_throttle := gm_put (i_throttle ing) runID t2,
                 i_rdb := writeResult d runID (compute (mPow d) (i_heap ing ! p)) (i_heap ing ! p) 0 False (i_rdb ing)\<rparr>
      | None \<Rightarrow> ing\<lparr>i_throttle := gm_put (i_throttle ing) runID t2,
                 i_rdb := writeResult d runID (compute (mPow d) (i_heap ing ! p)) (i_heap ing ! p) 0 False (i_rdb ing)\<rparr>)"

section \<open>Verdicts\<close>

definition board_row :: "'r deps \<Rightarrow> 'r \<Rightarrow> nat \<Rightarrow> string \<times> float64 \<Rightarrow> boardRow" where
  "board_row d r i z =
     (let subID = fst z;
          sub = HGETALL (rdb d) r (''submission:'' @ subID);
          runID = (case GET (rdb d) r (''best:'' @ subID) of Some v \<Rightarrow> v | None \<Rightarrow> []);
          res = HGETALL (rdb d) r (''result:'' @ runID);
          gi = (\<lambda>k. ParseInt (gm_get [] res k));
          gf = (\<lambda>k. ParseFloat (gm_get [] res k))
      in \<lparr>br_Rank = int i + 1, br_SubmissionID = subID, br_Team = gm_get [] sub ''team'',
          br_Name = gm_get [] sub ''name'', br_RunID = runID, br_Score = snd z,
          br_P50us = gi ''p50_us'', br_P99us = gi ''p99_us'', br_TPS = gf ''tps'',
          br_Correctness = gf ''correctness''\<rparr>)"

definition board_rows :: "'r deps \<Rightarrow> 'r \<Rightarrow> (string \<times> float64) list \<Rightarrow> boardRow list" where
  "board_rows d r members = map (\<lambda>(i, z). board_row d r i z) (enumerate 0 members)"

definition publishSnapshot :: "'r deps \<Rightarrow> 'r \<Rightarrow> 'r" where
  "publishSnapshot d r =
     (case ZREVRANGE (rdb d) r ''leaderboard'' 0 24 of
        None \<Rightarrow> r
      | Some members \<Rightarrow>
          let payload = Marshal d (board_rows d r members);
              r1 = SET (rdb d) r ''leaderboard:snapshot'' payload
          in PUBLISH (rdb d) r1 ''events.leaderboard'' payload)"

definition persist ::
  "'r deps \<Rightarrow> string \<Rightarrow> string \<Rightarrow> metrics \<Rightarrow> float64 \<Rightarrow> runAgg \<Rightarrow> archive_row list \<Rightarrow> archive_row list" where
  "persist d runID subID m sc agg rows =
     (if pgDSN d = [] \<or> \<not> pgConnect d \<or> \<not> pgCreate d \<or> \<not> pgInsert d then rows
      else rows @ [\<lparr>ar_run = runID, ar_sub = subID, ar_metrics = m, ar_score = sc, ar_agg = agg\<rparr>])"

text \<open>
  \<open>finalize\<close> up to the reading of the current leaderboard score, and the rest of it. \<open>cur\<close> is
  \<open>None\<close> when the submission has no score yet.
\<close>

record verdict =
  v_metrics :: metrics
  v_score :: float64
  v_sub :: string
  v_cur :: "float64 option"

definition finalize_read :: "'r deps \<Rightarrow> string \<Rightarrow> nat \<Rightarrow> int \<Rightarrow> 'r ingester \<Rightarrow> 'r ingester \<times> verdict" where
  "finalize_read d runID p now ing =
     (let agg = i_heap ing ! p;
          m = compute (mPow d) agg;
          r = i_rdb ing;
          conf = (case HGET (rdb d) r (''run:'' @ runID) ''conformance_score'' of
                    Some v \<Rightarrow> ParseFloat v | None \<Rightarrow> 0);
          sc = Composite (Log10 d) (p99 m) (tps m) (correctness m) conf;
          r1 = writeResult d runID m agg sc True r;
          r2 = HSET (rdb d) r1 (''run:'' @ runID) [(''status'', ''done''), (''finished'', Itoa (now div 10 ^ 9))];
          subID = (case HGET (rdb d) r2 (''run:'' @ runID) ''submission_id'' of Some v \<Rightarrow> v | None \<Rightarrow> []);
          cur = (if subID \<noteq> [] then ZSCORE (rdb d) r2 ''leaderboard'' subID else None)
      in (ing\<lparr>i_rdb := r2\<rparr>, \<lparr>v_metrics = m, v_score = sc, v_sub = subID, v_cur = cur\<rparr>))"

definition finalize_write :: "'r deps \<Rightarrow> string \<Rightarrow> nat \<Rightarrow> verdict \<Rightarrow> 'r ingester \<Rightarrow> 'r ingester" where
  "finalize_write d runID p v ing =
     (let r = i_rdb ing; subID = v_sub v; sc = v_score v;
          r1 = (if subID \<noteq> [] \<and> (case v_cur v of None \<Rightarrow> True | Some cur \<Rightarrow> sc \<ge> cur)
                then SET (rdb d) (ZADD (rdb d) r ''leaderboard'' sc subID) (''best:'' @ subID) runID else r);
          r2 = publishSnapshot d r1
      in ing\<lparr>i_rdb := r2,
             i_verdicts := i_verdicts ing @ [(runID, p, v_metrics v, sc)],
             i_archive := persist d runID subID (v_metrics v) sc (i_heap ing ! p) (i_archive ing),
             i_runs := gm_delete (i_runs ing) runID\<rparr>)"

definition finalize :: "'r deps \<Rightarrow> string \<Rightarrow> nat \<Rightarrow> int \<Rightarrow> 'r ingester \<Rightarrow> 'r ingester" where
  "finalize d runID p now ing = (case finalize_read d runID p now ing of (ing1, v) \<Rightarrow> finalize_write d runID p v ing1)"

section \<open>The sweeper\<close>

text \<open>The locked part of a sweep: mark the silent runs and collect them. The clock is read once for each run.\<close>

definition is_stale :: "(string \<Rightarrow> int) \<Rightarrow> runAgg list \<Rightarrow> string \<times> nat \<Rightarrow> bool" where
  "is_stale nows h kp \<longleftrightarrow>
     \<not> a_finalized (h ! snd kp) \<and> nows (fst kp) - a_lastSeen (h ! snd kp) > staleAfter"

definition mark_step :: "(string \<Rightarrow> int) \<Rightarrow> string \<times> nat \<Rightarrow> runAgg list \<times> string list \<Rightarrow> runAgg list \<times> string list" where
  "mark_step nows kp hs =
     (case hs of (h, found) \<Rightarrow>
        if is_stale nows h kp then (h[snd kp := (h ! snd kp)\<lparr>a_finalized := True\<rparr>], found @ [fst kp]) else (h, found))"

definition sweep_mark :: "(string \<Rightarrow> int) \<Rightarrow> 'r ingester \<Rightarrow> 'r ingester \<times> string list" where
  "sweep_mark nows ing =
     (let (h, found) = fold (mark_step nows) (i_runs ing) (i_heap ing, [])
      in (ing\<lparr>i_heap := h\<rparr>, found))"

section \<open>The two goroutines\<close>

text \<open>
  What a goroutine is about to do: nothing, go on after the locked part of \<open>absorb\<close>, or finish
  a \<open>finalize\<close> whose leaderboard reading is done. The sweeper also has the runs it still has to
  finalize; looking one of them up in \<open>runs\<close> and not finding it would dereference \<open>nil\<close>.
\<close>

datatype task = Idle | After string nat bool | Write string nat verdict

record 'r isys =
  s_ing :: "'r ingester"
  s_main :: task
  s_sweep :: task
  s_found :: "string list"
  s_crashed :: bool

definition isys_init :: "'r \<Rightarrow> 'r isys" where
  "isys_init r = \<lparr>s_ing = ing_init r, s_main = Idle, s_sweep = Idle, s_found = [], s_crashed = False\<rparr>"

datatype ievent =
    Batch TelemetryBatch int      \<comment> \<open>the consumer enters \<open>absorb\<close> with a batch\<close>
  | MainRest int int              \<comment> \<open>the consumer goes on: \<open>live\<close>, or \<open>finalize\<close> to its comparison\<close>
  | MainWrite                     \<comment> \<open>the consumer finishes \<open>finalize\<close>\<close>
  | SweepTick "string \<Rightarrow> int"     \<comment> \<open>the ticker fires\<close>
  | SweepRead int                 \<comment> \<open>the sweeper finalizes the next run it found, to the comparison\<close>
  | SweepWrite                    \<comment> \<open>the sweeper finishes \<open>finalize\<close>\<close>

definition istep :: "'r deps \<Rightarrow> ievent \<Rightarrow> 'r isys \<Rightarrow> 'r isys option" where
  "istep d ev s =
     (let ing = s_ing s in
      case ev of
        Batch b now \<Rightarrow>
          (if s_main s = Idle then
             let (ing1, res) = absorb b now ing
             in Some (s\<lparr>s_ing := ing1,
                  s_main := (case res of None \<Rightarrow> Idle | Some (p, whole) \<Rightarrow> After (tb_RunID b) p whole)\<rparr>)
           else None)
      | MainRest t1 t2 \<Rightarrow>
          (case s_main s of
             After runID p whole \<Rightarrow>
               if whole then
                 let (ing1, v) = finalize_read d runID p t1 ing in Some (s\<lparr>s_ing := ing1, s_main := Write runID p v\<rparr>)
               else Some (s\<lparr>s_ing := live d runID p t1 t2 ing, s_main := Idle\<rparr>)
           | _ \<Rightarrow> None)
      | MainWrite \<Rightarrow>
          (case s_main s of
             Write runID p v \<Rightarrow> Some (s\<lparr>s_ing := finalize_write d runID p v ing, s_main := Idle\<rparr>)
           | _ \<Rightarrow> None)
      | SweepTick nows \<Rightarrow>
          (if s_sweep s = Idle \<and> s_found s = [] then
             let (ing1, found) = sweep_mark nows ing in Some (s\<lparr>s_ing := ing1, s_found := found\<rparr>)
           else None)
      | SweepRead now \<Rightarrow>
          (case (s_sweep s, s_found s) of
             (Idle, runID # found) \<Rightarrow>
               (case map_of (i_runs ing) runID of
                  None \<Rightarrow> Some (s\<lparr>s_crashed := True\<rparr>)
                | Some p \<Rightarrow>
                    let (ing1, v) = finalize_read d runID p now ing
                    in Some (s\<lparr>s_ing := ing1, s_sweep := Write runID p v, s_found := found\<rparr>))
           | _ \<Rightarrow> None)
      | SweepWrite \<Rightarrow>
          (case s_sweep s of
             Write runID p v \<Rightarrow> Some (s\<lparr>s_ing := finalize_write d runID p v ing, s_sweep := Idle\<rparr>)
           | _ \<Rightarrow> None))"

inductive ing_reachable :: "'r deps \<Rightarrow> 'r \<Rightarrow> 'r isys \<Rightarrow> bool" for d r where
  start: "ing_reachable d r (isys_init r)"
| step: "ing_reachable d r s \<Longrightarrow> istep d ev s = Some s' \<Longrightarrow> ing_reachable d r s'"

end
