(* ===== verification/Ingester_Properties.thy ===== *)
theory Ingester_Properties
  imports Ingester
begin

text \<open>
  What the ingester guarantees: whatever the interleaving, the two goroutines never finalize
  the same aggregate twice, the sweeper never dereferences \<open>nil\<close>, and every verdict is of a
  finalized aggregate that has not changed since; batches folded into one aggregate that is not
  yet finalized may be permuted; the metrics are what they are named after; the leaderboard
  keeps the best score when verdicts do not overlap.
\<close>

section \<open>Marking stale runs\<close>

lemma mark_fold:
  assumes "distinct (map snd rs)" "\<forall>(k, p) \<in> set rs. p < length h"
  shows "fold (mark_step nows) rs (h, found) =
    (map (\<lambda>q. if q \<in> snd ` set (filter (is_stale nows h) rs) then (h ! q)\<lparr>a_finalized := True\<rparr> else h ! q) [0..<length h],
     found @ map fst (filter (is_stale nows h) rs))"
  using assms
proof (induction rs arbitrary: h found)
  case Nil
  then show ?case by (simp add: map_nth)
next
  case (Cons kp rs)
  obtain k p where kp: "kp = (k, p)" by fastforce
  let ?h = "h[p := (h ! p)\<lparr>a_finalized := True\<rparr>]"
  have p: "p < length h" "p \<notin> snd ` set rs" "distinct (map snd rs)" using Cons.prems kp by auto
  have same: "filter (is_stale nows ?h) rs = filter (is_stale nows h) rs"
  proof (rule filter_cong)
    fix x assume "x \<in> set rs"
    then have "snd x \<noteq> p" using p(2) by auto
    then show "is_stale nows ?h x = is_stale nows h x" by (simp add: is_stale_def)
  qed simp
  show ?case
  proof (cases "is_stale nows h kp")
    case True
    have "fold (mark_step nows) (kp # rs) (h, found) = fold (mark_step nows) rs (?h, found @ [k])"
      using True by (simp add: mark_step_def kp)
    also have "\<dots> = (map (\<lambda>q. if q \<in> snd ` set (filter (is_stale nows h) rs) then (?h ! q)\<lparr>a_finalized := True\<rparr> else ?h ! q)
        [0..<length h], (found @ [k]) @ map fst (filter (is_stale nows h) rs))"
      using Cons.IH[of ?h "found @ [k]"] Cons.prems same kp by simp
    finally show ?thesis using True p by (auto simp: kp nth_list_update image_iff)
  next
    case False
    then have "fold (mark_step nows) (kp # rs) (h, found) = fold (mark_step nows) rs (h, found)"
      by (simp add: mark_step_def)
    then show ?thesis using Cons.IH[of h found] Cons.prems False by simp
  qed
qed

section \<open>Ownership\<close>

text \<open>
  The runs whose verdict a goroutine has taken on. Each is in the table with a finalized
  aggregate; no run is claimed twice; an aggregate that has had its verdict is gone from the
  table.
\<close>

definition claim_of :: "task \<Rightarrow> string list" where
  "claim_of t = (case t of Idle \<Rightarrow> [] | After k p c \<Rightarrow> if c then [k] else [] | Write k p v \<Rightarrow> [k])"

definition claims :: "'r isys \<Rightarrow> string list" where
  "claims s = claim_of (s_main s) @ claim_of (s_sweep s) @ s_found s"

definition task_ok :: "'r ingester \<Rightarrow> task \<Rightarrow> bool" where
  "task_ok ing t \<longleftrightarrow>
     (case t of Idle \<Rightarrow> True
      | After k p c \<Rightarrow> c \<longrightarrow> map_of (i_runs ing) k = Some p
      | Write k p v \<Rightarrow> map_of (i_runs ing) k = Some p)"

definition table_ok :: "'r ingester \<Rightarrow> bool" where
  "table_ok ing \<longleftrightarrow>
     gm_ok (i_runs ing) \<and> distinct (map snd (i_runs ing)) \<and>
     (\<forall>(k, p) \<in> set (i_runs ing). p < length (i_heap ing)) \<and>
     distinct (map (fst \<circ> snd) (i_verdicts ing)) \<and>
     (\<forall>x \<in> set (i_verdicts ing). fst (snd x) < length (i_heap ing) \<and> fst (snd x) \<notin> snd ` set (i_runs ing))"

definition claimed_ok :: "'r ingester \<Rightarrow> string \<Rightarrow> bool" where
  "claimed_ok ing k \<longleftrightarrow> (\<exists>p. map_of (i_runs ing) k = Some p \<and> a_finalized (i_heap ing ! p))"

definition isys_ok :: "'r isys \<Rightarrow> bool" where
  "isys_ok s \<longleftrightarrow>
     \<not> s_crashed s \<and> table_ok (s_ing s) \<and>
     task_ok (s_ing s) (s_main s) \<and> task_ok (s_ing s) (s_sweep s) \<and>
     distinct (claims s) \<and> (\<forall>k \<in> set (claims s). claimed_ok (s_ing s) k)"

lemma runs_ptr: "table_ok ing \<Longrightarrow> map_of (i_runs ing) k = Some p \<Longrightarrow> p < length (i_heap ing)"
  unfolding table_ok_def using map_of_SomeD[of "i_runs ing" k p] by blast

lemma runs_inj:
  assumes "table_ok ing" "map_of (i_runs ing) k = Some p" "map_of (i_runs ing) k' = Some p"
  shows "k = k'"
proof -
  have "(k, p) \<in> set (i_runs ing)" "(k', p) \<in> set (i_runs ing)" using assms map_of_SomeD by metis+
  moreover have "inj_on snd (set (i_runs ing))" using assms(1) by (simp add: table_ok_def distinct_map)
  ultimately show ?thesis by (metis inj_onD prod.inject snd_conv)
qed

text \<open>Changing what only Redis and the log see keeps everything.\<close>

lemma finalize_read_frame:
  "i_heap (fst (finalize_read d k p t ing)) = i_heap ing" "i_runs (fst (finalize_read d k p t ing)) = i_runs ing"
  "i_verdicts (fst (finalize_read d k p t ing)) = i_verdicts ing"
  by (simp_all add: finalize_read_def Let_def)

lemma finalize_read_metrics: "v_metrics (snd (finalize_read d k p t ing)) = compute (mPow d) (i_heap ing ! p)"
  by (simp add: finalize_read_def Let_def)

lemma live_frame:
  "i_heap (live d k p t1 t2 ing) = i_heap ing" "i_runs (live d k p t1 t2 ing) = i_runs ing"
  "i_verdicts (live d k p t1 t2 ing) = i_verdicts ing"
  by (simp_all add: live_def split: option.splits)

lemma ok_cong:
  assumes "i_heap ing' = i_heap ing" "i_runs ing' = i_runs ing" "i_verdicts ing' = i_verdicts ing"
  shows "table_ok ing' = table_ok ing" "task_ok ing' t = task_ok ing t" "claimed_ok ing' k = claimed_ok ing k"
  using assms by (simp_all add: table_ok_def task_ok_def claimed_ok_def split: task.splits)

lemmas frame_ok = ok_cong[OF finalize_read_frame] ok_cong[OF live_frame]

lemma unfinalized_unclaimed:
  assumes "isys_ok s" "map_of (i_runs (s_ing s)) k = Some p" "\<not> a_finalized (i_heap (s_ing s) ! p)"
  shows "k \<notin> set (claims s)"
  using assms by (auto simp: isys_ok_def claimed_ok_def)

text \<open>An update of an unfinalized aggregate leaves every claimed run alone.\<close>

lemma claimed_update:
  assumes "claimed_ok ing k" "\<not> a_finalized (i_heap ing ! p)"
  shows "claimed_ok (ing\<lparr>i_heap := (i_heap ing)[p := agg]\<rparr>) k"
proof -
  obtain q where q: "map_of (i_runs ing) k = Some q" "a_finalized (i_heap ing ! q)"
    using assms(1) by (auto simp: claimed_ok_def)
  with assms(2) have "q \<noteq> p" by auto
  with q show ?thesis by (simp add: claimed_ok_def)
qed

lemma absorb_known:
  assumes "isys_ok s" "s_main s = Idle" "map_of (i_runs (s_ing s)) (tb_RunID b) = Some p"
    "absorb b t (s_ing s) = (ing, res)"
  shows "isys_ok (s\<lparr>s_ing := ing, s_main := (case res of None \<Rightarrow> Idle | Some (p, c) \<Rightarrow> After (tb_RunID b) p c)\<rparr>)"
proof (cases "a_finalized (i_heap (s_ing s) ! p)")
  case True
  then have "ing = s_ing s" "res = None" using assms(3,4) by (simp_all add: absorb_def)
  with assms(1,2) show ?thesis by (simp add: isys_ok_def claims_def)
next
  case False
  let ?agg = "absorb_agg b t (i_heap (s_ing s) ! p)" and ?k = "tb_RunID b"
  have ing: "ing = (s_ing s)\<lparr>i_heap := (i_heap (s_ing s))[p := ?agg]\<rparr>" and res: "res = Some (p, a_finalized ?agg)"
    using assms(3,4) False by (auto simp: absorb_def Let_def)
  have len: "p < length (i_heap (s_ing s))" using runs_ptr assms(1,3) by (auto simp: isys_ok_def)
  have "table_ok ing" using assms(1) by (simp add: ing isys_ok_def table_ok_def)
  moreover have "task_ok ing (After ?k p (a_finalized ?agg))" using assms(3) by (simp add: ing task_ok_def)
  moreover have "task_ok ing (s_sweep s)"
    using assms(1) by (simp add: ing isys_ok_def task_ok_def split: task.splits)
  moreover have "\<forall>k \<in> set (claims s). claimed_ok ing k"
    using assms(1) claimed_update[OF _ False] by (auto simp: ing isys_ok_def)
  moreover have "a_finalized ?agg \<Longrightarrow> claimed_ok ing ?k"
    using assms(3) len by (simp add: ing claimed_ok_def)
  moreover have "?k \<notin> set (claims s)" using unfinalized_unclaimed[OF assms(1,3) False] .
  ultimately show ?thesis
    using assms(1,2) res by (auto simp: isys_ok_def claims_def claim_of_def)
qed

text \<open>A run seen for the first time gets a fresh aggregate.\<close>

definition with_new :: "string \<Rightarrow> 'r ingester \<Rightarrow> 'r ingester" where
  "with_new k ing = ing\<lparr>i_heap := i_heap ing @ [new_agg], i_runs := gm_put (i_runs ing) k (length (i_heap ing))\<rparr>"

lemma map_snd_put: "k \<notin> fst ` set m \<Longrightarrow> gm_put m k v = m @ [(k, v)]"
  unfolding gm_put_def by (induction m) auto

lemma with_new_ok:
  assumes "isys_ok s" "map_of (i_runs (s_ing s)) k = None"
  shows "isys_ok (s\<lparr>s_ing := with_new k (s_ing s)\<rparr>)"
proof -
  let ?i = "s_ing s"
  have put: "i_runs (with_new k ?i) = i_runs ?i @ [(k, length (i_heap ?i))]"
    using assms(2) by (simp add: with_new_def map_of_eq_None_iff map_snd_put)
  have lk: "map_of (i_runs (with_new k ?i)) k' = Some p" if "map_of (i_runs ?i) k' = Some p" for k' p
    using that assms(2) by (auto simp: with_new_def)
  have hp: "p < length (i_heap ?i) \<Longrightarrow> i_heap (with_new k ?i) ! p = i_heap ?i ! p" for p
    by (simp add: with_new_def nth_append)
  have "table_ok (with_new k ?i)"
  proof -
    have "\<forall>p \<in> snd ` set (i_runs ?i). p < length (i_heap ?i)"
      using assms(1) by (auto simp: isys_ok_def table_ok_def)
    then have "length (i_heap ?i) \<notin> snd ` set (i_runs ?i)" by blast
    then show ?thesis
      using assms unfolding table_ok_def put
      by (auto simp: isys_ok_def table_ok_def gm_ok_def with_new_def map_of_eq_None_iff)
  qed
  moreover have "task_ok (with_new k ?i) t" if "task_ok ?i t" for t
    using that lk by (simp add: task_ok_def split: task.splits)
  moreover have "claimed_ok (with_new k ?i) k'" if "claimed_ok ?i k'" for k'
    using that lk hp runs_ptr[of ?i k'] assms(1) by (fastforce simp: claimed_ok_def isys_ok_def)
  ultimately show ?thesis using assms(1) by (simp add: isys_ok_def claims_def)
qed

lemma absorb_new:
  assumes "map_of (i_runs ing) (tb_RunID b) = None"
  shows "absorb b t ing = absorb b t (with_new (tb_RunID b) ing)"
  using assms by (simp add: absorb_def with_new_def)

lemma absorb_ok:
  assumes "isys_ok s" "s_main s = Idle" "absorb b t (s_ing s) = (ing, res)"
  shows "isys_ok (s\<lparr>s_ing := ing, s_main := (case res of None \<Rightarrow> Idle | Some (p, c) \<Rightarrow> After (tb_RunID b) p c)\<rparr>)"
proof (cases "map_of (i_runs (s_ing s)) (tb_RunID b)")
  case None
  let ?s = "s\<lparr>s_ing := with_new (tb_RunID b) (s_ing s)\<rparr>"
  have "isys_ok ?s" using with_new_ok[OF assms(1) None] .
  moreover have "map_of (i_runs (s_ing ?s)) (tb_RunID b) = Some (length (i_heap (s_ing s)))" by (simp add: with_new_def)
  moreover have "absorb b t (s_ing ?s) = (ing, res)" using absorb_new[OF None] assms(3) by simp
  ultimately show ?thesis using absorb_known[of ?s b "length (i_heap (s_ing s))" t ing res] assms(2) by simp
next
  case (Some p)
  then show ?thesis using absorb_known[OF assms(1,2) Some assms(3)] by simp
qed

lemma set_gm_delete: "set (gm_delete m k) = {kv \<in> set m. fst kv \<noteq> k}"
  unfolding gm_delete_def by (auto simp: AList.delete_eq)

lemma finalize_write_runs:
  "i_runs (finalize_write d k p v ing) = gm_delete (i_runs ing) k" "i_heap (finalize_write d k p v ing) = i_heap ing"
  "map (fst \<circ> snd) (i_verdicts (finalize_write d k p v ing)) = map (fst \<circ> snd) (i_verdicts ing) @ [p]"
  "set (i_verdicts (finalize_write d k p v ing)) = insert (k, p, v_metrics v, v_score v) (set (i_verdicts ing))"
  by (simp_all add: finalize_write_def Let_def)

lemma finalize_write_table:
  assumes "table_ok ing" "map_of (i_runs ing) k = Some p"
  shows "table_ok (finalize_write d k p v ing)"
proof -
  have kp: "(k, p) \<in> set (i_runs ing)" using assms(2) by (rule map_of_SomeD)
  have "p \<notin> (fst \<circ> snd) ` set (i_verdicts ing)" using assms(1) kp by (force simp: table_ok_def)
  moreover have "p \<notin> snd ` set (gm_delete (i_runs ing) k)"
  proof
    assume "p \<in> snd ` set (gm_delete (i_runs ing) k)"
    then obtain k' where k': "k' \<noteq> k" "(k', p) \<in> set (i_runs ing)" by (auto simp: set_gm_delete)
    then have "map_of (i_runs ing) k' = Some p" using assms(1) by (simp add: table_ok_def gm_ok_def)
    then show False using runs_inj[OF assms] k'(1) by simp
  qed
  moreover have "distinct (map snd (gm_delete (i_runs ing) k))"
    using assms(1) unfolding gm_delete_def AList.delete_eq by (simp add: table_ok_def distinct_map_filter)
  moreover have "p < length (i_heap ing)" using runs_ptr[OF assms] .
  moreover have "\<forall>x \<in> set (i_verdicts ing). fst (snd x) \<notin> snd ` set (gm_delete (i_runs ing) k)"
    using assms(1) by (auto simp: table_ok_def set_gm_delete)
  ultimately show ?thesis
    using assms(1) unfolding table_ok_def finalize_write_runs
    by (auto simp: set_gm_delete)
qed

lemma finalize_write_task:
  "k \<notin> set (claim_of t) \<Longrightarrow> task_ok ing t \<Longrightarrow> task_ok (finalize_write d k p v ing) t"
  by (auto simp: task_ok_def claim_of_def finalize_write_runs split: task.splits)

lemma finalize_write_claimed:
  "k' \<noteq> k \<Longrightarrow> claimed_ok ing k' \<Longrightarrow> claimed_ok (finalize_write d k p v ing) k'"
  by (auto simp: claimed_ok_def finalize_write_runs)

lemma sweep_mark_ok:
  assumes "isys_ok s" "s_sweep s = Idle" "s_found s = []" "sweep_mark nows (s_ing s) = (ing, found)"
  shows "isys_ok (s\<lparr>s_ing := ing, s_found := found\<rparr>)"
proof -
  let ?i = "s_ing s" and ?S = "filter (is_stale nows (i_heap (s_ing s))) (i_runs (s_ing s))"
  have T: "table_ok ?i" using assms(1) by (simp add: isys_ok_def)
  have F: "fold (mark_step nows) (i_runs ?i) (i_heap ?i, []) =
      (map (\<lambda>q. if q \<in> snd ` set ?S then (i_heap ?i ! q)\<lparr>a_finalized := True\<rparr> else i_heap ?i ! q) [0..<length (i_heap ?i)],
       map fst ?S)"
    using mark_fold[of "i_runs ?i" "i_heap ?i" nows "[]"] T by (simp add: table_ok_def)
  then have I: "ing = ?i\<lparr>i_heap := map (\<lambda>q. if q \<in> snd ` set ?S then (i_heap ?i ! q)\<lparr>a_finalized := True\<rparr> else i_heap ?i ! q)
      [0..<length (i_heap ?i)]\<rparr>" and found: "found = map fst ?S"
    using assms(4) unfolding sweep_mark_def F by simp_all
  have ing: "i_runs ing = i_runs ?i" "i_verdicts ing = i_verdicts ?i" "length (i_heap ing) = length (i_heap ?i)"
    and heap: "\<forall>q < length (i_heap ?i). i_heap ing ! q =
      (if q \<in> snd ` set ?S then (i_heap ?i ! q)\<lparr>a_finalized := True\<rparr> else i_heap ?i ! q)"
    unfolding I by simp_all
  have "table_ok ing" using T by (simp add: table_ok_def ing)
  moreover have "task_ok ing t = task_ok ?i t" for t by (simp add: task_ok_def ing split: task.splits)
  moreover have old: "claimed_ok ing k" if c: "claimed_ok ?i k" for k
  proof -
    obtain p where "map_of (i_runs ?i) k = Some p" "a_finalized (i_heap ?i ! p)" using c unfolding claimed_ok_def by blast
    then show ?thesis using heap runs_ptr[OF T] by (auto simp: claimed_ok_def ing)
  qed
  moreover have new: "claimed_ok ing k \<and> k \<notin> set (claims s)" if c: "k \<in> set found" for k
  proof -
    obtain p where p: "(k, p) \<in> set ?S" using c found by auto
    then have m: "map_of (i_runs ?i) k = Some p" using T by (auto simp: table_ok_def gm_ok_def)
    have "p \<in> snd ` set ?S" using p by force
    moreover have "\<not> a_finalized (i_heap ?i ! p)" using p by (simp add: is_stale_def)
    ultimately show ?thesis
      using m heap runs_ptr[OF T m] unfinalized_unclaimed[OF assms(1) m] by (simp add: claimed_ok_def ing)
  qed
  moreover have "distinct found" using T unfolding found by (simp add: table_ok_def gm_ok_def distinct_map_filter)
  ultimately show ?thesis using assms by (auto simp: isys_ok_def claims_def claim_of_def)
qed

text \<open>A step that changes neither the table nor the aggregates, and hands claims on.\<close>

lemma frame_step:
  assumes "isys_ok s" "i_heap ing = i_heap (s_ing s)" "i_runs ing = i_runs (s_ing s)"
    "i_verdicts ing = i_verdicts (s_ing s)" "task_ok (s_ing s) t" "task_ok (s_ing s) u"
    "claim_of t @ claim_of u @ found = claims s"
  shows "isys_ok (s\<lparr>s_ing := ing, s_main := t, s_sweep := u, s_found := found\<rparr>)"
  using assms(1,5-7) ok_cong[OF assms(2-4)] by (simp add: isys_ok_def claims_def)

text \<open>The end of a \<open>finalize\<close> gives its claim up.\<close>

lemma write_step:
  assumes "isys_ok s" "map_of (i_runs (s_ing s)) k = Some p" "task_ok (s_ing s) t" "task_ok (s_ing s) u"
    "mset (claims s) = add_mset k (mset (claim_of t @ claim_of u @ s_found s))"
  shows "isys_ok (s\<lparr>s_ing := finalize_write d k p v (s_ing s), s_main := t, s_sweep := u\<rparr>)"
proof -
  let ?c = "claim_of t @ claim_of u @ s_found s"
  have "distinct (k # ?c)"
    using assms(1) mset_eq_imp_distinct_iff[of "claims s" "k # ?c"] assms(5) by (simp add: isys_ok_def)
  moreover have "set (claims s) = set (k # ?c)"
    using mset_eq_setD[of "claims s" "k # ?c"] assms(5) by simp
  then have old: "\<forall>k' \<in> set ?c. claimed_ok (s_ing s) k'" using assms(1) by (simp add: isys_ok_def)
  ultimately have "\<forall>k' \<in> set ?c. claimed_ok (finalize_write d k p v (s_ing s)) k'"
    by (auto intro!: finalize_write_claimed)
  moreover have "task_ok (finalize_write d k p v (s_ing s)) t" "task_ok (finalize_write d k p v (s_ing s)) u"
    using \<open>distinct (k # ?c)\<close> assms(3,4) by (auto intro!: finalize_write_task)
  moreover have "table_ok (finalize_write d k p v (s_ing s))"
    using assms(1,2) by (simp add: isys_ok_def finalize_write_table)
  ultimately show ?thesis
    using assms(1) \<open>distinct (k # ?c)\<close> by (simp add: isys_ok_def claims_def)
qed

lemma istep_ok:
  assumes "isys_ok s" "istep d ev s = Some s'"
  shows "isys_ok s'"
proof (cases ev)
  case (Batch b t)
  obtain ing res where a: "absorb b t (s_ing s) = (ing, res)" by fastforce
  with assms(2) Batch have "s_main s = Idle"
    "s' = s\<lparr>s_ing := ing, s_main := (case res of None \<Rightarrow> Idle | Some (p, c) \<Rightarrow> After (tb_RunID b) p c)\<rparr>"
    by (auto simp: istep_def Let_def split: if_splits)
  then show ?thesis using absorb_ok[OF assms(1) _ a] by simp
next
  case (MainRest t1 t2)
  then obtain k p c where m: "s_main s = After k p c" using assms(2) by (auto simp: istep_def Let_def split: task.splits)
  have T: "task_ok (s_ing s) (After k p c)" "task_ok (s_ing s) (s_sweep s)" using assms(1) m by (simp_all add: isys_ok_def)
  show ?thesis
  proof (cases c)
    case True
    let ?r = "finalize_read d k p t1 (s_ing s)"
    have "s' = s\<lparr>s_ing := fst ?r, s_main := Write k p (snd ?r), s_sweep := s_sweep s, s_found := s_found s\<rparr>"
      using assms(2) MainRest m True by (auto simp: istep_def Let_def split_beta)
    then show ?thesis
      using frame_step[OF assms(1) finalize_read_frame, of "Write k p (snd ?r)" "s_sweep s" "s_found s"] T m True
      by (simp add: claims_def claim_of_def[of "Write k p (snd ?r)"] claim_of_def[of "After k p True"] task_ok_def[of _ "Write k p (snd ?r)"]
          task_ok_def[of _ "After k p True"])
  next
    case False
    have "s' = s\<lparr>s_ing := live d k p t1 t2 (s_ing s), s_main := Idle, s_sweep := s_sweep s, s_found := s_found s\<rparr>"
      using assms(2) MainRest m False by (auto simp: istep_def Let_def)
    then show ?thesis
      using frame_step[OF assms(1) live_frame, of Idle "s_sweep s" "s_found s" d k p t1 t2] T m False
      by (simp add: claims_def claim_of_def[of Idle] claim_of_def[of "After k p False"] task_ok_def[of _ Idle])
  qed
next
  case MainWrite
  then obtain k p v where m: "s_main s = Write k p v" and s': "s' = s\<lparr>s_ing := finalize_write d k p v (s_ing s), s_main := Idle\<rparr>"
    using assms(2) by (auto simp: istep_def Let_def split: task.splits)
  then show ?thesis
    using write_step[OF assms(1), of k p Idle "s_sweep s" d v] assms(1)
    by (simp add: isys_ok_def claims_def claim_of_def[of "Write k p v"] claim_of_def[of Idle] task_ok_def[of _ Idle]
        task_ok_def[of _ "Write k p v"])
next
  case (SweepTick nows)
  obtain ing found where a: "sweep_mark nows (s_ing s) = (ing, found)" by fastforce
  with assms(2) SweepTick have "s_sweep s = Idle" "s_found s = []" "s' = s\<lparr>s_ing := ing, s_found := found\<rparr>"
    by (auto simp: istep_def Let_def split: if_splits)
  then show ?thesis using sweep_mark_ok[OF assms(1) _ _ a] by simp
next
  case (SweepRead now)
  then obtain k found where f: "s_sweep s = Idle" "s_found s = k # found"
    using assms(2) by (auto simp: istep_def Let_def split: task.splits list.splits)
  then obtain p where p: "map_of (i_runs (s_ing s)) k = Some p"
    using assms(1) unfolding isys_ok_def claims_def claimed_ok_def by fastforce
  let ?r = "finalize_read d k p now (s_ing s)"
  have "s' = s\<lparr>s_ing := fst ?r, s_main := s_main s, s_sweep := Write k p (snd ?r), s_found := found\<rparr>"
    using assms(2) SweepRead f p by (auto simp: istep_def Let_def split_beta)
  then show ?thesis
    using frame_step[OF assms(1) finalize_read_frame, of "s_main s" "Write k p (snd ?r)" found] assms(1) f p
    by (simp add: isys_ok_def[of s] claims_def claim_of_def[of "Write k p (snd ?r)"] claim_of_def[of Idle]
        task_ok_def[of _ "Write k p (snd ?r)"])
next
  case SweepWrite
  then obtain k p v where m: "s_sweep s = Write k p v" and s': "s' = s\<lparr>s_ing := finalize_write d k p v (s_ing s), s_sweep := Idle\<rparr>"
    using assms(2) by (auto simp: istep_def Let_def split: task.splits)
  then show ?thesis
    using write_step[OF assms(1), of k p "s_main s" Idle d v] assms(1)
    by (simp add: isys_ok_def claims_def claim_of_def[of "Write k p v"] claim_of_def[of Idle] task_ok_def[of _ Idle]
        task_ok_def[of _ "Write k p v"])
qed

lemma reachable_ok: "ing_reachable d r s \<Longrightarrow> isys_ok s"
proof (induction rule: ing_reachable.induct)
  case start
  show ?case
    by (simp add: isys_init_def ing_init_def isys_ok_def table_ok_def task_ok_def claims_def claim_of_def)
qed (rule istep_ok)

section \<open>What a verdict is about\<close>

text \<open>A finalized aggregate never changes again, although goroutines go on reading it outside the mutex.\<close>

definition frozen :: "runAgg list \<Rightarrow> runAgg list \<Rightarrow> bool" where
  "frozen h h' \<longleftrightarrow> length h \<le> length h' \<and> (\<forall>p < length h. a_finalized (h ! p) \<longrightarrow> h' ! p = h ! p)"

lemma frozen_refl [simp]: "frozen h h"
  by (simp add: frozen_def)

lemma frozen_update: "\<not> a_finalized (h ! p) \<Longrightarrow> frozen h (h[p := agg])"
  unfolding frozen_def by (metis length_list_update nth_list_update_neq order_refl)

lemma frozen_absorb:
  assumes "table_ok ing" "absorb b t ing = (ing', res)"
  shows "frozen (i_heap ing) (i_heap ing')" "i_verdicts ing' = i_verdicts ing"
proof -
  have "frozen (i_heap ing) (i_heap ing') \<and> i_verdicts ing' = i_verdicts ing"
  proof (cases "map_of (i_runs ing) (tb_RunID b)")
    case None
    then show ?thesis using assms(2) by (auto simp: absorb_def frozen_def Let_def nth_append split: if_splits)
  next
    case (Some p)
    then show ?thesis using assms(2) by (auto simp: absorb_def Let_def intro: frozen_update split: if_splits)
  qed
  then show "frozen (i_heap ing) (i_heap ing')" "i_verdicts ing' = i_verdicts ing" by simp_all
qed

lemma frozen_mark: "frozen h (fst (mark_step nows kp (h, found)))"
  by (simp add: mark_step_def is_stale_def frozen_update)

lemma frozen_trans: "frozen h h' \<Longrightarrow> frozen h' h'' \<Longrightarrow> frozen h h''"
  unfolding frozen_def by (metis order_less_le_trans order_trans)

lemma frozen_sweep: "sweep_mark nows ing = (ing', found) \<Longrightarrow> frozen (i_heap ing) (i_heap ing') \<and> i_verdicts ing' = i_verdicts ing"
proof -
  have "frozen h (fst (fold (mark_step nows) rs (h, found)))" for h found rs
  proof (induction rs arbitrary: h found)
    case (Cons kp rs)
    obtain h1 f1 where m: "mark_step nows kp (h, found) = (h1, f1)" by fastforce
    then have "frozen h h1" using frozen_mark[of h nows kp found] by simp
    with Cons.IH[of h1 f1] m show ?case using frozen_trans by (auto simp del: fold_simps simp: fold_Cons)
  qed simp
  from this[of "i_heap ing" "i_runs ing" "[]"] show "sweep_mark nows ing = (ing', found) \<Longrightarrow> ?thesis"
    by (auto simp: sweep_mark_def split: prod.splits)
qed

definition task_judged :: "'r deps \<Rightarrow> runAgg list \<Rightarrow> task \<Rightarrow> bool" where
  "task_judged d h t \<longleftrightarrow> (case t of Write k p v \<Rightarrow> v_metrics v = compute (mPow d) (h ! p) | _ \<Rightarrow> True)"

definition judged :: "'r deps \<Rightarrow> 'r isys \<Rightarrow> bool" where
  "judged d s \<longleftrightarrow>
     (\<forall>(k, p, m, sc) \<in> set (i_verdicts (s_ing s)). a_finalized (i_heap (s_ing s) ! p) \<and> m = compute (mPow d) (i_heap (s_ing s) ! p)) \<and>
     task_judged d (i_heap (s_ing s)) (s_main s) \<and> task_judged d (i_heap (s_ing s)) (s_sweep s)"

lemma write_finalized:
  assumes "isys_ok s" "Write k p v \<in> {s_main s, s_sweep s}"
  shows "a_finalized (i_heap (s_ing s) ! p)" "p < length (i_heap (s_ing s))"
proof -
  have w: "s_main s = Write k p v \<or> s_sweep s = Write k p v" using assms(2) by auto
  then have "k \<in> set (claims s)" by (auto simp: claims_def claim_of_def)
  then have "claimed_ok (s_ing s) k" using assms(1) by (simp add: isys_ok_def)
  moreover have "task_ok (s_ing s) (Write k p v)" using assms(1) w by (auto simp: isys_ok_def)
  ultimately show "a_finalized (i_heap (s_ing s) ! p)" by (auto simp: claimed_ok_def task_ok_def)
  show "p < length (i_heap (s_ing s))"
    using runs_ptr[of "s_ing s" k p] assms(1) \<open>task_ok (s_ing s) (Write k p v)\<close> by (simp add: isys_ok_def task_ok_def)
qed

lemma task_judged_frozen:
  assumes "isys_ok s" "t \<in> {s_main s, s_sweep s}" "task_judged d (i_heap (s_ing s)) t" "frozen (i_heap (s_ing s)) h"
  shows "task_judged d h t"
proof (cases t)
  case (Write k p v)
  then show ?thesis using assms write_finalized[OF assms(1), of k p v] by (auto simp: task_judged_def frozen_def)
qed (simp_all add: task_judged_def)

lemma verdicts_frozen:
  assumes "isys_ok s" "judged d s" "frozen (i_heap (s_ing s)) h"
  shows "\<forall>(k, p, m, sc) \<in> set (i_verdicts (s_ing s)). a_finalized (h ! p) \<and> m = compute (mPow d) (h ! p)"
proof -
  have "\<forall>x \<in> set (i_verdicts (s_ing s)). fst (snd x) < length (i_heap (s_ing s))"
    using assms(1) by (simp add: isys_ok_def table_ok_def)
  then show ?thesis using assms(2,3) by (fastforce simp: judged_def frozen_def)
qed

text \<open>The end of a \<open>finalize\<close> announces the metrics it computed.\<close>

lemma judged_write:
  assumes "isys_ok s" "judged d s" "Write k p v \<in> {s_main s, s_sweep s}" "t \<in> {s_main s, Idle}" "u \<in> {s_sweep s, Idle}"
  shows "judged d (s\<lparr>s_ing := finalize_write d k p v (s_ing s), s_main := t, s_sweep := u\<rparr>)"
proof -
  have "s_main s = Write k p v \<or> s_sweep s = Write k p v" using assms(3) by auto
  then have "v_metrics v = compute (mPow d) (i_heap (s_ing s) ! p)"
    using assms(2) by (auto simp: judged_def task_judged_def)
  then show ?thesis
    using assms(2,4,5) write_finalized(1)[OF assms(1,3)]
    by (auto simp: judged_def finalize_write_runs task_judged_def)
qed

lemma judged_step:
  assumes "isys_ok s" "judged d s" "istep d ev s = Some s'"
  shows "judged d s'"
proof (cases ev)
  case (Batch b t)
  obtain ing res where a: "absorb b t (s_ing s) = (ing, res)" by fastforce
  note fr = frozen_absorb[OF _ a]
  have T: "table_ok (s_ing s)" using assms(1) by (simp add: isys_ok_def)
  have "s' = s\<lparr>s_ing := ing, s_main := (case res of None \<Rightarrow> Idle | Some (p, c) \<Rightarrow> After (tb_RunID b) p c)\<rparr>"
    using assms(3) Batch a by (auto simp: istep_def Let_def split: if_splits)
  moreover have "task_judged d (i_heap ing) (s_sweep s)"
    by (rule task_judged_frozen[OF assms(1) _ _ fr(1)[OF T]]) (use assms(2) in \<open>simp_all add: judged_def\<close>)
  ultimately show ?thesis
    using verdicts_frozen[OF assms(1,2) fr(1)[OF T]] fr(2)[OF T]
    by (simp add: judged_def task_judged_def split: option.split)
next
  case (SweepTick nows)
  obtain ing found where a: "sweep_mark nows (s_ing s) = (ing, found)" by fastforce
  note fr = frozen_sweep[OF a, THEN conjunct1] frozen_sweep[OF a, THEN conjunct2]
  have "s' = s\<lparr>s_ing := ing, s_found := found\<rparr>"
    using assms(3) SweepTick a by (auto simp: istep_def Let_def split: if_splits)
  moreover have "task_judged d (i_heap ing) (s_main s)" "task_judged d (i_heap ing) (s_sweep s)"
    by (rule task_judged_frozen[OF assms(1) _ _ fr(1)], use assms(2) in \<open>simp_all add: judged_def\<close>)+
  ultimately show ?thesis using verdicts_frozen[OF assms(1,2) fr(1)] fr(2) by (simp add: judged_def)
next
  case (MainRest t1 t2)
  then obtain k p c where m: "s_main s = After k p c" using assms(3) by (auto simp: istep_def Let_def split: task.splits)
  let ?r = "finalize_read d k p t1 (s_ing s)"
  have "s' = (if c then s\<lparr>s_ing := fst ?r, s_main := Write k p (snd ?r)\<rparr>
      else s\<lparr>s_ing := live d k p t1 t2 (s_ing s), s_main := Idle\<rparr>)"
    using assms(3) MainRest m by (auto simp: istep_def Let_def split_beta split: if_splits)
  then show ?thesis
    using assms(2) unfolding judged_def
    by (simp add: finalize_read_frame live_frame task_judged_def[of _ _ Idle] task_judged_def[of _ _ "Write k p (snd ?r)"] finalize_read_metrics)
next
  case (SweepRead now)
  then obtain k found where f: "s_sweep s = Idle" "s_found s = k # found"
    using assms(3) by (auto simp: istep_def Let_def split: task.splits list.splits)
  show ?thesis
  proof (cases "map_of (i_runs (s_ing s)) k")
    case None
    then have "s' = s\<lparr>s_crashed := True\<rparr>" using assms(3) SweepRead f by (simp add: istep_def Let_def)
    then show ?thesis using assms(2) by (simp add: judged_def)
  next
    case (Some p)
    let ?r = "finalize_read d k p now (s_ing s)"
    have "s' = s\<lparr>s_ing := fst ?r, s_sweep := Write k p (snd ?r), s_found := found\<rparr>"
      using assms(3) SweepRead f Some by (simp add: istep_def Let_def split_beta)
    then show ?thesis
      using assms(2) unfolding judged_def
      by (simp add: finalize_read_frame task_judged_def[of _ _ "Write k p (snd ?r)"] finalize_read_metrics)
  qed
next
  case MainWrite
  then obtain k p v where "s_main s = Write k p v" "s' = s\<lparr>s_ing := finalize_write d k p v (s_ing s), s_main := Idle\<rparr>"
    using assms(3) by (auto simp: istep_def Let_def split: task.splits)
  then show ?thesis using judged_write[OF assms(1,2), of k p v Idle "s_sweep s"] by simp
next
  case SweepWrite
  then obtain k p v where "s_sweep s = Write k p v" "s' = s\<lparr>s_ing := finalize_write d k p v (s_ing s), s_sweep := Idle\<rparr>"
    using assms(3) by (auto simp: istep_def Let_def split: task.splits)
  then show ?thesis using judged_write[OF assms(1,2), of k p v "s_main s" Idle] by simp
qed

lemma reachable_judged: "ing_reachable d r s \<Longrightarrow> judged d s"
proof (induction rule: ing_reachable.induct)
  case start
  show ?case by (simp add: judged_def isys_init_def ing_init_def task_judged_def)
qed (metis judged_step reachable_ok)

text \<open>
  (C6) The consumer and the sweeper do not step on each other: however their critical sections
  are interleaved, the sweeper never dereferences a run that is gone, no aggregate gets two
  verdicts, no run is being finalized by both goroutines, an aggregate that has had its verdict
  is out of the table, and every verdict is of an aggregate that was finalized before and has
  not changed since: its metrics are those of the aggregate as it is now.
\<close>

theorem one_verdict_per_aggregate:
  assumes "ing_reachable d r s"
  shows "\<not> s_crashed s \<and> distinct (map (fst \<circ> snd) (i_verdicts (s_ing s))) \<and> distinct (claims s) \<and>
    (fst \<circ> snd) ` set (i_verdicts (s_ing s)) \<inter> snd ` set (i_runs (s_ing s)) = {} \<and>
    (\<forall>(runID, p, m, sc) \<in> set (i_verdicts (s_ing s)).
       a_finalized (i_heap (s_ing s) ! p) \<and> m = compute (mPow d) (i_heap (s_ing s) ! p))"
proof -
  have "isys_ok s" using assms by (rule reachable_ok)
  then have "\<not> s_crashed s \<and> distinct (map (fst \<circ> snd) (i_verdicts (s_ing s))) \<and> distinct (claims s) \<and>
      (fst \<circ> snd) ` set (i_verdicts (s_ing s)) \<inter> snd ` set (i_runs (s_ing s)) = {}"
    by (force simp: isys_ok_def table_ok_def)
  moreover have "judged d s" using assms by (rule reachable_judged)
  ultimately show ?thesis unfolding judged_def by blast
qed

text \<open>Running a list of events; every state on the way is reachable.\<close>

definition irun :: "'r deps \<Rightarrow> ievent list \<Rightarrow> 'r isys \<Rightarrow> 'r isys option" where
  "irun d evs s = fold (\<lambda>ev so. Option.bind so (istep d ev)) evs (Some s)"

lemma irun_None: "fold (\<lambda>ev so. Option.bind so (istep d ev)) evs None = None"
  by (induction evs) simp_all

lemma irun_Nil [simp]: "irun d [] s = Some s"
  by (simp add: irun_def)

lemma irun_Cons [simp]: "irun d (ev # evs) s = (case istep d ev s of None \<Rightarrow> None | Some s' \<Rightarrow> irun d evs s')"
  by (simp add: irun_def irun_None split: option.split)

lemma irun_reachable: "ing_reachable d r s \<Longrightarrow> irun d evs s = Some s' \<Longrightarrow> ing_reachable d r s'"
  by (induction evs arbitrary: s) (auto split: option.splits intro: ing_reachable.step)

lemma irun_append: "irun d (xs @ ys) s = Option.bind (irun d xs s) (irun d ys)"
  by (induction xs arbitrary: s) (auto split: option.split)

definition demo_batch :: TelemetryBatch where
  "demo_batch = \<lparr>tb_RunID = ''r1'', tb_Shard = 0, tb_TotalShards = 2, tb_Final = False, tb_Sent = 5, tb_Acked = 5,
     tb_Errors = 0, tb_Violations = 0, tb_Hist = [(3, 5)], tb_SecAcks = [(100, 5)], tb_SecErrs = [], tb_Samples = []\<rparr>"

definition demo_deps :: "memdb deps" where
  "demo_deps = \<lparr>rdb = mem, Log10 = log 10, mPow = (powr), Marshal = \<lambda>rows. ''[]'', pgDSN = [], pgConnect = False,
     pgCreate = False, pgInsert = False\<rparr>"

definition demo_isys :: "memdb isys" where
  "demo_isys = (let (ing, res) = absorb demo_batch 0 (ing_init mem_empty)
     in (isys_init mem_empty)\<lparr>s_ing := ing, s_main := After ''r1'' 0 False\<rparr>)"

lemma demo_absorb: "absorb demo_batch 0 (ing_init r) =
   ((ing_init r)\<lparr>i_heap := [absorb_agg demo_batch 0 new_agg], i_runs := [(''r1'', 0)]\<rparr>, Some (0, False))"
  by (simp add: absorb_def ing_init_def demo_batch_def gm_put_def new_agg_def absorb_agg_def Let_def)

text \<open>A run is swept up and judged: one batch, a tick a minute later, and the sweeper's two steps.\<close>

theorem one_verdict_per_aggregate_witness:
  "\<exists>s m sc. irun demo_deps [Batch demo_batch 0, SweepTick (\<lambda>k. 61 * 10 ^ 9), SweepRead (61 * 10 ^ 9), SweepWrite] (isys_init mem_empty) = Some s \<and>
     i_verdicts (s_ing s) = [(''r1'', 0, m, sc)] \<and> i_runs (s_ing s) = [] \<and> \<not> s_crashed s \<and>
     a_finalized (i_heap (s_ing s) ! 0) \<and> m = compute (powr) (i_heap (s_ing s) ! 0)"
proof -
  let ?agg = "absorb_agg demo_batch 0 new_agg" and ?t = "61 * 10 ^ 9 :: int"
  define ing where "ing = (ing_init mem_empty)\<lparr>i_heap := [?agg\<lparr>a_finalized := True\<rparr>], i_runs := [(''r1'', 0)]\<rparr>"
  define s2 where "s2 = (isys_init mem_empty)\<lparr>s_ing := ing, s_main := After ''r1'' 0 False, s_found := [''r1'']\<rparr>"
  obtain ing3 v where fr: "finalize_read demo_deps ''r1'' 0 ?t ing = (ing3, v)" by fastforce
  define s where "s = s2\<lparr>s_ing := finalize_write demo_deps ''r1'' 0 v ing3, s_found := []\<rparr>"
  have a: "\<not> a_finalized ?agg" "a_lastSeen ?agg = 0"
    by (simp_all add: absorb_agg_def demo_batch_def new_agg_def Let_def)
  have b: "istep demo_deps (Batch demo_batch 0) (isys_init mem_empty) = Some demo_isys"
    by (simp add: istep_def isys_init_def demo_absorb demo_isys_def) (simp add: demo_batch_def)
  have t: "istep demo_deps (SweepTick (\<lambda>k. ?t)) demo_isys = Some s2"
    using a by (simp add: istep_def demo_isys_def demo_absorb isys_init_def sweep_mark_def mark_step_def is_stale_def staleAfter_def s2_def ing_def)
  have r: "istep demo_deps (SweepRead ?t) s2 = Some (s2\<lparr>s_ing := ing3, s_sweep := Write ''r1'' 0 v, s_found := []\<rparr>)"
    using fr by (simp add: istep_def s2_def isys_init_def ing_def)
  have w: "istep demo_deps SweepWrite (s2\<lparr>s_ing := ing3, s_sweep := Write ''r1'' 0 v, s_found := []\<rparr>) = Some s"
    by (simp add: istep_def s_def s2_def isys_init_def)
  have run: "irun demo_deps [Batch demo_batch 0, SweepTick (\<lambda>k. ?t), SweepRead ?t, SweepWrite] (isys_init mem_empty) = Some s"
    unfolding irun_Cons b t r w option.case irun_Nil ..
  have f: "i_verdicts ing3 = []" "i_runs ing3 = [(''r1'', 0)]"
    using finalize_read_frame(2,3)[of demo_deps "''r1''" 0 ?t ing] unfolding fr by (simp_all add: ing_def ing_init_def)
  have "i_verdicts (s_ing s) = [(''r1'', 0, v_metrics v, v_score v)]" "i_runs (s_ing s) = []"
    using f by (simp_all add: s_def finalize_write_def gm_delete_def Let_def)
  moreover have "ing_reachable demo_deps mem_empty s" by (rule irun_reachable[OF ing_reachable.start run])
  ultimately show ?thesis
    using run one_verdict_per_aggregate[of demo_deps mem_empty s] by (auto simp: demo_deps_def)
qed

section \<open>Aggregation\<close>

text \<open>An aggregate that absorbs batches at given times.\<close>

definition absorb_all :: "(TelemetryBatch \<times> int) list \<Rightarrow> runAgg \<Rightarrow> runAgg" where
  "absorb_all bts agg = fold (\<lambda>(b, t). absorb_agg b t) bts agg"

abbreviation parts :: "(TelemetryBatch \<Rightarrow> 'a list) \<Rightarrow> (TelemetryBatch \<times> int) list \<Rightarrow> 'a list" where
  "parts sel bts \<equiv> concat (map (sel \<circ> fst) bts)"

abbreviation total_of :: "(TelemetryBatch \<Rightarrow> int) \<Rightarrow> (TelemetryBatch \<times> int) list \<Rightarrow> int" where
  "total_of sel bts \<equiv> sum_list (map (sel \<circ> fst) bts)"

lemma absorb_all_maps:
  "a_hist (absorb_all bts agg) = gm_adds (a_hist agg) (parts tb_Hist bts)"
  "a_secAcks (absorb_all bts agg) = gm_adds (a_secAcks agg) (parts tb_SecAcks bts)"
  "a_secErrs (absorb_all bts agg) = gm_adds (a_secErrs agg) (parts tb_SecErrs bts)"
  unfolding absorb_all_def
  by (induction bts arbitrary: agg) (auto simp: absorb_agg_def Let_def Merge_def)

lemma absorb_all_counters:
  "a_sent (absorb_all bts agg) = (if bts = [] then a_sent agg else i64 (a_sent agg + total_of tb_Sent bts))"
  "a_acked (absorb_all bts agg) = (if bts = [] then a_acked agg else i64 (a_acked agg + total_of tb_Acked bts))"
  "a_errors (absorb_all bts agg) = (if bts = [] then a_errors agg else i64 (a_errors agg + total_of tb_Errors bts))"
  "a_violations (absorb_all bts agg) = (if bts = [] then a_violations agg else i64 (a_violations agg + total_of tb_Violations bts))"
  unfolding absorb_all_def
  by (induction bts arbitrary: agg) (auto simp: absorb_agg_def Let_def add.assoc)

lemma absorb_all_shards:
  assumes "gm_ok (a_finalShards agg)"
  shows "gm_ok (a_finalShards (absorb_all bts agg))"
    "fst ` set (a_finalShards (absorb_all bts agg)) =
       fst ` set (a_finalShards agg) \<union> {tb_Shard b |b. b \<in> fst ` set bts \<and> tb_Final b}"
proof -
  have put: "fst ` set (gm_put m k v) = insert k (fst ` set m)" for m :: "(int, bool) gomap" and k v
    by (metis dom_map_of_conv_image_fst dom_fun_upd map_of_gm_put option.distinct(1))
  show "gm_ok (a_finalShards (absorb_all bts agg))"
    using assms unfolding absorb_all_def
    by (induction bts arbitrary: agg) (auto simp: absorb_agg_def Let_def)
  show "fst ` set (a_finalShards (absorb_all bts agg)) =
       fst ` set (a_finalShards agg) \<union> {tb_Shard b |b. b \<in> fst ` set bts \<and> tb_Final b}"
    unfolding absorb_all_def
  proof (induction bts arbitrary: agg)
    case (Cons bt bts)
    have "fst ` set (a_finalShards (absorb_agg b t agg)) =
        fst ` set (a_finalShards agg) \<union> (if tb_Final b then {tb_Shard b} else {})" for b t
      by (simp add: absorb_agg_def Let_def put)
    with Cons show ?case by (cases bt) auto
  qed simp
qed

text \<open>The metrics depend on the maps and counters only, not on the order of the maps.\<close>

lemma compute_cong:
  assumes "map_of (a_hist x) = map_of (a_hist y)" "gm_ok (a_hist x)" "gm_ok (a_hist y)"
    "map_of (a_secAcks x) = map_of (a_secAcks y)" "gm_ok (a_secAcks x)" "gm_ok (a_secAcks y)"
    "map_of (a_secErrs x) = map_of (a_secErrs y)"
    "a_sent x = a_sent y" "a_acked x = a_acked y" "a_errors x = a_errors y" "a_violations x = a_violations y"
  shows "compute powf x = compute powf y"
proof -
  have "Quantile powf (a_hist x) q = Quantile powf (a_hist y) q" for q
    using assms(1-3) by (intro Quantile_cong)
  moreover have "tps_step x = tps_step y" using assms(4,7) by (simp add: tps_step_def fun_eq_iff gm_get_def)
  moreover have "mset (a_secAcks x) = mset (a_secAcks y)" using assms(4-6) by (intro gomap_mset_eq)
  then have "sort (map fst (a_secAcks x)) = sort (map fst (a_secAcks y))"
    by (metis mset_map sorted_list_of_multiset_mset)
  ultimately show ?thesis using assms(8-11) by (simp add: compute_def)
qed

text \<open>Absorbing is insensitive to the order of the batches.\<close>

lemma absorb_all_perm:
  assumes "mset (map fst bts) = mset (map fst bts')"
  defines "x \<equiv> absorb_all bts new_agg" and "y \<equiv> absorb_all bts' new_agg"
  shows "compute powf x = compute powf y \<and> a_sent x = a_sent y \<and> a_acked x = a_acked y \<and>
    a_errors x = a_errors y \<and> a_violations x = a_violations y \<and>
    fst ` set (a_finalShards x) = fst ` set (a_finalShards y) \<and>
    length (a_finalShards x) = length (a_finalShards y)"
proof -
  have parts: "mset (parts sel bts) = mset (parts sel bts')" for sel :: "TelemetryBatch \<Rightarrow> (int \<times> int) list"
  proof -
    have "mset (concat (map sel bs)) = sum_mset (image_mset (mset \<circ> sel) (mset bs))" for bs
      by (induction bs) auto
    from this[of "map fst bts"] this[of "map fst bts'"] assms(1) show ?thesis by simp
  qed
  have total: "total_of sel bts = total_of sel bts'" for sel
  proof -
    have "sum_list (map sel bs) = sum_mset (image_mset sel (mset bs))" for bs by (simp add: sum_mset_sum_list flip: mset_map)
    from this[of "map fst bts"] this[of "map fst bts'"] assms(1) show ?thesis by simp
  qed
  have nil: "bts = [] \<longleftrightarrow> bts' = []" using assms(1) by (metis list.map_disc_iff mset_zero_iff)
  have maps: "map_of (gm_adds [] (parts sel bts)) = map_of (gm_adds [] (parts sel bts'))"
    for sel :: "TelemetryBatch \<Rightarrow> (int \<times> int) list"
    using parts[of sel] by (rule gm_adds_perm)
  have c: "a_sent x = a_sent y" "a_acked x = a_acked y" "a_errors x = a_errors y" "a_violations x = a_violations y"
    unfolding x_def y_def absorb_all_counters using total nil by simp_all
  moreover have "compute powf x = compute powf y"
    by (rule compute_cong) (use c maps in \<open>simp_all add: x_def y_def absorb_all_maps new_agg_def\<close>)
  moreover have s: "fst ` set (a_finalShards x) = fst ` set (a_finalShards y)"
    using absorb_all_shards(2)[of new_agg bts] absorb_all_shards(2)[of new_agg bts'] mset_eq_setD[OF assms(1)]
    by (simp add: x_def y_def new_agg_def)
  moreover have "length (a_finalShards x) = length (a_finalShards y)"
    using s absorb_all_shards(1)[of new_agg bts] absorb_all_shards(1)[of new_agg bts']
    by (simp add: x_def y_def new_agg_def gm_ok_def) (metis distinct_card length_map set_map)
  ultimately show ?thesis by blast
qed

section \<open>Throughput\<close>

text \<open>A second counts when it saw traffic and its error rate, as computed, is under one percent.\<close>

definition good_second :: "runAgg \<Rightarrow> int \<Rightarrow> bool" where
  "good_second agg s \<longleftrightarrow>
     (let a = float64_of (gm_get 0 (a_secAcks agg) s); e = float64_of (gm_get 0 (a_secErrs agg) s)
      in fl (a + e) \<noteq> 0 \<and> fl (e / fl (a + e)) < fl (1 / 100))"

lemma tps_fold:
  "fold (tps_step agg) ss t =
     Max (insert t ((\<lambda>s. float64_of (gm_get 0 (a_secAcks agg) s)) ` {s \<in> set ss. good_second agg s}))"
proof (induction ss arbitrary: t)
  case (Cons s ss)
  let ?f = "\<lambda>s. float64_of (gm_get 0 (a_secAcks agg) s)"
  let ?G = "{s \<in> set ss. good_second agg s}"
  have st: "tps_step agg s t = (if good_second agg s then max t (?f s) else t)"
    by (auto simp: tps_step_def good_second_def Let_def)
  have fin: "finite (?f ` ?G)" by simp
  have m: "Max (insert (max a b) A) = Max (insert a (insert b A))" if "finite A" for a b :: float64 and A
    using that by (cases "A = {}") (auto simp: max.assoc)
  show ?case
  proof (cases "good_second agg s")
    case True
    then have "{s' \<in> set (s # ss). good_second agg s'} = insert s ?G" by auto
    with True Cons.IH[of "max t (?f s)"] st m[OF fin, of t "?f s"] show ?thesis by simp
  next
    case False
    then have "{s' \<in> set (s # ss). good_second agg s'} = ?G" by auto
    with False Cons.IH[of t] st show ?thesis by simp
  qed
qed simp

text \<open>
  (C36) The reported throughput is the best sustained second: the largest number of
  acknowledgements in a second whose error rate is under one percent, and 0 when there is no
  such second.
\<close>

theorem tps_is_best_second:
  "tps (compute powf agg) =
     Max (insert 0 ((\<lambda>s. float64_of (gm_get 0 (a_secAcks agg) s)) ` {s \<in> fst ` set (a_secAcks agg). good_second agg s}))"
  by (simp add: compute_def tps_fold)

section \<open>The leaderboard\<close>

lemma ZSCORE_snapshot:
  "zset_ok (rdb d) \<Longrightarrow> k \<noteq> ''leaderboard:snapshot'' \<Longrightarrow> ZSCORE (rdb d) (publishSnapshot d r) k m = ZSCORE (rdb d) r k m"
  by (simp add: publishSnapshot_def Let_def ZSCORE_simps split: option.split)

lemma HGET_snapshot:
  "hash_ok (rdb d) \<Longrightarrow> k \<noteq> ''leaderboard:snapshot'' \<Longrightarrow> HGET (rdb d) (publishSnapshot d r) k f = HGET (rdb d) r k f"
  by (simp add: publishSnapshot_def Let_def HGET_other split: option.split)

lemma finalize_read_score:
  "v_score (snd (finalize_read d k p t ing)) =
     Composite (Log10 d) (p99 (compute (mPow d) (i_heap ing ! p))) (tps (compute (mPow d) (i_heap ing ! p)))
       (correctness (compute (mPow d) (i_heap ing ! p)))
       (case HGET (rdb d) (i_rdb ing) (''run:'' @ k) ''conformance_score'' of Some v \<Rightarrow> ParseFloat v | None \<Rightarrow> 0)"
  by (simp add: finalize_read_def Let_def)

lemma finalize_read_redis:
  assumes "redis_ok (rdb d)"
  shows "ZSCORE (rdb d) (i_rdb (fst (finalize_read d k p t ing))) z m = ZSCORE (rdb d) (i_rdb ing) z m"
    "HGET (rdb d) (i_rdb (fst (finalize_read d k p t ing))) (''run:'' @ k) ''status'' = Some ''done''"
    "v_sub (snd (finalize_read d k p t ing)) =
       (case HGET (rdb d) (i_rdb ing) (''run:'' @ k) ''submission_id'' of Some v \<Rightarrow> v | None \<Rightarrow> [])"
    "v_cur (snd (finalize_read d k p t ing)) =
       (if v_sub (snd (finalize_read d k p t ing)) \<noteq> []
        then ZSCORE (rdb d) (i_rdb ing) ''leaderboard'' (v_sub (snd (finalize_read d k p t ing))) else None)"
  using assms
  by (simp_all add: finalize_read_def writeResult_def Let_def redis_ok_def ZSCORE_simps HGET_HSET)

lemma finalize_write_redis:
  assumes "redis_ok (rdb d)" "v_sub v = sub" "sub \<noteq> []"
  shows "ZSCORE (rdb d) (i_rdb (finalize_write d k p v ing)) ''leaderboard'' m =
      (if m = sub \<and> (case v_cur v of None \<Rightarrow> True | Some cur \<Rightarrow> v_score v \<ge> cur) then Some (v_score v)
       else ZSCORE (rdb d) (i_rdb ing) ''leaderboard'' m)"
    "h \<noteq> ''leaderboard:snapshot'' \<Longrightarrow> h \<noteq> ''best:'' @ sub \<Longrightarrow>
      HGET (rdb d) (i_rdb (finalize_write d k p v ing)) h f = HGET (rdb d) (i_rdb ing) h f"
  using assms
  by (simp_all add: finalize_write_def Let_def redis_ok_def ZSCORE_snapshot ZSCORE_simps HGET_snapshot HGET_other)

text \<open>
  (C16) A verdict that is not overlapped by another one keeps the best score: after
  \<open>finalize\<close> the run is \<open>done\<close>, the submission's leaderboard score is the larger of its old
  score and the run's, every other submission's is unchanged, and the run's score, whatever
  the telemetry, is between 0 and 100.
\<close>

theorem finalize_keeps_best_score:
  assumes "redis_ok (rdb d)" "HGET (rdb d) (i_rdb ing) (''run:'' @ k) ''submission_id'' = Some sub" "sub \<noteq> []"
    and sc: "sc = v_score (snd (finalize_read d k p t ing))"
    and r: "r = i_rdb (finalize d k p t ing)"
  shows "ZSCORE (rdb d) r ''leaderboard'' sub =
      Some (case ZSCORE (rdb d) (i_rdb ing) ''leaderboard'' sub of None \<Rightarrow> sc | Some old \<Rightarrow> max old sc) \<and>
    (\<forall>m. ZSCORE (rdb d) r ''leaderboard'' m =
      (if m = sub then ZSCORE (rdb d) r ''leaderboard'' sub else ZSCORE (rdb d) (i_rdb ing) ''leaderboard'' m)) \<and>
    HGET (rdb d) r (''run:'' @ k) ''status'' = Some ''done'' \<and> 0 \<le> sc \<and> sc \<le> 100"
proof -
  obtain ing1 v where fr: "finalize_read d k p t ing = (ing1, v)" by fastforce
  note R = finalize_read_redis[OF assms(1), of k p t ing, unfolded fr, simplified]
  have v: "v_sub v = sub" "v_cur v = ZSCORE (rdb d) (i_rdb ing) ''leaderboard'' sub" "v_score v = sc"
    using R(3,4) assms(2,3) sc fr by simp_all
  have r': "r = i_rdb (finalize_write d k p v ing1)" by (simp add: r finalize_def fr)
  have Z: "ZSCORE (rdb d) r ''leaderboard'' m =
      (if m = sub \<and> (case ZSCORE (rdb d) (i_rdb ing) ''leaderboard'' sub of None \<Rightarrow> True | Some cur \<Rightarrow> sc \<ge> cur) then Some sc
       else ZSCORE (rdb d) (i_rdb ing) ''leaderboard'' m)" for m
    unfolding r' using finalize_write_redis(1)[OF assms(1) v(1) assms(3), of k p ing1 m, unfolded v(2,3) R(1)] .
  have "ZSCORE (rdb d) r ''leaderboard'' sub =
      Some (case ZSCORE (rdb d) (i_rdb ing) ''leaderboard'' sub of None \<Rightarrow> sc | Some old \<Rightarrow> max old sc)"
    using Z[of sub] by (auto simp: max_def split: option.splits)
  moreover have "ZSCORE (rdb d) r ''leaderboard'' m =
      (if m = sub then ZSCORE (rdb d) r ''leaderboard'' sub else ZSCORE (rdb d) (i_rdb ing) ''leaderboard'' m)" for m
    using Z[of m] by (cases "m = sub") auto
  moreover have "HGET (rdb d) r (''run:'' @ k) ''status'' = Some ''done''"
    using finalize_write_redis(2)[OF assms(1) v(1) assms(3), of "''run:'' @ k"] R(2) unfolding r' by simp
  moreover have "0 \<le> sc \<and> sc \<le> 100"
    unfolding sc finalize_read_score using Composite_range by blast
  ultimately show ?thesis by blast
qed

definition demo_db :: memdb where
  "demo_db = HSET mem (HSET mem mem_empty ''run:r1'' [(''submission_id'', ''s1'')]) ''run:r2'' [(''submission_id'', ''s1'')]"

theorem finalize_keeps_best_score_witness:
  "HGET mem (i_rdb (finalize demo_deps ''r1'' 0 0 ((ing_init demo_db)\<lparr>i_heap := [new_agg]\<rparr>))) ''run:r1'' ''status'' = Some ''done''"
proof -
  have d: "rdb demo_deps = mem" by (simp add: demo_deps_def)
  have sub: "HGET mem demo_db ''run:r1'' ''submission_id'' = Some ''s1''"
    using mem_ok by (simp add: demo_db_def redis_ok_def HGET_HSET)
  show ?thesis
    using finalize_keeps_best_score[of demo_deps "(ing_init demo_db)\<lparr>i_heap := [new_agg]\<rparr>" "''r1''" "''s1''", OF _ _ _ refl refl, of 0 0]
      mem_ok sub unfolding d by (simp add: ing_init_def)
qed

end
