(* ===== verification/Ingester_Schedules.thy ===== *)
theory Ingester_Schedules
  imports Ingester_Properties
begin

text \<open>
  Schedules of the ingester's goroutines: the sweeper always reaches its verdicts, and two
  schedules that show what the code does not guarantee: two overlapping verdicts for one
  submission can lower its leaderboard score, and a batch that arrives after a verdict starts
  the run's aggregate again and overwrites its result.
\<close>

section \<open>The sweeper finishes\<close>

text \<open>With nobody else running, the sweeper works off the runs it has found.\<close>

lemma sweeper_drains:
  assumes "isys_ok s" "s_sweep s = Idle"
  shows "\<exists>s'. irun d (concat (map (\<lambda>k. [SweepRead t, SweepWrite]) (s_found s))) s = Some s' \<and>
    set (s_found s) \<subseteq> fst ` set (i_verdicts (s_ing s')) \<and>
    set (i_verdicts (s_ing s)) \<subseteq> set (i_verdicts (s_ing s')) \<and> s_found s' = [] \<and> s_sweep s' = Idle \<and>
    s_main s' = s_main s"
  using assms
proof (induction "s_found s" arbitrary: s)
  case Nil
  then show ?case by (intro exI[of _ s]) (simp flip: Nil(1))
next
  case (Cons k found)
  obtain p where p: "map_of (i_runs (s_ing s)) k = Some p"
    using Cons.prems Cons.hyps(2)[symmetric] unfolding isys_ok_def claims_def claimed_ok_def by fastforce
  obtain ing v where fr: "finalize_read d k p t (s_ing s) = (ing, v)" by fastforce
  let ?s1 = "s\<lparr>s_ing := ing, s_sweep := Write k p v, s_found := found\<rparr>"
  let ?s2 = "?s1\<lparr>s_ing := finalize_write d k p v ing, s_sweep := Idle\<rparr>"
  have r: "istep d (SweepRead t) s = Some ?s1"
    using Cons.prems(2) Cons.hyps(2)[symmetric] p fr by (simp add: istep_def Let_def)
  have w: "istep d SweepWrite ?s1 = Some ?s2" by (simp add: istep_def Let_def)
  have "isys_ok ?s2" using istep_ok[OF istep_ok[OF Cons.prems(1) r] w] .
  from Cons.hyps(1)[of ?s2, OF _ this] obtain s' where s':
    "irun d (concat (map (\<lambda>k. [SweepRead t, SweepWrite]) found)) ?s2 = Some s'"
    "set found \<subseteq> fst ` set (i_verdicts (s_ing s'))" "set (i_verdicts (s_ing ?s2)) \<subseteq> set (i_verdicts (s_ing s'))"
    "s_found s' = []" "s_sweep s' = Idle" "s_main s' = s_main s"
    by auto
  have i: "i_verdicts ing = i_verdicts (s_ing s)" using finalize_read_frame(3)[of d k p t "s_ing s"] fr by simp
  have "k \<in> fst ` set (i_verdicts (s_ing s'))" "set (i_verdicts (s_ing s)) \<subseteq> set (i_verdicts (s_ing s'))"
    using s'(3) i by (force simp: finalize_write_runs)+
  then show ?case using s' r w unfolding Cons.hyps(2)[symmetric] by (intro exI[of _ s']) simp
qed

lemma mark_finds:
  assumes "isys_ok s" "map_of (i_runs (s_ing s)) k = Some p" "is_stale nows (i_heap (s_ing s)) (k, p)"
  shows "k \<in> set (snd (sweep_mark nows (s_ing s)))"
proof -
  have T: "table_ok (s_ing s)" using assms(1) by (simp add: isys_ok_def)
  have "snd (fold (mark_step nows) (i_runs (s_ing s)) (i_heap (s_ing s), [])) =
      map fst (filter (is_stale nows (i_heap (s_ing s))) (i_runs (s_ing s)))"
    using mark_fold[of "i_runs (s_ing s)" "i_heap (s_ing s)" nows "[]"] T by (simp add: table_ok_def)
  moreover have "(k, p) \<in> set (filter (is_stale nows (i_heap (s_ing s))) (i_runs (s_ing s)))"
    using assms(2,3) by (simp add: map_of_SomeD)
  ultimately show ?thesis by (force simp: sweep_mark_def Let_def split_beta)
qed

text \<open>
  (C17) A dead fleet cannot wedge a verdict: in every reachable state in which the sweeper is
  between ticks, if a run in the table is not finalized and has been silent for more than 60
  seconds, then the next tick followed by the sweeper's own steps alone ends with a verdict
  for that run, whatever the consumer is in the middle of.
\<close>

theorem silent_run_gets_verdict:
  assumes "ing_reachable d r s" "s_sweep s = Idle" "s_found s = []"
    "map_of (i_runs (s_ing s)) k = Some p" "\<not> a_finalized (i_heap (s_ing s) ! p)"
    "nows k - a_lastSeen (i_heap (s_ing s) ! p) > staleAfter"
  shows "\<exists>n s'. irun d (SweepTick nows # concat (replicate n [SweepRead t, SweepWrite])) s = Some s' \<and>
    k \<in> fst ` set (i_verdicts (s_ing s')) \<and> s_sweep s' = Idle \<and> s_found s' = [] \<and> s_main s' = s_main s"
proof -
  have ok: "isys_ok s" using reachable_ok[OF assms(1)] .
  obtain ing found where m: "sweep_mark nows (s_ing s) = (ing, found)" by fastforce
  let ?s1 = "s\<lparr>s_ing := ing, s_found := found\<rparr>"
  have st: "istep d (SweepTick nows) s = Some ?s1" using assms(2,3) m by (simp add: istep_def Let_def)
  have k: "k \<in> set found"
    using mark_finds[OF ok assms(4), of nows] assms(5,6) m by (simp add: is_stale_def)
  from sweeper_drains[of ?s1 d t] istep_ok[OF ok st] assms(2) obtain s' where s':
    "irun d (concat (map (\<lambda>k. [SweepRead t, SweepWrite]) found)) ?s1 = Some s'"
    "set found \<subseteq> fst ` set (i_verdicts (s_ing s'))" "s_found s' = []" "s_sweep s' = Idle" "s_main s' = s_main s"
    by auto
  have "map (\<lambda>k. [SweepRead t, SweepWrite]) found = replicate (length found) [SweepRead t, SweepWrite]"
    by (simp add: map_replicate_const)
  with s' st k show ?thesis by (intro exI[of _ "length found"] exI[of _ s']) auto
qed

section \<open>Concrete schedules\<close>

text \<open>Half of the requests of each run fail, all latencies are under a microsecond.\<close>

definition sched_batch :: "string \<Rightarrow> bool \<Rightarrow> int \<Rightarrow> int \<Rightarrow> TelemetryBatch" where
  "sched_batch k final shards viol =
     \<lparr>tb_RunID = k, tb_Shard = 0, tb_TotalShards = shards, tb_Final = final, tb_Sent = 10, tb_Acked = 5,
      tb_Errors = 5, tb_Violations = viol, tb_Hist = [(0, 5)], tb_SecAcks = [(100, 5)], tb_SecErrs = [(100, 5)],
      tb_Samples = []\<rparr>"

definition sched_agg :: "int \<Rightarrow> runAgg \<Rightarrow> bool" where
  "sched_agg viol agg \<longleftrightarrow> a_hist agg = [(0, 5)] \<and> a_secAcks agg = [(100, 5)] \<and> a_secErrs agg = [(100, 5)] \<and>
     a_acked agg = 5 \<and> a_violations agg = viol \<and> a_sent agg = 10"

lemma sched_absorb: "is_i64 viol \<Longrightarrow> sched_agg viol (absorb_agg (sched_batch k final shards viol) t new_agg)"
  by (simp add: sched_agg_def absorb_agg_def sched_batch_def new_agg_def Merge_def gm_add_def gm_put_def i64_id is_i64_def Let_def)

lemma sched_p99: "Quantile powf [(0, 5)] (fl (99 / 100)) = 1000"
proof -
  let ?q = "fl (99 / 100)"
  have q: "0 < ?q" "?q \<le> 1" using fl_pos[of "99 / 100"] fl_le_1[of "99 / 100"] by simp_all
  have "quantile_total [(0 :: int, 5)] = 5" by (simp add: quantile_total_def i64_nonneg)
  moreover have "\<lceil>fl (?q * float64_of 5)\<rceil> \<le> 5" using rank_bounds(2)[OF q, of 5] by simp
  ultimately show ?thesis by (simp add: Quantile_def bucketValue_def minNs_def gm_get_def i64_nonneg Let_def)
qed

lemma sched_tps:
  assumes "sched_agg viol agg"
  shows "tps (compute powf agg) = 0"
proof -
  have f: "float64_of 5 = 5" by (simp add: float64_of_exact)
  have "fl (5 + 5) = 10" using fl_of_int[of 10] by simp
  moreover have "fl (1 / 100) \<le> fl (5 / 10)" by (rule fl_mono) simp
  ultimately have "tps_step agg 100 0 = 0" using assms f by (simp add: sched_agg_def tps_step_def gm_get_def Let_def)
  then show ?thesis using assms by (simp add: compute_def sched_agg_def)
qed

lemma sched_score:
  assumes "sched_agg viol agg" "log10_ok lg"
  shows "Composite lg (p99 (compute powf agg)) (tps (compute powf agg)) c conf = weighted 1 0 (cor_part c conf)"
proof -
  have "p99 (compute powf agg) = 1000" using assms(1) sched_p99 by (simp add: compute_def sched_agg_def)
  then show ?thesis
    using sched_tps[OF assms(1)] assms(2) by (simp add: Composite_parts lat_part_full thr_part_zero)
qed

lemma sched_correctness:
  "sched_agg 0 agg \<Longrightarrow> correctness (compute powf agg) = 1" "sched_agg 5 agg \<Longrightarrow> correctness (compute powf agg) = 0"
  by (simp_all add: compute_def sched_agg_def float64_of_exact Let_def)

lemma sched_lower: "weighted 1 0 (cor_part 0 0) < weighted 1 0 (cor_part 1 0)"
  unfolding weighted_def cor_part_def by code_simp

lemma demo_deps_simps [simp]: "rdb demo_deps = mem" "Log10 demo_deps = log 10" "mPow demo_deps = (powr)"
  by (simp_all add: demo_deps_def)

lemma mem_hash: "hash_ok mem" and mem_zset: "zset_ok mem"
  using mem_ok by (simp_all add: redis_ok_def)

text \<open>Redis as the schedules find it: both runs belong to one submission, nothing is scored.\<close>

definition sched_db :: "memdb \<Rightarrow> bool" where
  "sched_db r \<longleftrightarrow>
     HGET mem r ''run:r1'' ''submission_id'' = Some ''s1'' \<and> HGET mem r ''run:r2'' ''submission_id'' = Some ''s1'' \<and>
     HGET mem r ''run:r1'' ''conformance_score'' = None \<and> HGET mem r ''run:r2'' ''conformance_score'' = None \<and>
     ZSCORE mem r ''leaderboard'' ''s1'' = None"

lemma sched_db_demo: "sched_db demo_db"
proof -
  have z: "ZSCORE mem mem_empty k m = None" and h: "HGET mem mem_empty k f = None" for k m f
    by (simp_all add: mem_def mem_empty_def HGET_def)
  show ?thesis by (simp add: sched_db_def demo_db_def HGET_HSET[OF mem_hash] ZSCORE_simps[OF mem_zset] z h)
qed

lemma sched_db_result: "sched_db r \<Longrightarrow> sched_db (writeResult demo_deps k m agg sc final r)"
  by (simp add: sched_db_def writeResult_def HGET_HSET[OF mem_hash] ZSCORE_simps[OF mem_zset])

lemma sched_db_read:
  assumes "sched_db (i_rdb ing)" "k = ''r1'' \<or> k = ''r2''"
  shows "sched_db (i_rdb (fst (finalize_read demo_deps k p t ing)))"
    "v_sub (snd (finalize_read demo_deps k p t ing)) = ''s1''" "v_cur (snd (finalize_read demo_deps k p t ing)) = None"
proof -
  have "sched_db (HSET mem (writeResult demo_deps k m agg sc final (i_rdb ing)) (''run:'' @ k) [(''status'', a), (''finished'', b)])"
    for m agg sc final a b
    using sched_db_result[OF assms(1), of k m agg sc final]
    by (auto simp: sched_db_def HGET_HSET[OF mem_hash] ZSCORE_simps[OF mem_zset])
  then show "sched_db (i_rdb (fst (finalize_read demo_deps k p t ing)))"
    by (simp add: finalize_read_def Let_def)
  show "v_sub (snd (finalize_read demo_deps k p t ing)) = ''s1''"
    using assms mem_ok by (auto simp: finalize_read_redis(3) sched_db_def)
  then show "v_cur (snd (finalize_read demo_deps k p t ing)) = None"
    using assms mem_ok by (simp add: finalize_read_redis(4) sched_db_def)
qed

lemma sched_read_score:
  assumes "sched_db (i_rdb ing)" "k = ''r1'' \<or> k = ''r2''" "sched_agg viol (i_heap ing ! p)"
  shows "v_score (snd (finalize_read demo_deps k p t ing)) =
    weighted 1 0 (cor_part (correctness (compute (powr) (i_heap ing ! p))) 0)"
proof -
  have "(case HGET mem (i_rdb ing) (''run:'' @ k) ''conformance_score'' of Some v \<Rightarrow> ParseFloat v | None \<Rightarrow> 0) = 0"
    using assms(1,2) by (auto simp: sched_db_def)
  then show ?thesis using sched_score[OF assms(3) log10_ok_exact] by (simp add: finalize_read_score)
qed

text \<open>The common prefix: run \<open>r2\<close> reports once, falls silent, and the sweeper has compared but not written.\<close>

definition sched_prefix :: "ievent list" where
  "sched_prefix = [Batch (sched_batch ''r2'' False 2 5) 0, MainRest 1 1, SweepTick (\<lambda>k. 61 * 10 ^ 9), SweepRead (61 * 10 ^ 9)]"

lemma sched_prefix_state:
  obtains ing v agg where
    "irun demo_deps sched_prefix (isys_init demo_db) =
       Some \<lparr>s_ing = ing, s_main = Idle, s_sweep = Write ''r2'' 0 v, s_found = [], s_crashed = False\<rparr>"
    "i_runs ing = [(''r2'', 0)]" "i_heap ing = [agg]" "sched_agg 5 agg" "i_throttle ing = [(''r2'', 1)]"
    "sched_db (i_rdb ing)" "v_sub v = ''s1''" "v_cur v = None" "v_score v = weighted 1 0 (cor_part 0 0)"
    "HGET mem (i_rdb ing) ''result:r2'' ''sent'' = Some (Itoa 10)"
    "HGET mem (i_rdb ing) ''run:r2'' ''status'' = Some ''done''"
proof -
  let ?b = "sched_batch ''r2'' False 2 5"
  define aggB where "aggB = absorb_agg ?b 0 new_agg"
  define agg where "agg = aggB\<lparr>a_finalized := True\<rparr>"
  have sB: "sched_agg 5 aggB" unfolding aggB_def by (rule sched_absorb) (simp add: is_i64_def)
  then have sA: "sched_agg 5 agg" by (simp add: agg_def sched_agg_def)
  have nf: "\<not> a_finalized aggB" "a_lastSeen aggB = 0"
    by (simp_all add: aggB_def absorb_agg_def sched_batch_def new_agg_def Let_def)
  define ing1 where "ing1 = (ing_init demo_db)\<lparr>i_heap := [aggB], i_runs := [(''r2'', 0)]\<rparr>"
  have "absorb ?b 0 (ing_init demo_db) = (ing1, Some (0, False))"
    using nf(1) unfolding aggB_def ing1_def
    by (simp add: absorb_def ing_init_def sched_batch_def gm_put_def new_agg_def Let_def)
  moreover have "tb_RunID ?b = ''r2''" by (simp add: sched_batch_def)
  ultimately have st1: "istep demo_deps (Batch ?b 0) (isys_init demo_db) =
      Some \<lparr>s_ing = ing1, s_main = After ''r2'' 0 False, s_sweep = Idle, s_found = [], s_crashed = False\<rparr>"
    by (simp add: istep_def isys_init_def Let_def)
  define ing2 where "ing2 = live demo_deps ''r2'' 0 1 1 ing1"
  have st2: "istep demo_deps (MainRest 1 1) \<lparr>s_ing = ing1, s_main = After ''r2'' 0 False, s_sweep = Idle, s_found = [], s_crashed = False\<rparr> =
      Some \<lparr>s_ing = ing2, s_main = Idle, s_sweep = Idle, s_found = [], s_crashed = False\<rparr>"
    by (simp add: istep_def ing2_def Let_def)
  have i2: "i_runs ing2 = [(''r2'', 0)]" "i_heap ing2 = [aggB]" "i_throttle ing2 = [(''r2'', 1)]" "sched_db (i_rdb ing2)"
    using sched_db_result[OF sched_db_demo]
    by (simp_all add: ing2_def ing1_def live_def ing_init_def gm_put_def)
  define ing3 where "ing3 = ing2\<lparr>i_heap := [agg]\<rparr>"
  have "sweep_mark (\<lambda>k. 61 * 10 ^ 9) ing2 = (ing3, [''r2''])"
    using nf by (simp add: sweep_mark_def mark_step_def is_stale_def staleAfter_def i2 ing3_def agg_def)
  then have st3: "istep demo_deps (SweepTick (\<lambda>k. 61 * 10 ^ 9)) \<lparr>s_ing = ing2, s_main = Idle, s_sweep = Idle, s_found = [], s_crashed = False\<rparr> =
      Some \<lparr>s_ing = ing3, s_main = Idle, s_sweep = Idle, s_found = [''r2''], s_crashed = False\<rparr>"
    by (simp add: istep_def Let_def)
  have i3: "i_runs ing3 = [(''r2'', 0)]" "i_heap ing3 = [agg]" "i_throttle ing3 = [(''r2'', 1)]" "sched_db (i_rdb ing3)"
    using i2 by (simp_all add: ing3_def)
  obtain ing v where fr: "finalize_read demo_deps ''r2'' 0 (61 * 10 ^ 9) ing3 = (ing, v)" by fastforce
  have st4: "istep demo_deps (SweepRead (61 * 10 ^ 9)) \<lparr>s_ing = ing3, s_main = Idle, s_sweep = Idle, s_found = [''r2''], s_crashed = False\<rparr> =
      Some \<lparr>s_ing = ing, s_main = Idle, s_sweep = Write ''r2'' 0 v, s_found = [], s_crashed = False\<rparr>"
    using fr by (simp add: istep_def i3 Let_def)
  have run: "irun demo_deps sched_prefix (isys_init demo_db) =
      Some \<lparr>s_ing = ing, s_main = Idle, s_sweep = Write ''r2'' 0 v, s_found = [], s_crashed = False\<rparr>"
    unfolding sched_prefix_def irun_Cons st1 st2 st3 st4 option.case irun_Nil ..
  note D = sched_db_read[OF i3(4), of "''r2''" 0 "61 * 10 ^ 9", unfolded fr, simplified]
  have th: "i_throttle ing = [(''r2'', 1)]" using fr i3(3) by (auto simp: finalize_read_def Let_def)
  have sc: "v_score v = weighted 1 0 (cor_part 0 0)"
    using sched_read_score[OF i3(4), of "''r2''" 5 0 "61 * 10 ^ 9"] fr sA i3(2) sched_correctness(2)[OF sA] by simp
  have "HGET mem (i_rdb ing) ''result:r2'' ''sent'' = Some (Itoa 10)" "HGET mem (i_rdb ing) ''run:r2'' ''status'' = Some ''done''"
    using fr sA i3(2)
    by (auto simp: finalize_read_def writeResult_def result_fields_def HGET_HSET[OF mem_hash] sched_agg_def Let_def)
  then show thesis
    using that[OF run] finalize_read_frame(1,2)[of demo_deps "''r2''" 0 "61 * 10 ^ 9" ing3] fr i3 sA th sc D by simp
qed

text \<open>
  (C37) Overlapping verdicts can lower a leaderboard score: with a faithful Redis and exact
  logarithms there is a schedule of the two goroutines in which the consumer records a
  submission's score and the sweeper, which compared earlier, then replaces it by a strictly
  lower one, although the leaderboard is meant to keep each submission's best run.
\<close>

theorem overlapping_verdicts_lower_score:
  "\<exists>(d :: memdb deps) r s s1 s2 x y.
     redis_ok (rdb d) \<and> log10_ok (Log10 d) \<and> ing_reachable d r s \<and>
     istep d MainWrite s = Some s1 \<and> istep d SweepWrite s1 = Some s2 \<and>
     ZSCORE (rdb d) (i_rdb (s_ing s1)) ''leaderboard'' ''s1'' = Some x \<and>
     ZSCORE (rdb d) (i_rdb (s_ing s2)) ''leaderboard'' ''s1'' = Some y \<and> y < x"
proof -
  let ?b = "sched_batch ''r1'' True 1 0" and ?t = "62 * 10 ^ 9 :: int"
  obtain ing v agg where P: "irun demo_deps sched_prefix (isys_init demo_db) =
       Some \<lparr>s_ing = ing, s_main = Idle, s_sweep = Write ''r2'' 0 v, s_found = [], s_crashed = False\<rparr>"
    "i_runs ing = [(''r2'', 0)]" "i_heap ing = [agg]" "sched_db (i_rdb ing)"
    "v_sub v = ''s1''" "v_cur v = None" "v_score v = weighted 1 0 (cor_part 0 0)"
    by (rule sched_prefix_state)
  define aggA where "aggA = absorb_agg ?b ?t new_agg"
  have sA: "sched_agg 0 aggA" unfolding aggA_def by (rule sched_absorb) (simp add: is_i64_def)
  have fA: "a_finalized aggA" by (simp add: aggA_def absorb_agg_def sched_batch_def new_agg_def gm_put_def Let_def)
  define ing5 where "ing5 = ing\<lparr>i_heap := [agg, aggA], i_runs := [(''r2'', 0), (''r1'', 1)]\<rparr>"
  have "absorb ?b ?t ing = (ing5, Some (1, True))"
    using fA unfolding aggA_def ing5_def
    by (simp add: absorb_def P sched_batch_def gm_put_def new_agg_def Let_def)
  moreover have "tb_RunID ?b = ''r1''" by (simp add: sched_batch_def)
  ultimately have st5: "istep demo_deps (Batch ?b ?t) \<lparr>s_ing = ing, s_main = Idle, s_sweep = Write ''r2'' 0 v, s_found = [], s_crashed = False\<rparr> =
      Some \<lparr>s_ing = ing5, s_main = After ''r1'' 1 True, s_sweep = Write ''r2'' 0 v, s_found = [], s_crashed = False\<rparr>"
    by (simp add: istep_def Let_def)
  obtain ing6 v1 where fr: "finalize_read demo_deps ''r1'' 1 ?t ing5 = (ing6, v1)" by fastforce
  let ?s = "\<lparr>s_ing = ing6, s_main = Write ''r1'' 1 v1, s_sweep = Write ''r2'' 0 v, s_found = [], s_crashed = False\<rparr>"
  have st6: "istep demo_deps (MainRest ?t ?t) \<lparr>s_ing = ing5, s_main = After ''r1'' 1 True, s_sweep = Write ''r2'' 0 v, s_found = [], s_crashed = False\<rparr> = Some ?s"
    using fr by (simp add: istep_def Let_def)
  have "irun demo_deps (sched_prefix @ [Batch ?b ?t, MainRest ?t ?t]) (isys_init demo_db) = Some ?s"
    unfolding irun_append P(1) Option.bind.simps irun_Cons st5 st6 option.case irun_Nil ..
  then have reach: "ing_reachable demo_deps demo_db ?s" by (rule irun_reachable[OF ing_reachable.start])
  have db5: "sched_db (i_rdb ing5)" using P(4) by (simp add: ing5_def)
  note D = sched_db_read[OF db5, of "''r1''" 1 ?t, unfolded fr, simplified]
  have sc: "v_score v1 = weighted 1 0 (cor_part 1 0)"
    using sched_read_score[OF db5, of "''r1''" 0 1 ?t] fr sA sched_correctness(1)[OF sA] by (simp add: ing5_def)
  define s1 where "s1 = ?s\<lparr>s_ing := finalize_write demo_deps ''r1'' 1 v1 ing6, s_main := Idle\<rparr>"
  define s2 where "s2 = s1\<lparr>s_ing := finalize_write demo_deps ''r2'' 0 v (s_ing s1), s_sweep := Idle\<rparr>"
  have steps: "istep demo_deps MainWrite ?s = Some s1" "istep demo_deps SweepWrite s1 = Some s2"
    by (simp_all add: istep_def s1_def s2_def Let_def)
  have z1: "ZSCORE mem (i_rdb (s_ing s1)) ''leaderboard'' ''s1'' = Some (v_score v1)"
    using finalize_write_redis(1)[of demo_deps v1 "''s1''" "''r1''" 1 ing6 "''s1''"] mem_ok D by (simp add: s1_def)
  have z2: "ZSCORE mem (i_rdb (s_ing s2)) ''leaderboard'' ''s1'' = Some (v_score v)"
    using finalize_write_redis(1)[of demo_deps v "''s1''" "''r2''" 0 "s_ing s1" "''s1''"] mem_ok P(5,6) by (simp add: s2_def)
  have "v_score v < v_score v1" using sched_lower sc P(7) by simp
  then show ?thesis using reach steps z1 z2 mem_ok log10_ok_exact demo_deps_simps by metis
qed

text \<open>
  (C38) A late batch overwrites a verdict: there is a schedule in which a run that the sweeper
  has declared \<open>done\<close>, with a result of 10 requests sent, has its result replaced by that of a
  single batch that arrives afterwards, because the finalized aggregate, and with it the
  \<open>finalized\<close> mark, was deleted from the table.
\<close>

theorem late_batch_overwrites_verdict:
  "\<exists>(d :: memdb deps) r s s' b.
     redis_ok (rdb d) \<and> ing_reachable d r s \<and> s_main s = Idle \<and> s_sweep s = Idle \<and>
     ''r2'' \<in> fst ` set (i_verdicts (s_ing s)) \<and>
     HGET (rdb d) (i_rdb (s_ing s)) ''run:r2'' ''status'' = Some ''done'' \<and>
     HGET (rdb d) (i_rdb (s_ing s)) ''result:r2'' ''sent'' = Some (Itoa 10) \<and> tb_Sent b = 1 \<and>
     irun d [Batch b (62 * 10 ^ 9), MainRest (62 * 10 ^ 9) (62 * 10 ^ 9)] s = Some s' \<and>
     HGET (rdb d) (i_rdb (s_ing s')) ''run:r2'' ''status'' = Some ''done'' \<and>
     HGET (rdb d) (i_rdb (s_ing s')) ''result:r2'' ''sent'' = Some (Itoa 1)"
proof -
  let ?b = "(sched_batch ''r2'' False 2 0)\<lparr>tb_Sent := 1\<rparr>" and ?t = "62 * 10 ^ 9 :: int"
  obtain ing v agg where P: "irun demo_deps sched_prefix (isys_init demo_db) =
       Some \<lparr>s_ing = ing, s_main = Idle, s_sweep = Write ''r2'' 0 v, s_found = [], s_crashed = False\<rparr>"
    "i_runs ing = [(''r2'', 0)]" "i_heap ing = [agg]" "i_throttle ing = [(''r2'', 1)]" "v_sub v = ''s1''"
    "HGET mem (i_rdb ing) ''result:r2'' ''sent'' = Some (Itoa 10)" "HGET mem (i_rdb ing) ''run:r2'' ''status'' = Some ''done''"
    by (rule sched_prefix_state)
  define ing5 where "ing5 = finalize_write demo_deps ''r2'' 0 v ing"
  let ?s = "\<lparr>s_ing = ing5, s_main = Idle, s_sweep = Idle, s_found = [], s_crashed = False\<rparr>"
  have st5: "istep demo_deps SweepWrite \<lparr>s_ing = ing, s_main = Idle, s_sweep = Write ''r2'' 0 v, s_found = [], s_crashed = False\<rparr> = Some ?s"
    by (simp add: istep_def ing5_def Let_def)
  have "irun demo_deps (sched_prefix @ [SweepWrite]) (isys_init demo_db) = Some ?s"
    unfolding irun_append P(1) Option.bind.simps irun_Cons st5 option.case irun_Nil ..
  then have reach: "ing_reachable demo_deps demo_db ?s" by (rule irun_reachable[OF ing_reachable.start])
  have i5: "i_runs ing5 = []" "i_heap ing5 = [agg]" "i_throttle ing5 = [(''r2'', 1)]" "''r2'' \<in> fst ` set (i_verdicts ing5)"
    using P(2-4) by (simp_all add: ing5_def finalize_write_def gm_delete_def Let_def)
  have h5: "HGET mem (i_rdb ing5) k f = HGET mem (i_rdb ing) k f"
    if "k \<noteq> ''leaderboard:snapshot''" "k \<noteq> ''best:s1''" for k f
    using finalize_write_redis(2)[of demo_deps v "''s1''" k "''r2''" 0 ing f] that mem_ok P(5) by (simp add: ing5_def)
  define aggL where "aggL = absorb_agg ?b ?t new_agg"
  have aL: "\<not> a_finalized aggL" "a_sent aggL = 1"
    by (simp_all add: aggL_def absorb_agg_def sched_batch_def new_agg_def i64_nonneg Let_def)
  define ing6 where "ing6 = ing5\<lparr>i_heap := [agg, aggL], i_runs := [(''r2'', 1)]\<rparr>"
  have "absorb ?b ?t ing5 = (ing6, Some (1, False))"
    using aL(1) unfolding aggL_def ing6_def
    by (simp add: absorb_def i5 sched_batch_def gm_put_def new_agg_def Let_def)
  moreover have "tb_RunID ?b = ''r2''" by (simp add: sched_batch_def)
  ultimately have st6: "istep demo_deps (Batch ?b ?t) ?s =
      Some \<lparr>s_ing = ing6, s_main = After ''r2'' 1 False, s_sweep = Idle, s_found = [], s_crashed = False\<rparr>"
    by (simp add: istep_def Let_def)
  define ing7 where "ing7 = live demo_deps ''r2'' 1 ?t ?t ing6"
  let ?s' = "\<lparr>s_ing = ing7, s_main = Idle, s_sweep = Idle, s_found = [], s_crashed = False\<rparr>"
  have st7: "istep demo_deps (MainRest ?t ?t) \<lparr>s_ing = ing6, s_main = After ''r2'' 1 False, s_sweep = Idle, s_found = [], s_crashed = False\<rparr> = Some ?s'"
    by (simp add: istep_def ing7_def Let_def)
  have run: "irun demo_deps [Batch ?b ?t, MainRest ?t ?t] ?s = Some ?s'"
    unfolding irun_Cons st6 st7 option.case irun_Nil ..
  have h7: "HGET mem (i_rdb ing7) ''result:r2'' ''sent'' = Some (Itoa 1)"
    "HGET mem (i_rdb ing7) ''run:r2'' ''status'' = HGET mem (i_rdb ing5) ''run:r2'' ''status''"
    using aL(2) by (simp_all add: ing7_def live_def ing6_def i5 writeResult_def result_fields_def HGET_HSET[OF mem_hash])
  show ?thesis
    by (rule exI[of _ demo_deps], rule exI[of _ demo_db], rule exI[of _ ?s], rule exI[of _ ?s'], rule exI[of _ ?b])
       (use reach run h7 h5 P(6,7) i5(4) mem_ok in simp)
qed

text \<open>
  The sweeper looks a run up in the table without the mutex. There is a reachable state in which
  that lookup is the sweeper's next step while the consumer's next step, \<open>absorb\<close> for a run it
  has not seen, writes the table: nothing in the code orders the two accesses.
\<close>

theorem unlocked_lookup_meets_write:
  "\<exists>(d :: memdb deps) r s s1 s2 b now. ing_reachable d r s \<and> istep d (SweepRead now) s = Some s1 \<and>
     istep d (Batch b now) s = Some s2 \<and> i_runs (s_ing s2) \<noteq> i_runs (s_ing s)"
proof -
  let ?t = "61 * 10 ^ 9 :: int" and ?agg = "absorb_agg demo_batch 0 new_agg"
  let ?evs = "[Batch demo_batch 0, MainRest 0 0, SweepTick (\<lambda>k. ?t)]"
  define ing where "ing = (ing_init mem_empty)\<lparr>i_heap := [?agg], i_runs := [(''r1'', 0)]\<rparr>"
  define ing1 where "ing1 = live demo_deps ''r1'' 0 0 0 ing"
  define s where "s = (isys_init mem_empty)\<lparr>s_ing := ing1\<lparr>i_heap := [?agg\<lparr>a_finalized := True\<rparr>]\<rparr>, s_found := [''r1'']\<rparr>"
  have a: "\<not> a_finalized ?agg" "a_lastSeen ?agg = 0"
    by (simp_all add: absorb_agg_def demo_batch_def new_agg_def Let_def)
  have i1: "i_runs ing1 = [(''r1'', 0)]" "i_heap ing1 = [?agg]" by (simp_all add: ing1_def live_frame ing_def)
  have st1: "istep demo_deps (Batch demo_batch 0) (isys_init mem_empty) = Some ((isys_init mem_empty)\<lparr>s_ing := ing, s_main := After ''r1'' 0 False\<rparr>)"
    by (simp add: istep_def isys_init_def demo_absorb ing_def) (simp add: demo_batch_def)
  have st2: "istep demo_deps (MainRest 0 0) ((isys_init mem_empty)\<lparr>s_ing := ing, s_main := After ''r1'' 0 False\<rparr>) =
      Some ((isys_init mem_empty)\<lparr>s_ing := ing1\<rparr>)"
    by (simp add: istep_def ing1_def isys_init_def)
  have st3: "istep demo_deps (SweepTick (\<lambda>k. ?t)) ((isys_init mem_empty)\<lparr>s_ing := ing1\<rparr>) = Some s"
    using a by (simp add: istep_def isys_init_def sweep_mark_def i1 mark_step_def is_stale_def staleAfter_def s_def)
  have "irun demo_deps ?evs (isys_init mem_empty) = Some s"
    unfolding irun_Cons st1 st2 st3 option.case irun_Nil ..
  then have reach: "ing_reachable demo_deps mem_empty s" by (rule irun_reachable[OF ing_reachable.start])
  obtain s1 where r: "istep demo_deps (SweepRead ?t) s = Some s1"
    by (simp add: istep_def s_def isys_init_def i1 Let_def split_beta)
  obtain s2 where b: "istep demo_deps (Batch (sched_batch ''r9'' False 1 0) ?t) s = Some s2" "i_runs (s_ing s2) = [(''r1'', 0), (''r9'', 1)]"
    by (simp add: istep_def s_def isys_init_def absorb_def i1 sched_batch_def gm_put_def new_agg_def Let_def)
  have "i_runs (s_ing s2) \<noteq> i_runs (s_ing s)" using b(2) by (simp add: s_def i1)
  with reach r b(1) show ?thesis by blast
qed

text \<open>The schedule's prefix is also an instance of a silent run.\<close>

theorem silent_run_gets_verdict_witness:
  "\<exists>n s'. irun demo_deps (SweepTick (\<lambda>k. 61 * 10 ^ 9) # concat (replicate n [SweepRead 0, SweepWrite])) demo_isys = Some s' \<and>
     ''r1'' \<in> fst ` set (i_verdicts (s_ing s'))"
proof -
  have "istep demo_deps (Batch demo_batch 0) (isys_init mem_empty) = Some demo_isys"
    by (simp add: istep_def isys_init_def demo_absorb demo_isys_def) (simp add: demo_batch_def)
  then have reach: "ing_reachable demo_deps mem_empty demo_isys"
    using ing_reachable.step[OF ing_reachable.start] by metis
  have s: "s_sweep demo_isys = Idle" "s_found demo_isys = []" "map_of (i_runs (s_ing demo_isys)) ''r1'' = Some 0"
    "i_heap (s_ing demo_isys) ! 0 = absorb_agg demo_batch 0 new_agg"
    by (simp_all add: demo_isys_def demo_absorb isys_init_def)
  have a: "\<not> a_finalized (absorb_agg demo_batch 0 new_agg)" "a_lastSeen (absorb_agg demo_batch 0 new_agg) = 0"
    by (simp_all add: absorb_agg_def demo_batch_def new_agg_def Let_def)
  show ?thesis
    using silent_run_gets_verdict[OF reach s(1-3), of "\<lambda>k. 61 * 10 ^ 9" 0] s(4) a by (auto simp: staleAfter_def)
qed

end
