(* ===== verification/Gateway.thy ===== *)
theory Gateway
  imports Redis GoStrings Protocol
begin

text \<open>
  The request handlers of \<open>cmd/gateway/main.go\<close>. The gateway keeps no state of its own: a
  handler is a function on the state of Redis and of the shared submissions volume. Redis,
  the JSON codec and the multipart parser are parameters; the random bytes of an id, the clock
  and the outcome of the disk operations are inputs of a call.
\<close>

section \<open>Limits and ids\<close>

definition maxBundle :: nat where "maxBundle = 268435456"
definition maxBots :: int where "maxBots = 5000"
definition maxDuration :: int where "maxDuration = 300"
definition maxRPS :: int where "maxRPS = 100000"

definition hex_digit :: "nat \<Rightarrow> char" where
  "hex_digit n = char_of (if n < 10 then 48 + n else 87 + n)"

definition EncodeToString :: "string \<Rightarrow> string" where
  "EncodeToString bs = concat (map (\<lambda>b. [hex_digit (of_char b div 16), hex_digit (of_char b mod 16)]) bs)"

text \<open>The six bytes are what \<open>rand.Read\<close> put into the buffer.\<close>

definition rid :: "string \<Rightarrow> string" where
  "rid b = EncodeToString b"

section \<open>Requests and responses\<close>

datatype content = Obj "(string, string) gomap" | Arr "(string, string) gomap list" | Raw string

record response =
  rs_type :: string
  rs_code :: int
  rs_body :: content

definition writeJSON :: "int \<Rightarrow> content \<Rightarrow> response" where
  "writeJSON code v = \<lparr>rs_type = ''application/json'', rs_code = code, rs_body = v\<rparr>"

definition httpErr :: "int \<Rightarrow> string \<Rightarrow> response" where
  "httpErr code msg = writeJSON code (Obj [(''error'', msg)])"

record form =
  FormValue :: "string \<Rightarrow> string"
  FormFile :: "(string \<times> string) option" \<comment> \<open>name and bytes of the field \<open>bundle\<close>\<close>

record runReq =
  SubmissionID :: string
  Bots :: int
  DurationS :: int
  MaxRPS :: int

text \<open>The body as \<open>MaxBytesReader\<close> presents it: its first bytes, and whether reading on is an error.\<close>

definition MaxBytesReader :: "nat \<Rightarrow> string \<Rightarrow> string \<times> bool" where
  "MaxBytesReader n body = (take n body, n < length body)"

record 'r gdeps =
  g_rdb :: "'r redis"
  ParseMultipartForm :: "string \<times> bool \<Rightarrow> string + form"
  Decode :: "string \<Rightarrow> string + runReq"
  MarshalJob :: "RunJob \<Rightarrow> string"
  dataDir :: string

text \<open>How the disk answers: the error of \<open>os.Create\<close>, the bytes \<open>io.Copy\<close> wrote and its error.\<close>

record disk =
  os_Create :: "string option"
  io_Copy :: "nat \<times> string option"

text \<open>The state behind the gateway; a file is known by the two elements of its joined path.\<close>

record 'r store =
  st_db :: 'r
  st_files :: "(string \<times> string, string) gomap"

section \<open>Submitting a bundle\<close>

definition createSubmission ::
  "'r gdeps \<Rightarrow> disk \<Rightarrow> string \<Rightarrow> int \<Rightarrow> string \<Rightarrow> 'r store \<Rightarrow> 'r store \<times> response" where
  "createSubmission d dk rnd now body s =
     (case ParseMultipartForm d (MaxBytesReader maxBundle body) of
        Inl err \<Rightarrow> (s, httpErr 400 (''bad multipart form: '' @ err))
      | Inr r \<Rightarrow>
          let team = TrimSpace (FormValue r ''team''); name = TrimSpace (FormValue r ''name'')
          in if team = [] \<or> name = [] then
               (s, httpErr 400 (''fields '' @ [CHR 0x27] @ ''team'' @ [CHR 0x27] @ '' and '' @ [CHR 0x27] @ ''name'' @ [CHR 0x27] @ '' are required''))
             else
               case FormFile r of
                 None \<Rightarrow> (s, httpErr 400 (''field '' @ [CHR 0x27] @ ''bundle'' @ [CHR 0x27] @ '' (tar.gz build context) is required''))
               | Some (fileName, bytes) \<Rightarrow>
                   if \<not> HasSuffix fileName ''.tar.gz'' \<and> \<not> HasSuffix fileName ''.tgz'' then
                     (s, httpErr 400 ''bundle must be a .tar.gz docker build context'')
                   else
                     let subID = rid rnd; path = (dataDir d, subID @ ''.tar.gz'')
                     in case os_Create dk of
                          Some err \<Rightarrow> (s, httpErr 500 (''store bundle: '' @ err))
                        | None \<Rightarrow>
                            let n = fst (io_Copy dk); s1 = s\<lparr>st_files := gm_put (st_files s) path (take n bytes)\<rparr>
                            in case snd (io_Copy dk) of
                                 Some err \<Rightarrow> (s1, httpErr 500 (''store bundle: '' @ err))
                               | None \<Rightarrow>
                                   let r1 = HSET (g_rdb d) (st_db s1) (''submission:'' @ subID)
                                              [(''id'', subID), (''team'', team), (''name'', name),
                                               (''bytes'', Itoa (int n)), (''created'', Itoa now)];
                                       r2 = LPUSH (g_rdb d) r1 ''submissions.index'' subID;
                                       r3 = LTRIM (g_rdb d) r2 ''submissions.index'' 0 199
                                   in (s1\<lparr>st_db := r3\<rparr>, writeJSON 201 (Obj [(''id'', subID)])))"

section \<open>Requesting a run\<close>

text \<open>The defaults and the clamps.\<close>

definition run_limits :: "runReq \<Rightarrow> runReq" where
  "run_limits req =
     (let r1 = (if Bots req \<le> 0 then req\<lparr>Bots := 200\<rparr> else req);
          r2 = (if DurationS r1 \<le> 0 then r1\<lparr>DurationS := 45\<rparr> else r1);
          r3 = (if MaxRPS r2 \<le> 0 then r2\<lparr>MaxRPS := 4000\<rparr> else r2)
      in r3\<lparr>Bots := min (Bots r3) maxBots, DurationS := min (DurationS r3) maxDuration, MaxRPS := min (MaxRPS r3) maxRPS\<rparr>)"

definition job_of :: "string \<Rightarrow> runReq \<Rightarrow> RunJob" where
  "job_of runID req =
     \<lparr>rj_RunID = runID, rj_SubmissionID = SubmissionID req, rj_Bots = Bots req,
      rj_DurationS = DurationS req, rj_MaxRPS = MaxRPS req\<rparr>"

definition run_fields :: "RunJob \<Rightarrow> int \<Rightarrow> (string \<times> string) list" where
  "run_fields job now =
     [(''id'', rj_RunID job), (''submission_id'', rj_SubmissionID job), (''status'', ''queued''), (''created'', Itoa now),
      (''bots'', Itoa (rj_Bots job)), (''duration_s'', Itoa (rj_DurationS job)), (''max_rps'', Itoa (rj_MaxRPS job))]"

definition createRun ::
  "'r gdeps \<Rightarrow> string \<Rightarrow> int \<Rightarrow> string \<Rightarrow> 'r store \<Rightarrow> 'r store \<times> response" where
  "createRun d rnd now body s =
     (case Decode d body of
        Inl err \<Rightarrow> (s, httpErr 400 (''bad json: '' @ err))
      | Inr req \<Rightarrow>
          if EXISTS (g_rdb d) (st_db s) (''submission:'' @ SubmissionID req) = 0 then (s, httpErr 404 ''unknown submission_id'')
          else
            let job = job_of (rid rnd) (run_limits req);
                payload = MarshalJob d job;
                r1 = HSET (g_rdb d) (st_db s) (''run:'' @ rj_RunID job) (run_fields job now);
                r2 = LPUSH (g_rdb d) r1 ''runs.index'' (rj_RunID job);
                r3 = LTRIM (g_rdb d) r2 ''runs.index'' 0 99;
                (r4, err) = XADD (g_rdb d) r3 ''runs.jobs'' payload
            in (s\<lparr>st_db := r4\<rparr>,
                case err of Some e \<Rightarrow> httpErr 500 (''enqueue: '' @ e)
                | None \<Rightarrow> writeJSON 201 (Obj [(''id'', rj_RunID job)])))"

section \<open>Reading\<close>

definition runView :: "'r redis \<Rightarrow> 'r \<Rightarrow> string \<Rightarrow> (string, string) gomap option" where
  "runView R r runID =
     (let run = HGETALL R r (''run:'' @ runID)
      in if run = [] then None
         else
           let run1 = fold (\<lambda>(k, v) m. gm_put m (''m_'' @ k) v) (HGETALL R r (''result:'' @ runID)) run;
               sub = HGETALL R r (''submission:'' @ gm_get [] run1 ''submission_id'')
           in Some (if sub \<noteq> [] then gm_put (gm_put run1 ''team'' (gm_get [] sub ''team'')) ''name'' (gm_get [] sub ''name'')
                    else run1))"

definition listRuns :: "'r redis \<Rightarrow> 'r \<Rightarrow> response" where
  "listRuns R r = writeJSON 200 (Arr (List.map_filter (runView R r) (LRANGE R r ''runs.index'' 0 49)))"

definition getRun :: "'r redis \<Rightarrow> 'r \<Rightarrow> string \<Rightarrow> response" where
  "getRun R r runID =
     (case runView R r runID of None \<Rightarrow> httpErr 404 ''unknown run'' | Some v \<Rightarrow> writeJSON 200 (Obj v))"

definition leaderboard :: "'r redis \<Rightarrow> 'r \<Rightarrow> response" where
  "leaderboard R r =
     \<lparr>rs_type = ''application/json'', rs_code = 200,
      rs_body = Raw (case GET R r ''leaderboard:snapshot'' of None \<Rightarrow> ''[]'' | Some snap \<Rightarrow> snap)\<rparr>"

end
