(* ===== verification/Gateway_Properties.thy ===== *)
theory Gateway_Properties
  imports Gateway
begin

text \<open>
  What the gateway's handlers guarantee: ids are as distinct as their random bytes, every job
  is within the limits, a submission is registered exactly when its bundle is stored, and a
  run is visible from the moment it is recorded.
\<close>

section \<open>Ids\<close>

lemma hex_digit_inj: "m < 16 \<Longrightarrow> n < 16 \<Longrightarrow> hex_digit m = hex_digit n \<longleftrightarrow> m = n"
proof -
  assume "m < 16" "n < 16"
  then have "(if m < 10 then 48 + m else 87 + m) < 256" "(if n < 10 then 48 + n else 87 + n) < 256" by simp_all
  then have "hex_digit m = hex_digit n \<longleftrightarrow> (if m < 10 then 48 + m else 87 + m) = (if n < 10 then 48 + n else 87 + n)"
    unfolding hex_digit_def char_of_eq_iff by (simp add: of_char_of take_bit_eq_mod)
  then show ?thesis using \<open>m < 16\<close> \<open>n < 16\<close> by (auto split: if_splits)
qed

lemma EncodeToString_Cons:
  "EncodeToString (b # bs) = hex_digit (of_char b div 16) # hex_digit (of_char b mod 16) # EncodeToString bs"
  by (simp add: EncodeToString_def)

lemma EncodeToString_Nil [simp]: "EncodeToString [] = []"
  by (simp add: EncodeToString_def)

lemma EncodeToString_inj: "EncodeToString bs = EncodeToString cs \<longleftrightarrow> bs = cs"
proof (induction bs arbitrary: cs)
  case Nil
  then show ?case by (cases cs) (simp_all add: EncodeToString_Cons)
next
  case (Cons b bs)
  show ?case
  proof (cases cs)
    case (Cons c cs')
    have lt: "(of_char x :: nat) div 16 < 16" for x by (simp add: less_mult_imp_div_less)
    have "(of_char b :: nat) = of_char c" if "(of_char b :: nat) div 16 = of_char c div 16" "(of_char b :: nat) mod 16 = of_char c mod 16"
      using that by (metis div_mult_mod_eq)
    then show ?thesis
      using Cons.IH by (auto simp: Cons EncodeToString_Cons hex_digit_inj lt)
  qed (simp add: EncodeToString_Cons)
qed

lemma rid_inj: "rid b = rid b' \<longleftrightarrow> b = b'"
  by (simp add: rid_def EncodeToString_inj)

lemma rid_length: "length (rid b) = 2 * length b"
  unfolding rid_def by (induction b) (simp_all add: EncodeToString_Cons)

section \<open>Limits\<close>

definition job_ok :: "RunJob \<Rightarrow> bool" where
  "job_ok job \<longleftrightarrow> 1 \<le> rj_Bots job \<and> rj_Bots job \<le> maxBots \<and> 1 \<le> rj_DurationS job \<and> rj_DurationS job \<le> maxDuration \<and>
     1 \<le> rj_MaxRPS job \<and> rj_MaxRPS job \<le> maxRPS"

lemma job_of_ok: "job_ok (job_of runID (run_limits req))"
  by (simp add: job_ok_def job_of_def run_limits_def maxBots_def maxDuration_def maxRPS_def Let_def)

lemma SubmissionID_limits [simp]: "SubmissionID (run_limits req) = SubmissionID req"
  by (simp add: run_limits_def Let_def)

section \<open>Submissions\<close>

text \<open>When an upload is accepted, and what is stored of it.\<close>

definition accepted :: "'r gdeps \<Rightarrow> disk \<Rightarrow> string \<Rightarrow> (string \<times> string \<times> string) option" where
  "accepted d dk body =
     (case ParseMultipartForm d (MaxBytesReader maxBundle body) of
        Inl err \<Rightarrow> None
      | Inr f \<Rightarrow>
          (case FormFile f of
             None \<Rightarrow> None
           | Some (fileName, bytes) \<Rightarrow>
               if TrimSpace (FormValue f ''team'') \<noteq> [] \<and> TrimSpace (FormValue f ''name'') \<noteq> [] \<and>
                  (HasSuffix fileName ''.tar.gz'' \<or> HasSuffix fileName ''.tgz'') \<and>
                  os_Create dk = None \<and> snd (io_Copy dk) = None
               then Some (TrimSpace (FormValue f ''team''), TrimSpace (FormValue f ''name''), take (fst (io_Copy dk)) bytes)
               else None))"

text \<open>
  (C20) A submission is registered exactly when its bundle is stored: an upload with a readable
  form, a team and a name that are not blank, a bundle with a permitted suffix and a disk that
  takes it gets 201, its bytes are in the file the orchestrator will open, its record has the
  trimmed team and name, and its id is at the head of the index, whose first 199 other entries
  stay. Every other upload gets 400 or 500 and leaves Redis untouched.
\<close>

theorem submission_registered_iff_stored:
  assumes "redis_ok R" "g_rdb d = R" "createSubmission d dk rnd now body s = (s', resp)"
  shows "case accepted d dk body of
      Some (team, name, bytes) \<Rightarrow>
        resp = writeJSON 201 (Obj [(''id'', rid rnd)]) \<and>
        map_of (st_files s') (dataDir d, rid rnd @ ''.tar.gz'') = Some bytes \<and>
        HGET R (st_db s') (''submission:'' @ rid rnd) ''team'' = Some team \<and>
        HGET R (st_db s') (''submission:'' @ rid rnd) ''name'' = Some name \<and>
        LRANGE R (st_db s') ''submissions.index'' 0 199 = rid rnd # LRANGE R (st_db s) ''submissions.index'' 0 198
    | None \<Rightarrow> rs_code resp \<in> {400, 500} \<and> st_db s' = st_db s"
proof (cases "accepted d dk body")
  case None
  then have "rs_code resp \<in> {400, 500} \<and> st_db s' = st_db s"
    using assms(3)
    by (auto simp: accepted_def createSubmission_def httpErr_def writeJSON_def Let_def split: sum.splits option.splits prod.splits if_splits)
  with None show ?thesis by simp
next
  case (Some a)
  obtain team name bytes where a: "a = (team, name, bytes)" by (cases a)
  have laws: "hash_ok R" "list_ok R" using assms(1) by (simp_all add: redis_ok_def)
  define kvs where "kvs = [(''id'', rid rnd), (''team'', team), (''name'', name), (''bytes'', Itoa (int (fst (io_Copy dk)))), (''created'', Itoa now)]"
  have "s' = s\<lparr>st_files := gm_put (st_files s) (dataDir d, rid rnd @ ''.tar.gz'') bytes,
      st_db := LTRIM R (LPUSH R (HSET R (st_db s) (''submission:'' @ rid rnd) kvs) ''submissions.index'' (rid rnd)) ''submissions.index'' 0 199\<rparr> \<and>
    resp = writeJSON 201 (Obj [(''id'', rid rnd)])"
    using Some assms(3) unfolding a accepted_def kvs_def assms(2)[symmetric]
    by (auto simp: createSubmission_def Let_def split: sum.splits option.splits prod.splits if_splits)
  moreover have "LRANGE R (LTRIM R (LPUSH R r k v) k 0 199) k 0 199 = v # LRANGE R r k 0 198" for r k v
    using laws(2) by (simp add: list_ok_def split: nat.split)
  ultimately show ?thesis
    unfolding Some a by (simp add: HGET_other[OF laws(1)] HGET_HSET[OF laws(1)] LRANGE_other[OF laws(2)] kvs_def)
qed

section \<open>Runs\<close>

lemma puts_keep:
  "\<forall>(k, v) \<in> set kvs. g k \<noteq> f \<Longrightarrow> map_of (fold (\<lambda>(k, v) m. gm_put m (g k) v) kvs m) f = map_of m f"
  by (induction kvs arbitrary: m) auto

lemma runView_recorded:
  assumes "HGETALL R r (''run:'' @ runID) \<noteq> []"
  shows "\<exists>v. runView R r runID = Some v \<and>
      (\<forall>f. f \<noteq> ''team'' \<longrightarrow> f \<noteq> ''name'' \<longrightarrow> take 2 f \<noteq> ''m_'' \<longrightarrow> map_of v f = HGET R r (''run:'' @ runID) f)"
proof -
  let ?run = "HGETALL R r (''run:'' @ runID)" and ?res = "HGETALL R r (''result:'' @ runID)"
  let ?run1 = "fold (\<lambda>(k, v) m. gm_put m (''m_'' @ k) v) ?res ?run"
  have "map_of ?run1 f = map_of ?run f" if "take 2 f \<noteq> ''m_''" for f
    using that by (intro puts_keep) auto
  then show ?thesis using assms by (auto simp: runView_def Let_def HGET_def)
qed

text \<open>
  (C19) A run is visible as soon as it is recorded: a request with readable JSON for a known
  submission records a job within the limits; fetching the run returns every field that was
  recorded, with status \<open>queued\<close>, and the list of runs starts with it. The answer is 201, or
  500 when the job could not be enqueued; the run is recorded and visible in both cases, so
  after a 500 it stays \<open>queued\<close> although no job for it exists.
\<close>

theorem created_run_is_visible:
  assumes "redis_ok R" "g_rdb d = R" "createRun d rnd now body s = (s', resp)"
    "Decode d body = Inr req" "EXISTS R (st_db s) (''submission:'' @ SubmissionID req) \<noteq> 0"
    "job = job_of (rid rnd) (run_limits req)"
  shows "job_ok job \<and> rs_code resp \<in> {201, 500} \<and>
    (\<exists>v. getRun R (st_db s') (rid rnd) = writeJSON 200 (Obj v) \<and>
       (\<forall>(f, x) \<in> set (run_fields job now). map_of v f = Some x) \<and>
       listRuns R (st_db s') = writeJSON 200 (Arr (v # List.map_filter (runView R (st_db s')) (LRANGE R (st_db s) ''runs.index'' 0 48))))"
proof -
  have laws: "hash_ok R" "list_ok R" using assms(1) by (simp_all add: redis_ok_def)
  have run: "rj_RunID job = rid rnd" by (simp add: assms(6) job_of_def)
  let ?r1 = "HSET R (st_db s) (''run:'' @ rid rnd) (run_fields job now)"
  let ?r3 = "LTRIM R (LPUSH R ?r1 ''runs.index'' (rid rnd)) ''runs.index'' 0 99"
  let ?x = "XADD R ?r3 ''runs.jobs'' (MarshalJob d job)"
  have "createRun d rnd now body s = (s\<lparr>st_db := fst ?x\<rparr>,
      case snd ?x of Some e \<Rightarrow> httpErr 500 (''enqueue: '' @ e) | None \<Rightarrow> writeJSON 201 (Obj [(''id'', rid rnd)]))"
    unfolding createRun_def assms(4) sum.case assms(2) if_not_P[OF assms(5)] Let_def assms(6)[symmetric] run split_beta ..
  then have db: "st_db s' = fst ?x" and code: "rs_code resp \<in> {201, 500}"
    using assms(3) by (auto simp: writeJSON_def httpErr_def split: option.splits)
  have H: "HGET R (st_db s') (''run:'' @ rid rnd) f = HGET R ?r1 (''run:'' @ rid rnd) f" for f
    by (simp add: db HGET_other[OF laws(1)])
  have fields: "\<forall>(f, x) \<in> set (run_fields job now). HGET R (st_db s') (''run:'' @ rid rnd) f = Some x"
    unfolding H HGET_HSET[OF laws(1)] by (simp add: run_fields_def)
  then have recorded: "HGETALL R (st_db s') (''run:'' @ rid rnd) \<noteq> []" by (auto simp: run_fields_def HGET_def)
  obtain v where v: "runView R (st_db s') (rid rnd) = Some v"
    "\<forall>f. f \<noteq> ''team'' \<longrightarrow> f \<noteq> ''name'' \<longrightarrow> take 2 f \<noteq> ''m_'' \<longrightarrow> map_of v f = HGET R (st_db s') (''run:'' @ rid rnd) f"
    using runView_recorded[OF recorded] by (elim exE conjE) (rule that)
  have "\<forall>(f, x) \<in> set (run_fields job now). map_of v f = Some x"
    using fields v(2) by (simp add: run_fields_def)
  moreover have "LRANGE R (st_db s') ''runs.index'' 0 49 = rid rnd # LRANGE R (st_db s) ''runs.index'' 0 48"
    using LRANGE_index[OF laws(2), of 48 99] by (simp add: db LRANGE_other[OF laws(2)])
  ultimately show ?thesis
    using v(1) code job_of_ok by (auto simp: getRun_def listRuns_def assms(6) map_filter_simps)
qed

section \<open>A gateway at work\<close>

definition demo_gdeps :: "memdb gdeps" where
  "demo_gdeps = \<lparr>g_rdb = mem,
     ParseMultipartForm = \<lambda>_. Inr \<lparr>FormValue = (\<lambda>k. if k = ''team'' then ''acme'' else ''engine''), FormFile = Some (''e.tgz'', ''bytes'')\<rparr>,
     Decode = \<lambda>_. Inr \<lparr>SubmissionID = ''s1'', Bots = 9000, DurationS = 0, MaxRPS = 10\<rparr>,
     MarshalJob = \<lambda>job. rj_RunID job, dataDir = ''/data/submissions''\<rparr>"

definition demo_disk :: disk where
  "demo_disk = \<lparr>os_Create = None, io_Copy = (5, None)\<rparr>"

definition demo_store :: "memdb store" where
  "demo_store = \<lparr>st_db = HSET mem mem_empty ''submission:s1'' [(''id'', ''s1''), (''team'', ''acme'')], st_files = []\<rparr>"

lemma demo_trim: "TrimSpace ''acme'' = ''acme''" "TrimSpace ''engine'' = ''engine''"
  by (rule TrimSpace_id, simp add: white_space_def char_of_def)+

theorem submission_registered_iff_stored_witness:
  "case createSubmission demo_gdeps demo_disk ''abcdef'' 7 ''body'' demo_store of (s', resp) \<Rightarrow>
     resp = writeJSON 201 (Obj [(''id'', rid ''abcdef'')]) \<and>
     map_of (st_files s') (''/data/submissions'', rid ''abcdef'' @ ''.tar.gz'') = Some ''bytes'' \<and>
     HGET mem (st_db s') (''submission:'' @ rid ''abcdef'') ''team'' = Some ''acme''"
proof -
  have "accepted demo_gdeps demo_disk ''body'' = Some (''acme'', ''engine'', ''bytes'')"
    by (simp add: accepted_def demo_gdeps_def demo_disk_def demo_trim HasSuffix_def)
  moreover have "g_rdb demo_gdeps = mem" "dataDir demo_gdeps = ''/data/submissions''" by (simp_all add: demo_gdeps_def)
  ultimately show ?thesis
    using submission_registered_iff_stored[OF mem_ok, of demo_gdeps demo_disk "''abcdef''" 7 "''body''" demo_store]
    by (auto split: prod.split)
qed

theorem created_run_is_visible_witness:
  "case createRun demo_gdeps ''abcdef'' 7 ''body'' demo_store of (s', resp) \<Rightarrow>
     \<exists>v. getRun mem (st_db s') (rid ''abcdef'') = writeJSON 200 (Obj v) \<and> map_of v ''status'' = Some ''queued'' \<and>
       map_of v ''bots'' = Some (Itoa 5000) \<and> map_of v ''duration_s'' = Some (Itoa 45)"
proof -
  obtain s' resp where cr: "createRun demo_gdeps ''abcdef'' 7 ''body'' demo_store = (s', resp)" by fastforce
  define req where "req = \<lparr>SubmissionID = ''s1'', Bots = 9000, DurationS = 0, MaxRPS = 10\<rparr>"
  let ?job = "job_of (rid ''abcdef'') (run_limits req)"
  have h: "Decode demo_gdeps ''body'' = Inr req" "g_rdb demo_gdeps = mem" by (simp_all add: demo_gdeps_def req_def)
  have e: "EXISTS mem (st_db demo_store) (''submission:'' @ SubmissionID req) \<noteq> 0"
    by (simp add: demo_store_def mem_def req_def)
  obtain v where v: "getRun mem (st_db s') (rid ''abcdef'') = writeJSON 200 (Obj v)"
    "\<forall>(f, x) \<in> set (run_fields ?job 7). map_of v f = Some x"
    using created_run_is_visible[OF mem_ok h(2) cr h(1) e refl] by (elim exE conjE) (rule that)
  have "run_fields ?job 7 = [(''id'', rid ''abcdef''), (''submission_id'', ''s1''), (''status'', ''queued''), (''created'', Itoa 7),
      (''bots'', Itoa 5000), (''duration_s'', Itoa 45), (''max_rps'', Itoa 10)]"
    by (simp add: run_fields_def job_of_def run_limits_def req_def maxBots_def maxDuration_def maxRPS_def)
  with v show ?thesis unfolding cr prod.case by (intro exI[of _ v]) simp
qed

end
