(* ===== verification/Hub.thy ===== *)
theory Hub
  imports Redis
begin

text \<open>
  The WebSocket fan-out of \<open>cmd/gateway/main.go\<close>: the hub, the handler of \<open>/ws\<close>, the goroutine
  that relays the ingester's publications, and the reader of each connection, as a step
  relation. A step is what a goroutine does under the hub's mutex or with one channel
  operation. The Redis client delivers publications to the channel of the subscription in order,
  but may drop one (it does when the channel stays full); a dropped publication is a step of
  its own, and a subscription ends only after its channel was drained, as the \<open>range\<close> loop
  requires. Three history variables record what the subscription delivered, what the hub took
  from its channel, and where in that sequence a connection joined.
\<close>

section \<open>The hub\<close>

type_synonym conn = nat

record hub =
  clients :: "(conn, unit) gomap"
  bcast :: "string list"

definition newHub :: hub where "newHub = \<lparr>clients = [], bcast = []\<rparr>"

definition bcast_cap :: nat where "bcast_cap = 64"

definition hub_add :: "conn \<Rightarrow> hub \<Rightarrow> hub" where
  "hub_add c h = h\<lparr>clients := gm_put (clients h) c ()\<rparr>"

definition hub_remove :: "conn \<Rightarrow> hub \<Rightarrow> hub" where
  "hub_remove c h = h\<lparr>clients := gm_delete (clients h) c\<rparr>"

section \<open>The gateway's goroutines\<close>

record 'r wsys =
  w_db :: 'r
  w_hub :: hub
  w_subscribed :: bool
  w_chan :: "string list" \<comment> \<open>\<open>sub.Channel()\<close>\<close>
  w_joining :: "conn list" \<comment> \<open>in \<open>ws\<close>, before \<open>hub.add\<close>\<close>
  w_open :: "conn list" \<comment> \<open>with a running reader\<close>
  w_closed :: "conn list"
  w_out :: "(conn \<times> string) list" \<comment> \<open>the messages written, in order\<close>
  w_heard :: "string list" \<comment> \<open>history: delivered by the subscription\<close>
  w_taken :: "string list" \<comment> \<open>history: received from \<open>bcast\<close>\<close>
  w_since :: "(conn, nat) gomap" \<comment> \<open>history: messages taken before \<open>hub.add\<close>\<close>

definition wsys_init :: "'r \<Rightarrow> 'r wsys" where
  "wsys_init r = \<lparr>w_db = r, w_hub = newHub, w_subscribed = False, w_chan = [], w_joining = [], w_open = [],
     w_closed = [], w_out = [], w_heard = [], w_taken = [], w_since = []\<rparr>"

text \<open>The body of \<open>hub.run\<close> for one client: a client that cannot be written to is closed and dropped.\<close>

definition write_client :: "(conn \<Rightarrow> bool) \<Rightarrow> string \<Rightarrow> conn \<Rightarrow> 'r wsys \<Rightarrow> 'r wsys" where
  "write_client bad msg c s =
     (if bad c \<or> c \<in> set (w_closed s)
      then s\<lparr>w_closed := c # w_closed s, w_hub := hub_remove c (w_hub s)\<rparr>
      else s\<lparr>w_out := w_out s @ [(c, msg)]\<rparr>)"

definition broadcast :: "(conn \<Rightarrow> bool) \<Rightarrow> string \<Rightarrow> 'r wsys \<Rightarrow> 'r wsys" where
  "broadcast bad msg s = fold (write_client bad msg) (map fst (clients (w_hub s))) s"

datatype wevent =
    Publish string               \<comment> \<open>the ingester stores and publishes a snapshot\<close>
  | Dropped string               \<comment> \<open>the same, but the Redis client drops the message\<close>
  | Subscribe                    \<comment> \<open>\<open>pumpEvents\<close> subscribes\<close>
  | Hiccup                       \<comment> \<open>the subscription ends\<close>
  | Pump                         \<comment> \<open>\<open>pumpEvents\<close> relays a message\<close>
  | Run "conn \<Rightarrow> bool"           \<comment> \<open>\<open>hub.run\<close> takes a message; which writes fail\<close>
  | Upgrade conn bool            \<comment> \<open>\<open>ws\<close> to the writing of the snapshot; whether the write succeeds\<close>
  | Joined conn                  \<comment> \<open>\<open>ws\<close> adds the client\<close>
  | ReaderEnds conn              \<comment> \<open>the reader sees an error\<close>

definition wstep :: "'r redis \<Rightarrow> wevent \<Rightarrow> 'r wsys \<Rightarrow> 'r wsys option" where
  "wstep R ev s =
     (case ev of
        Publish p \<Rightarrow>
          (let s1 = s\<lparr>w_db := PUBLISH R (SET R (w_db s) ''leaderboard:snapshot'' p) ''events.leaderboard'' p\<rparr>
           in Some (if w_subscribed s then s1\<lparr>w_chan := w_chan s @ [p], w_heard := w_heard s @ [p]\<rparr> else s1))
      | Dropped p \<Rightarrow>
          Some (s\<lparr>w_db := PUBLISH R (SET R (w_db s) ''leaderboard:snapshot'' p) ''events.leaderboard'' p\<rparr>)
      | Subscribe \<Rightarrow> if w_subscribed s then None else Some (s\<lparr>w_subscribed := True\<rparr>)
      | Hiccup \<Rightarrow> if w_subscribed s \<and> w_chan s = [] then Some (s\<lparr>w_subscribed := False\<rparr>) else None
      | Pump \<Rightarrow>
          (case w_chan s of
             [] \<Rightarrow> None
           | m # ms \<Rightarrow>
               if length (bcast (w_hub s)) < bcast_cap
               then Some (s\<lparr>w_chan := ms, w_hub := (w_hub s)\<lparr>bcast := bcast (w_hub s) @ [m]\<rparr>\<rparr>) else None)
      | Run bad \<Rightarrow>
          (case bcast (w_hub s) of
             [] \<Rightarrow> None
           | m # ms \<Rightarrow>
               Some (broadcast bad m (s\<lparr>w_hub := (w_hub s)\<lparr>bcast := ms\<rparr>, w_taken := w_taken s @ [m]\<rparr>)))
      | Upgrade c written \<Rightarrow>
          (if c \<in> set (w_joining s) \<or> c \<in> set (w_open s) \<or> c \<in> set (w_closed s) then None
           else
             let s1 = s\<lparr>w_joining := c # w_joining s\<rparr>
             in case GET R (w_db s) ''leaderboard:snapshot'' of
                  Some snap \<Rightarrow> Some (if written then s1\<lparr>w_out := w_out s @ [(c, snap)]\<rparr> else s1)
                | None \<Rightarrow> Some s1)
      | Joined c \<Rightarrow>
          (if c \<in> set (w_joining s)
           then Some (s\<lparr>w_joining := removeAll c (w_joining s), w_open := c # w_open s, w_hub := hub_add c (w_hub s),
                        w_since := gm_put (w_since s) c (length (w_taken s))\<rparr>)
           else None)
      | ReaderEnds c \<Rightarrow>
          (if c \<in> set (w_open s)
           then Some (s\<lparr>w_open := removeAll c (w_open s), w_closed := c # w_closed s, w_hub := hub_remove c (w_hub s)\<rparr>)
           else None))"

inductive ws_reachable :: "'r redis \<Rightarrow> 'r \<Rightarrow> 'r wsys \<Rightarrow> bool" for R r where
  start: "ws_reachable R r (wsys_init r)"
| step: "ws_reachable R r s \<Longrightarrow> wstep R ev s = Some s' \<Longrightarrow> ws_reachable R r s'"

definition sent_to :: "'r wsys \<Rightarrow> conn \<Rightarrow> string list" where
  "sent_to s c = map snd (filter (\<lambda>x. fst x = c) (w_out s))"

section \<open>One turn of the hub\<close>

definition dead :: "(conn \<Rightarrow> bool) \<Rightarrow> 'r wsys \<Rightarrow> conn \<Rightarrow> bool" where
  "dead bad s c \<longleftrightarrow> bad c \<or> c \<in> set (w_closed s)"

lemma write_client_dead: "x \<noteq> c \<Longrightarrow> dead bad (write_client bad m c s) x \<longleftrightarrow> dead bad s x"
  by (simp add: dead_def write_client_def)

lemma write_fold_out:
  "distinct cs \<Longrightarrow>
   w_out (fold (write_client bad m) cs s) = w_out s @ map (\<lambda>c. (c, m)) (filter (\<lambda>c. \<not> dead bad s c) cs)"
proof (induction cs arbitrary: s)
  case (Cons c cs)
  let ?s = "write_client bad m c s"
  have "filter (\<lambda>c. \<not> dead bad ?s c) cs = filter (\<lambda>c. \<not> dead bad s c) cs"
    using Cons.prems by (intro filter_cong refl) (metis distinct.simps(2) write_client_dead)
  with Cons show ?case by (simp add: write_client_def dead_def)
qed simp

lemma write_fold_closed:
  "distinct cs \<Longrightarrow>
   set (w_closed (fold (write_client bad m) cs s)) = set (w_closed s) \<union> {c \<in> set cs. dead bad s c}"
proof (induction cs arbitrary: s)
  case (Cons c cs)
  let ?s = "write_client bad m c s"
  have "{x \<in> set cs. dead bad ?s x} = {x \<in> set cs. dead bad s x}"
    using Cons.prems write_client_dead by (metis distinct.simps(2))
  with Cons show ?case by (auto simp: write_client_def dead_def)
qed simp

lemma write_fold_clients:
  "distinct cs \<Longrightarrow> map_of (clients (w_hub (fold (write_client bad m) cs s))) =
     (\<lambda>c. if c \<in> set cs \<and> dead bad s c then None else map_of (clients (w_hub s)) c)"
proof (induction cs arbitrary: s)
  case (Cons c cs)
  then have "c \<notin> set cs" "distinct cs" by simp_all
  with Cons.IH[of "write_client bad m c s"] write_client_dead[of _ c bad m s] show ?case
    by (auto simp: fun_eq_iff write_client_def hub_remove_def dead_def)
qed simp

lemma write_fold_ok: "gm_ok (clients (w_hub s)) \<Longrightarrow> gm_ok (clients (w_hub (fold (write_client bad m) cs s)))"
  by (induction cs arbitrary: s) (simp_all add: write_client_def hub_remove_def)

lemma write_fold_frame [simp]:
  "w_db (fold (write_client bad m) cs s) = w_db s" "bcast (w_hub (fold (write_client bad m) cs s)) = bcast (w_hub s)"
  "w_chan (fold (write_client bad m) cs s) = w_chan s" "w_joining (fold (write_client bad m) cs s) = w_joining s"
  "w_open (fold (write_client bad m) cs s) = w_open s" "w_heard (fold (write_client bad m) cs s) = w_heard s"
  "w_taken (fold (write_client bad m) cs s) = w_taken s" "w_since (fold (write_client bad m) cs s) = w_since s"
  by (induction cs arbitrary: s) (simp_all add: write_client_def hub_remove_def)

section \<open>The invariant\<close>

text \<open>What a client has been sent: at most a snapshot, then everything taken since it joined.\<close>

definition in_step :: "'r wsys \<Rightarrow> conn \<Rightarrow> bool" where
  "in_step s c \<longleftrightarrow> (\<exists>first n. map_of (w_since s) c = Some n \<and> n \<le> length (w_taken s) \<and> length first \<le> 1 \<and>
     sent_to s c = first @ drop n (w_taken s))"

definition wsys_ok :: "'r wsys \<Rightarrow> bool" where
  "wsys_ok s \<longleftrightarrow>
     gm_ok (clients (w_hub s)) \<and> length (bcast (w_hub s)) \<le> bcast_cap \<and>
     w_heard s = w_taken s @ bcast (w_hub s) @ w_chan s \<and>
     fst ` set (clients (w_hub s)) \<subseteq> set (w_open s) - set (w_closed s) \<and>
     set (w_joining s) \<inter> (set (w_open s) \<union> set (w_closed s)) = {} \<and>
     (\<forall>c. c \<notin> set (w_joining s) \<union> set (w_open s) \<union> set (w_closed s) \<longrightarrow> sent_to s c = []) \<and>
     (\<forall>c \<in> set (w_joining s). length (sent_to s c) \<le> 1) \<and>
     (\<forall>c \<in> fst ` set (clients (w_hub s)). in_step s c)"

lemma keys_map_of: "fst ` set m = dom (map_of m)"
  by (simp add: dom_map_of_conv_image_fst)

lemma sent_to_broadcast:
  assumes "gm_ok (clients (w_hub s))"
  shows "sent_to (broadcast bad m s) c =
    sent_to s c @ (if c \<in> fst ` set (clients (w_hub s)) \<and> \<not> dead bad s c then [m] else [])"
proof -
  let ?cs = "map fst (clients (w_hub s))"
  have d: "distinct ?cs" using assms by (simp add: gm_ok_def)
  have "map snd (filter (\<lambda>x. fst x = c) (map (\<lambda>c. (c, m)) cs)) = (if c \<in> set cs then [m] else [])" if "distinct cs" for cs
    using that by (induction cs) auto
  then show ?thesis
    using d by (simp add: sent_to_def broadcast_def write_fold_out dead_def)
qed

lemma wsys_ok_init: "wsys_ok (wsys_init r)"
  by (simp add: wsys_ok_def wsys_init_def newHub_def sent_to_def)

text \<open>Steps that change neither the hub's clients nor what was written keep the invariant by its parts.\<close>

lemma in_step_cong:
  "sent_to s' c = sent_to s c \<Longrightarrow> w_since s' = w_since s \<Longrightarrow> w_taken s' = w_taken s \<Longrightarrow> in_step s' c = in_step s c"
  by (simp add: in_step_def)

lemma sent_to_cong: "w_out s' = w_out s \<Longrightarrow> sent_to s' c = sent_to s c"
  by (simp add: sent_to_def)

lemma sent_to_snoc: "w_out s' = w_out s @ [(c, m)] \<Longrightarrow> sent_to s' x = sent_to s x @ (if x = c then [m] else [])"
  by (simp add: sent_to_def)

lemma ok_Run:
  assumes ok: "wsys_ok s" and b: "bcast (w_hub s) = m # ms"
  shows "wsys_ok (broadcast bad m (s\<lparr>w_hub := (w_hub s)\<lparr>bcast := ms\<rparr>, w_taken := w_taken s @ [m]\<rparr>))"
proof -
  define s1 where "s1 = s\<lparr>w_hub := (w_hub s)\<lparr>bcast := ms\<rparr>, w_taken := w_taken s @ [m]\<rparr>"
  let ?s' = "broadcast bad m s1" and ?cs = "map fst (clients (w_hub s1))"
  have g: "gm_ok (clients (w_hub s1))" using ok by (simp add: wsys_ok_def s1_def)
  then have d: "distinct ?cs" by (simp add: gm_ok_def)
  have keys: "fst ` set (clients (w_hub ?s')) = {c \<in> fst ` set (clients (w_hub s)). \<not> dead bad s1 c}"
    unfolding keys_map_of broadcast_def write_fold_clients[OF d]
    by (auto simp: s1_def dom_def keys_map_of split: if_splits)
  have closed: "set (w_closed ?s') = set (w_closed s) \<union> {c \<in> fst ` set (clients (w_hub s)). dead bad s1 c}"
    unfolding broadcast_def write_fold_closed[OF d] by (simp add: s1_def)
  have sent: "sent_to ?s' c = sent_to s c @ (if c \<in> fst ` set (clients (w_hub s)) \<and> \<not> dead bad s1 c then [m] else [])" for c
    using sent_to_broadcast[OF g, of bad m c] by (simp add: s1_def sent_to_def)
  have frame: "bcast (w_hub ?s') = ms" "w_chan ?s' = w_chan s" "w_joining ?s' = w_joining s" "w_open ?s' = w_open s"
    "w_heard ?s' = w_heard s" "w_taken ?s' = w_taken s @ [m]" "w_since ?s' = w_since s"
    by (simp_all add: broadcast_def s1_def)
  have "gm_ok (clients (w_hub ?s'))" unfolding broadcast_def by (rule write_fold_ok[OF g])
  moreover have "in_step ?s' c" if "c \<in> fst ` set (clients (w_hub ?s'))" for c
  proof -
    have "in_step s c" using that ok unfolding wsys_ok_def keys by blast
    then show ?thesis using that unfolding keys in_step_def sent frame by auto
  qed
  ultimately show ?thesis
    using ok b unfolding wsys_ok_def frame keys closed s1_def[symmetric] by (auto simp: sent)
qed

lemma ok_relay:
  assumes ok: "wsys_ok s"
    and "clients (w_hub s') = clients (w_hub s)" "w_joining s' = w_joining s" "w_open s' = w_open s" "w_closed s' = w_closed s"
      "w_out s' = w_out s" "w_taken s' = w_taken s" "w_since s' = w_since s"
      "w_heard s' = w_taken s @ bcast (w_hub s') @ w_chan s'" "length (bcast (w_hub s')) \<le> bcast_cap"
  shows "wsys_ok s'"
  using ok assms(9,10) unfolding wsys_ok_def assms(2-5,7) in_step_def sent_to_def assms(6,8) by simp

lemma wstep_ok:
  assumes ok: "wsys_ok s" and st: "wstep R ev s = Some s'"
  shows "wsys_ok s'"
proof (cases ev)
  case (Run bad)
  with st ok_Run[OF ok] show ?thesis by (auto simp: wstep_def split: list.splits)
next
  case (Upgrade c written)
  then have c: "c \<notin> set (w_joining s) \<union> set (w_open s) \<union> set (w_closed s)"
    and s': "w_joining s' = c # w_joining s" "w_hub s' = w_hub s" "w_open s' = w_open s" "w_closed s' = w_closed s"
      "w_heard s' = w_heard s" "w_taken s' = w_taken s" "w_chan s' = w_chan s" "w_since s' = w_since s"
      "w_out s' = w_out s \<or> (\<exists>m. w_out s' = w_out s @ [(c, m)])"
    using st by (auto simp: wstep_def Let_def split: if_splits option.splits)
  have sent: "x \<noteq> c \<Longrightarrow> sent_to s' x = sent_to s x" "length (sent_to s' c) \<le> length (sent_to s c) + 1" for x
    using s'(9) sent_to_cong[of s' s] sent_to_snoc[of s' s c] by auto
  have "sent_to s c = []" using ok c by (simp add: wsys_ok_def)
  moreover have "in_step s' x = in_step s x" if "x \<in> fst ` set (clients (w_hub s))" for x
    using that ok c sent(1)[of x] s' by (intro in_step_cong) (auto simp: wsys_ok_def)
  moreover have "length (sent_to s' x) \<le> 1" if "x \<in> set (w_joining s')" for x
    using that ok sent(2) sent(1)[of x] s'(1) \<open>sent_to s c = []\<close> by (cases "x = c") (auto simp: wsys_ok_def)
  ultimately show ?thesis using ok c s'(1-8) sent by (auto simp: wsys_ok_def)
next
  case (Joined c)
  then have c: "c \<in> set (w_joining s)" and s': "s' = s\<lparr>w_joining := removeAll c (w_joining s), w_open := c # w_open s,
      w_hub := hub_add c (w_hub s), w_since := gm_put (w_since s) c (length (w_taken s))\<rparr>"
    using st by (auto simp: wstep_def split: if_splits)
  have sent: "sent_to s' x = sent_to s x" for x by (simp add: s' sent_to_def)
  have keys: "fst ` set (clients (w_hub s')) = insert c (fst ` set (clients (w_hub s)))"
    by (auto simp: s' hub_add_def keys_map_of)
  have "in_step s' x" if "x \<in> fst ` set (clients (w_hub s'))" for x
  proof (cases "x = c")
    case True
    have "length (sent_to s c) \<le> 1" using ok c by (simp add: wsys_ok_def)
    with True show ?thesis by (simp add: in_step_def sent) (simp add: s')
  next
    case False
    then have "in_step s x" using that ok unfolding keys wsys_ok_def by blast
    then show ?thesis using False by (simp add: in_step_def sent) (simp add: s')
  qed
  moreover have "x \<in> set (w_joining s') \<union> set (w_open s') \<longleftrightarrow> x \<in> set (w_joining s) \<union> set (w_open s)" for x
    using c by (auto simp: s')
  ultimately show ?thesis
    using ok c unfolding wsys_ok_def keys sent by (auto simp: s' hub_add_def)
next
  case (ReaderEnds c)
  then have c: "c \<in> set (w_open s)" and s': "s' = s\<lparr>w_open := removeAll c (w_open s), w_closed := c # w_closed s,
      w_hub := hub_remove c (w_hub s)\<rparr>"
    using st by (auto simp: wstep_def split: if_splits)
  have sent: "sent_to s' x = sent_to s x" for x by (simp add: s' sent_to_def)
  have keys: "fst ` set (clients (w_hub s')) = fst ` set (clients (w_hub s)) - {c}"
    by (auto simp: s' hub_remove_def keys_map_of)
  have "in_step s' x = in_step s x" for x by (rule in_step_cong) (simp_all add: sent, simp_all add: s')
  then show ?thesis using ok c unfolding wsys_ok_def keys sent by (auto simp: s' hub_remove_def)
next
  case Pump
  then obtain m ms where c: "w_chan s = m # ms" "length (bcast (w_hub s)) < bcast_cap"
    and s': "s' = s\<lparr>w_chan := ms, w_hub := (w_hub s)\<lparr>bcast := bcast (w_hub s) @ [m]\<rparr>\<rparr>"
    using st by (auto simp: wstep_def split: list.splits if_splits)
  show ?thesis by (rule ok_relay[OF ok]) (use ok c in \<open>simp_all add: s' wsys_ok_def\<close>)
next
  case (Publish p)
  show ?thesis by (rule ok_relay[OF ok]) (use ok st Publish in \<open>auto simp: wstep_def Let_def wsys_ok_def\<close>)
next
  case (Dropped p)
  show ?thesis by (rule ok_relay[OF ok]) (use ok st Dropped in \<open>auto simp: wstep_def wsys_ok_def\<close>)
next
  case Subscribe
  show ?thesis by (rule ok_relay[OF ok]) (use ok st Subscribe in \<open>auto simp: wstep_def wsys_ok_def split: if_splits\<close>)
next
  case Hiccup
  show ?thesis by (rule ok_relay[OF ok]) (use ok st Hiccup in \<open>auto simp: wstep_def wsys_ok_def split: if_splits\<close>)
qed

lemma ws_reachable_ok: "ws_reachable R r s \<Longrightarrow> wsys_ok s"
  by (induction rule: ws_reachable.induct) (auto intro: wsys_ok_init wstep_ok)

text \<open>
  (C18) Clients are in step with the publications: under every interleaving of publications,
  dropped messages, lost subscriptions, connecting, failing and departing clients, the messages
  the subscription delivered are, in order and without loss or duplication, those the hub has taken, those in
  its channel (at most 64) and those not yet relayed; and every client in the hub has been
  sent, after at most one snapshot, exactly the messages the hub took since the client joined.
\<close>

theorem clients_in_step:
  assumes "ws_reachable R r s" "c \<in> fst ` set (clients (w_hub s))"
  shows "w_heard s = w_taken s @ bcast (w_hub s) @ w_chan s \<and> length (bcast (w_hub s)) \<le> 64 \<and>
    (\<exists>first n. map_of (w_since s) c = Some n \<and> length first \<le> 1 \<and> sent_to s c = first @ drop n (w_taken s))"
  using ws_reachable_ok[OF assms(1)] assms(2) unfolding wsys_ok_def in_step_def bcast_cap_def by blast

section \<open>Schedules\<close>

fun wrun :: "'r redis \<Rightarrow> wevent list \<Rightarrow> 'r wsys \<Rightarrow> 'r wsys option" where
  "wrun R [] s = Some s"
| "wrun R (ev # evs) s = (case wstep R ev s of None \<Rightarrow> None | Some s' \<Rightarrow> wrun R evs s')"

lemma wrun_reachable: "ws_reachable R r s \<Longrightarrow> wrun R evs s = Some s' \<Longrightarrow> ws_reachable R r s'"
  by (induction evs arbitrary: s) (auto split: option.splits intro: ws_reachable.step)

definition demo_wevents :: "wevent list" where
  "demo_wevents = [Subscribe, Publish ''A'', Upgrade 1 True, Joined 1, Pump, Publish ''B'', Run (\<lambda>c. False)]"

theorem clients_in_step_witness:
  "\<exists>s first n. wrun mem demo_wevents (wsys_init mem_empty) = Some s \<and> map_of (w_since s) 1 = Some n \<and>
     length first \<le> 1 \<and> sent_to s 1 = first @ drop n (w_taken s) \<and> w_heard s = [''A'', ''B'']"
proof -
  obtain s where s: "wrun mem demo_wevents (wsys_init mem_empty) = Some s" "clients (w_hub s) = [(1, ())]" "w_heard s = [''A'', ''B'']"
    by (simp add: demo_wevents_def wstep_def wsys_init_def newHub_def mem_def mem_empty_def bcast_cap_def gm_put_def gm_get_def
        hub_add_def broadcast_def write_client_def)
  have "ws_reachable mem mem_empty s" using s(1) by (rule wrun_reachable[OF ws_reachable.start])
  from clients_in_step[OF this, of 1] s show ?thesis by auto
qed

text \<open>
  (C39) A client can miss a publication: \<open>ws\<close> sends the snapshot before it adds the client to the
  hub, and there is a schedule in which a snapshot is published, relayed and broadcast in
  between. Nothing is then left to deliver, the client is in the hub, and it has not been sent
  the leaderboard that Redis holds.
\<close>

theorem joining_client_misses_snapshot:
  "\<exists>(R :: memdb redis) r s. redis_ok R \<and> ws_reachable R r s \<and> 1 \<in> fst ` set (clients (w_hub s)) \<and>
     w_subscribed s \<and> w_chan s = [] \<and> bcast (w_hub s) = [] \<and> w_joining s = [] \<and>
     GET R (w_db s) ''leaderboard:snapshot'' = Some ''B'' \<and> sent_to s 1 = [''A'']"
proof -
  let ?evs = "[Subscribe, Publish ''A'', Pump, Run (\<lambda>c. False), Upgrade 1 True, Publish ''B'', Pump, Run (\<lambda>c. False), Joined 1]"
  obtain s where s: "wrun mem ?evs (wsys_init mem_empty) = Some s" "clients (w_hub s) = [(1, ())]" "w_subscribed s"
    "w_chan s = []" "bcast (w_hub s) = []" "w_joining s = []" "GET mem (w_db s) ''leaderboard:snapshot'' = Some ''B''" "w_out s = [(1, ''A'')]"
    by (simp add: wstep_def wsys_init_def newHub_def mem_def mem_empty_def bcast_cap_def gm_put_def gm_get_def
        hub_add_def broadcast_def write_client_def)
  have "ws_reachable mem mem_empty s" using s(1) by (rule wrun_reachable[OF ws_reachable.start])
  with s mem_ok show ?thesis by (intro exI[of _ mem] exI[of _ mem_empty] exI[of _ s]) (simp add: sent_to_def)
qed

end
