(* ===== verification/Streams.thy ===== *)
theory Streams
  imports Protocol
begin

text \<open>
  The consumer loops in \<open>main\<close> of the orchestrator, the load generator and the ingester. Each
  reads its stream through a consumer group, decodes every message and hands it to the
  service; they differ in when they acknowledge. A run of a loop is a finite sequence of
  answers of \<open>XREADGROUP\<close>; the decoder is a parameter. A message without a text \<open>payload\<close> makes
  the type assertion panic, which ends the process. The interface \<open>stream_consumer\<close> is what the
  three loop bodies share, and is interpreted for each of them.
\<close>

section \<open>Messages and actions\<close>

record message =
  msg_ID :: string
  msg_payload :: "string option" \<comment> \<open>\<open>Values["payload"].(string)\<close>\<close>

datatype read = ReadNil | ReadErr string | ReadMsgs "message list list"

datatype 'j action = Act 'j | XAck string | Pause int | Panic

section \<open>The loop bodies\<close>

definition orch_turn :: "(string \<Rightarrow> string + RunJob) \<Rightarrow> message \<Rightarrow> RunJob action list" where
  "orch_turn unm msg =
     (case msg_payload msg of
        None \<Rightarrow> [Panic]
      | Some p \<Rightarrow> (case unm p of Inl err \<Rightarrow> [] | Inr job \<Rightarrow> [Act job]) @ [XAck (msg_ID msg)])"

definition fleet_turn :: "(string \<Rightarrow> string + LoadShard) \<Rightarrow> message \<Rightarrow> LoadShard action list" where
  "fleet_turn unm msg =
     XAck (msg_ID msg) #
     (case msg_payload msg of
        None \<Rightarrow> [Panic]
      | Some p \<Rightarrow> (case unm p of Inl err \<Rightarrow> [] | Inr shard \<Rightarrow> [Act shard]))"

definition ing_turn :: "(string \<Rightarrow> string + TelemetryBatch) \<Rightarrow> message \<Rightarrow> TelemetryBatch action list" where
  "ing_turn unm msg =
     (case msg_payload msg of
        None \<Rightarrow> [Panic]
      | Some p \<Rightarrow> (case unm p of Inl err \<Rightarrow> [] | Inr b \<Rightarrow> [Act b]) @ [XAck (msg_ID msg)])"

section \<open>The loops\<close>

fun deliver :: "(message \<Rightarrow> 'j action list) \<Rightarrow> message list \<Rightarrow> 'j action list" where
  "deliver turn [] = []"
| "deliver turn (msg # msgs) = (let xs = turn msg in if Panic \<in> set xs then xs else xs @ deliver turn msgs)"

fun consume :: "(message \<Rightarrow> 'j action list) \<Rightarrow> read list \<Rightarrow> 'j action list" where
  "consume turn [] = []"
| "consume turn (ReadNil # rs) = consume turn rs"
| "consume turn (ReadErr e # rs) = Pause (2 * 10 ^ 9) # consume turn rs"
| "consume turn (ReadMsgs sts # rs) =
     (let xs = deliver turn (concat sts) in if Panic \<in> set xs then xs else xs @ consume turn rs)"

definition orch_main :: "(string \<Rightarrow> string + RunJob) \<Rightarrow> read list \<Rightarrow> RunJob action list" where
  "orch_main unm = consume (orch_turn unm)"

definition fleet_main :: "(string \<Rightarrow> string + LoadShard) \<Rightarrow> read list \<Rightarrow> LoadShard action list" where
  "fleet_main unm = consume (fleet_turn unm)"

definition ing_main :: "(string \<Rightarrow> string + TelemetryBatch) \<Rightarrow> read list \<Rightarrow> TelemetryBatch action list" where
  "ing_main unm = consume (ing_turn unm)"

section \<open>What was read, acknowledged and handled\<close>

fun messages :: "read list \<Rightarrow> message list" where
  "messages [] = []"
| "messages (ReadMsgs sts # rs) = concat sts @ messages rs"
| "messages (r # rs) = messages rs"

definition acks :: "'j action list \<Rightarrow> string list" where
  "acks xs = concat (map (\<lambda>x. case x of XAck i \<Rightarrow> [i] | _ \<Rightarrow> []) xs)"

definition acts :: "'j action list \<Rightarrow> 'j list" where
  "acts xs = concat (map (\<lambda>x. case x of Act j \<Rightarrow> [j] | _ \<Rightarrow> []) xs)"

definition decoded :: "(string \<Rightarrow> string + 'j) \<Rightarrow> message \<Rightarrow> 'j list" where
  "decoded unm msg = (case msg_payload msg of None \<Rightarrow> [] | Some p \<Rightarrow> (case unm p of Inl err \<Rightarrow> [] | Inr j \<Rightarrow> [j]))"

lemma acks_simps [simp]: "acks [] = []" "acks (xs @ ys) = acks xs @ acks ys" "acks (Pause n # xs) = acks xs"
  by (simp_all add: acks_def)

lemma acts_simps [simp]: "acts [] = []" "acts (xs @ ys) = acts xs @ acts ys" "acts (Pause n # xs) = acts xs"
  by (simp_all add: acts_def)

text \<open>Every handled message is acknowledged by the action just before it, or just after it.\<close>

definition acked_before :: "(string \<Rightarrow> string + 'j) \<Rightarrow> message set \<Rightarrow> 'j action list \<Rightarrow> bool" where
  "acked_before unm M as \<longleftrightarrow>
     (\<forall>xs j ys. as = xs @ Act j # ys \<longrightarrow> (\<exists>m \<in> M. j \<in> set (decoded unm m) \<and> xs \<noteq> [] \<and> last xs = XAck (msg_ID m)))"

definition acked_after :: "(string \<Rightarrow> string + 'j) \<Rightarrow> message set \<Rightarrow> 'j action list \<Rightarrow> bool" where
  "acked_after unm M as \<longleftrightarrow>
     (\<forall>xs j ys. as = xs @ Act j # ys \<longrightarrow> (\<exists>m \<in> M. j \<in> set (decoded unm m) \<and> ys \<noteq> [] \<and> hd ys = XAck (msg_ID m)))"

lemma acked_before_append: "acked_before unm M as \<Longrightarrow> acked_before unm M bs \<Longrightarrow> acked_before unm M (as @ bs)"
  unfolding acked_before_def by (fastforce simp: append_eq_append_conv2 Cons_eq_append_conv append_eq_Cons_conv)

lemma acked_after_append: "acked_after unm M as \<Longrightarrow> acked_after unm M bs \<Longrightarrow> acked_after unm M (as @ bs)"
  unfolding acked_after_def by (fastforce simp: append_eq_append_conv2 Cons_eq_append_conv append_eq_Cons_conv)

lemma acked_simple [simp]: "acked_before unm M []" "acked_after unm M []" "acked_before unm M [Pause n]" "acked_after unm M [Pause n]"
  by (auto simp: acked_before_def acked_after_def Cons_eq_append_conv)

lemma acked_mono: "acked_before unm M as \<Longrightarrow> M \<subseteq> N \<Longrightarrow> acked_before unm N as" "acked_after unm M as \<Longrightarrow> M \<subseteq> N \<Longrightarrow> acked_after unm N as"
  unfolding acked_before_def acked_after_def by blast+

section \<open>The interface of a loop body\<close>

locale stream_consumer =
  fixes turn :: "message \<Rightarrow> 'j action list" and unm :: "string \<Rightarrow> string + 'j"
  assumes turn_panic: "Panic \<in> set (turn m) \<longleftrightarrow> msg_payload m = None"
    and turn_acks: "msg_payload m \<noteq> None \<Longrightarrow> acks (turn m) = [msg_ID m]"
    and turn_acts: "acts (turn m) = decoded unm m"
begin

lemma deliver_ok:
  "None \<notin> msg_payload ` set msgs \<Longrightarrow>
   acks (deliver turn msgs) = map msg_ID msgs \<and> acts (deliver turn msgs) = concat (map (decoded unm) msgs) \<and>
   Panic \<notin> set (deliver turn msgs)"
proof (induction msgs)
  case (Cons m msgs)
  moreover from Cons.prems have "msg_payload m \<noteq> None" by (metis image_eqI list.set_intros(1))
  ultimately show ?case using turn_panic[of m] turn_acks[of m] turn_acts[of m] by (auto simp: Let_def)
qed simp

lemma consume_ok:
  "None \<notin> msg_payload ` set (messages rs) \<Longrightarrow>
   acks (consume turn rs) = map msg_ID (messages rs) \<and> acts (consume turn rs) = concat (map (decoded unm) (messages rs))"
proof (induction rs)
  case (Cons r rs)
  show ?case
  proof (cases r)
    case (ReadMsgs sts)
    with Cons.prems have "None \<notin> msg_payload ` set (concat sts)" "None \<notin> msg_payload ` set (messages rs)" by auto
    with deliver_ok Cons.IH ReadMsgs show ?thesis by (simp add: Let_def)
  qed (use Cons in simp_all)
qed simp

text \<open>A panic ends the run: nothing of what was read later is handled.\<close>

lemma deliver_stops:
  "None \<notin> msg_payload ` set ms \<Longrightarrow> msg_payload m = None \<Longrightarrow>
   deliver turn (ms @ m # ms') = deliver turn ms @ turn m"
proof (induction ms)
  case Nil
  then show ?case using turn_panic[of m] by (simp add: Let_def)
next
  case (Cons a ms)
  then have "msg_payload a \<noteq> None" by (metis image_eqI list.set_intros(1))
  with Cons turn_panic[of a] show ?case by (simp add: Let_def)
qed

end

text \<open>Consumers that acknowledge on claim, and consumers that acknowledge when they are done.\<close>

locale ack_on_claim = stream_consumer +
  assumes turn_before: "acked_before unm {m} (turn m)"
begin

lemma deliver_before: "acked_before unm (set msgs) (deliver turn msgs)"
proof (induction msgs)
  case (Cons m msgs)
  then have "acked_before unm (set (m # msgs)) (turn m)" "acked_before unm (set (m # msgs)) (deliver turn msgs)"
    using turn_before acked_mono(1)[of unm _ _ "set (m # msgs)"] by auto
  then show ?case by (simp add: Let_def acked_before_append)
qed simp

lemma consume_before: "acked_before unm (set (messages rs)) (consume turn rs)"
proof (induction rs)
  case (Cons r rs)
  show ?case
  proof (cases r)
    case (ReadMsgs sts)
    have "acked_before unm (set (messages (r # rs))) (deliver turn (concat sts))"
      "acked_before unm (set (messages (r # rs))) (consume turn rs)"
      using ReadMsgs deliver_before[of "concat sts"] Cons by (auto elim!: acked_mono(1))
    then show ?thesis by (simp add: ReadMsgs Let_def acked_before_append)
  qed (use Cons acked_before_append[of unm _ "[Pause n]" for n] in auto)
qed simp

end

locale ack_when_done = stream_consumer +
  assumes turn_after: "acked_after unm {m} (turn m)"
begin

lemma deliver_after: "acked_after unm (set msgs) (deliver turn msgs)"
proof (induction msgs)
  case (Cons m msgs)
  then have "acked_after unm (set (m # msgs)) (turn m)" "acked_after unm (set (m # msgs)) (deliver turn msgs)"
    using turn_after acked_mono(2)[of unm _ _ "set (m # msgs)"] by auto
  then show ?case by (simp add: Let_def acked_after_append)
qed simp

lemma consume_after: "acked_after unm (set (messages rs)) (consume turn rs)"
proof (induction rs)
  case (Cons r rs)
  show ?case
  proof (cases r)
    case (ReadMsgs sts)
    have "acked_after unm (set (messages (r # rs))) (deliver turn (concat sts))"
      "acked_after unm (set (messages (r # rs))) (consume turn rs)"
      using ReadMsgs deliver_after[of "concat sts"] Cons by (auto elim!: acked_mono(2))
    then show ?thesis by (simp add: ReadMsgs Let_def acked_after_append)
  qed (use Cons acked_after_append[of unm _ "[Pause n]" for n] in auto)
qed simp

end

interpretation oc: ack_when_done "orch_turn unm" unm for unm
  by unfold_locales (auto simp: orch_turn_def acks_def acts_def decoded_def acked_after_def Cons_eq_append_conv split: option.split sum.split)

interpretation fc: ack_on_claim "fleet_turn unm" unm for unm
  by unfold_locales (auto simp: fleet_turn_def acks_def acts_def decoded_def acked_before_def Cons_eq_append_conv split: option.split sum.split)

interpretation ic: ack_when_done "ing_turn unm" unm for unm
  by unfold_locales (auto simp: ing_turn_def acks_def acts_def decoded_def acked_after_def Cons_eq_append_conv split: option.split sum.split)

section \<open>When a message is acknowledged\<close>

text \<open>
  (C21) Acknowledging and handling: as long as every message has a text payload, each of the
  three loops acknowledges every message it read, once and in order, also those it cannot
  decode, and handles exactly the decodable ones, in order. The load generator acknowledges a
  message just before it handles it, the orchestrator and the ingester just afterwards.
\<close>

theorem messages_acked_and_handled:
  assumes "None \<notin> msg_payload ` set (messages rs)"
  shows "acks (orch_main uj rs) = map msg_ID (messages rs) \<and> acts (orch_main uj rs) = concat (map (decoded uj) (messages rs)) \<and>
    acks (fleet_main us rs) = map msg_ID (messages rs) \<and> acts (fleet_main us rs) = concat (map (decoded us) (messages rs)) \<and>
    acks (ing_main ub rs) = map msg_ID (messages rs) \<and> acts (ing_main ub rs) = concat (map (decoded ub) (messages rs)) \<and>
    acked_after uj (set (messages rs)) (orch_main uj rs) \<and> acked_before us (set (messages rs)) (fleet_main us rs) \<and>
    acked_after ub (set (messages rs)) (ing_main ub rs)"
  using oc.consume_ok[OF assms] fc.consume_ok[OF assms] ic.consume_ok[OF assms] oc.consume_after fc.consume_before ic.consume_after
  by (simp add: orch_main_def fleet_main_def ing_main_def)

theorem messages_acked_and_handled_witness:
  "acks (orch_main (\<lambda>p. Inl p) [ReadNil, ReadMsgs [[\<lparr>msg_ID = ''1-0'', msg_payload = Some ''{''\<rparr>]], ReadErr ''EOF'']) = [''1-0'']"
  using messages_acked_and_handled[of "[ReadNil, ReadMsgs [[\<lparr>msg_ID = ''1-0'', msg_payload = Some ''{''\<rparr>]], ReadErr ''EOF'']"]
  by simp

end
