(* ===== verification/Services.thy ===== *)
theory Services
  imports Orchestrator Streams Gateway_Properties
begin

text \<open>
  How the services are put together: the configuration \<open>main\<close> of the orchestrator reads from its
  environment, and what follows for a job that the gateway made: its shards, its core, and a
  bound on the number of effects that handling it takes.
\<close>

section \<open>Configuration\<close>

definition env :: "(string \<Rightarrow> string) \<Rightarrow> string \<Rightarrow> string \<Rightarrow> string" where
  "env Getenv k dflt = (let v = Getenv k in if v \<noteq> [] then v else dflt)"

definition orch_config :: "(string \<Rightarrow> string) \<Rightarrow> int \<Rightarrow> orch" where
  "orch_config Getenv NumCPU =
     (let cores0 = ParseInt (env Getenv ''SUB_CORES'' (Itoa NumCPU));
          cores = (if cores0 < 1 then 1 else cores0)
      in \<lparr>o_dataDir = env Getenv ''DATA_DIR'' ''/data/submissions'',
          o_arenaNet = env Getenv ''ARENA_NET'' ''arena-net'',
          o_cpus = env Getenv ''SUB_CPUS'' ''1.0'',
          o_mem = env Getenv ''SUB_MEMORY'' ''512m'',
          o_pids = env Getenv ''SUB_PIDS'' ''256'',
          o_cores = cores,
          o_botsPerShard = 250\<rparr>)"

lemma orch_config_simps [simp]: "o_botsPerShard (orch_config Getenv n) = 250" "0 < o_cores (orch_config Getenv n)"
  by (simp_all add: orch_config_def Let_def)

section \<open>How long a job keeps the orchestrator busy\<close>

lemma perform_length [simp]: "length (tr (perform ans e s)) = Suc (length (tr s))"
  by (simp add: perform_def)

lemma setRun_length [simp]: "length (tr (setRun ans r kv s)) = Suc (length (tr s))"
  by (simp add: setRun_def)

lemma fail_length [simp]: "length (tr (fail ans r msg s)) = Suc (length (tr s))"
  by (simp add: fail_def)

lemma docker_length [simp]: "length (tr (fst (docker ans args s))) = Suc (length (tr s))"
  by (simp add: docker_def)

lemma wait_length:
  "d \<le> clk s + int k * (500 * 10 ^ 6) \<Longrightarrow> length (tr (fst (wait_loop ans target d s))) \<le> length (tr s) + 2 * k"
proof (induction k arbitrary: s)
  case 0
  then show ?case by (subst wait_loop.simps) simp
next
  case (Suc k)
  let ?s1 = "perform ans (Health (target @ ''/health'')) s"
  let ?s2 = "perform ans (Sleep (500 * 10 ^ 6)) ?s1"
  have "clk s + 500 * 10 ^ 6 \<le> clk ?s2"
    using clk_perform[of s "Health (target @ ''/health'')" ans] clk_perform[of ?s1 "Sleep (500 * 10 ^ 6)" ans]
    by (simp add: slept_def)
  then have "d \<le> clk ?s2 + int k * (500 * 10 ^ 6)" using Suc.prems by (simp add: algebra_simps)
  from Suc.IH[OF this] show ?case
    by (subst wait_loop.simps) (simp add: Let_def)
qed

lemma poll_length:
  "d \<le> clk s + int k * (2 * Second) \<Longrightarrow> length (tr (fst (poll_loop ans r d s))) \<le> length (tr s) + 2 * k"
proof (induction k arbitrary: s)
  case 0
  then show ?case by (subst poll_loop.simps) simp
next
  case (Suc k)
  let ?s1 = "perform ans (Sleep (2 * Second)) s"
  let ?s2 = "perform ans (HGetStatus (''run:'' @ r)) ?s1"
  have "clk s + 2 * Second \<le> clk ?s2"
    using clk_perform[of ?s1 "HGetStatus (''run:'' @ r)" ans] clk_perform[of s "Sleep (2 * Second)" ans]
    by (simp add: slept_def Second_def)
  then have "d \<le> clk ?s2 + int k * (2 * Second)" using Suc.prems by (simp add: algebra_simps)
  from Suc.IH[OF this] show ?case
    by (subst poll_loop.simps) (simp add: Let_def)
qed

lemma dispatch_length: "length (tr (dispatch ans job target k s)) = length (tr s) + nat k"
proof -
  have "length (tr (fold (\<lambda>i s. perform ans (f i s) s) xs s)) = length (tr s) + length xs" for f and xs :: "nat list"
    by (induction xs arbitrary: s) simp_all
  then show ?thesis by (simp add: dispatch_def)
qed

lemma load_phase_length:
  assumes "1 \<le> rj_Bots job" "rj_Bots job \<le> 5000" "1 \<le> rj_DurationS job" "rj_DurationS job \<le> 300" "o_botsPerShard c = 250"
  shows "length (tr (load_phase c ans job target s)) \<le> length (tr s) + 442"
proof -
  let ?k = "shard_count (rj_Bots job) 250"
  define s2 where "s2 = dispatch ans job target ?k (setRun ans (rj_RunID job) [(''status'', ''load''), (''total_shards'', Itoa ?k)] s)"
  define d where "d = clk s2 + i64 (i64 (rj_DurationS job * Second) + 2 * Minute)"
  have "?k = \<lceil>of_int (rj_Bots job) / of_int 250 :: real\<rceil>" using assms by (intro shard_count_exact) simp_all
  also have "\<dots> \<le> 20" using assms(2) by (simp add: ceiling_le_iff field_simps)
  finally have k: "nat ?k \<le> 20" by simp
  have "i64 (i64 (rj_DurationS job * Second) + 2 * Minute) = rj_DurationS job * Second + 2 * Minute"
    using assms(3,4) by (simp add: i64_nonneg Second_def Minute_def)
  then have "d \<le> clk s2 + int 210 * (2 * Second)" using assms(4) by (simp add: d_def Second_def Minute_def)
  from poll_length[OF this, of ans "rj_RunID job"] k show ?thesis
    by (simp add: load_phase_def assms(5) Let_def split_beta d_def s2_def dispatch_length)
qed

lemma handle_length:
  assumes "1 \<le> rj_Bots job" "rj_Bots job \<le> 5000" "1 \<le> rj_DurationS job" "rj_DurationS job \<le> 300" "o_botsPerShard c = 250"
  shows "length (tr (handle quote post del w c ans job s)) \<le> length (tr s) + 631"
proof -
  have wait: "length (tr (fst (waitHealthy ans target (45 * Second) s))) \<le> length (tr s) + 180" for target s
    using wait_length[of "clk s + 45 * Second" s 90 ans target] by (simp add: waitHealthy_def Second_def)
  have box: "length (tr (sandboxed quote post del w c ans job name started s)) \<le> length (tr s) + 625" for name started s
    using wait[of "''http://'' @ name @ '':8080''" s] load_phase_length[OF assms]
    by (auto simp: sandboxed_def Let_def split_beta intro: order_trans[OF load_phase_length[OF assms]])
  show ?thesis
    by (auto simp: handle_def teardown_def Let_def split_beta split: option.split intro: order_trans[OF box])
qed

end
