(* ===== verification/Pipeline.thy ===== *)
theory Pipeline
  imports Botfleet Orchestrator Ingester_Properties
begin

text \<open>
  From the bots to the aggregate: the shards the orchestrator dispatched, the batches the load
  generator flushed for them, and the ingester's absorption of any interleaving of the batches
  that keeps the order of each shard. This theory has the lemmas that join the accounting of
  the load generator to that of the ingester.
\<close>

section \<open>What the batches of a shard say\<close>

definition stamped :: "LoadShard \<Rightarrow> TelemetryBatch list \<Rightarrow> bool" where
  "stamped shard bs \<longleftrightarrow> (\<forall>b \<in> set bs. tb_RunID b = ls_RunID shard \<and> tb_Shard b = ls_Shard shard \<and> tb_TotalShards b = ls_TotalShards shard)"

lemma stamped_run: "stamped shard (fs_stream (runShard Log quote post del NewSource shard start w evs))"
proof -
  have step: "stamped shard (fs_stream (fleet_step Log quote post del shard deadline ev f))"
    if "stamped shard (fs_stream f)" for f deadline ev
    using that by (cases ev) (auto simp: fleet_step_def bot_turn_def fleet_flush_def flush_def stamped_def Let_def split_beta)
  have "stamped shard (fs_stream f) \<Longrightarrow> stamped shard (fs_stream (fold (fleet_step Log quote post del shard deadline) evs f))" for f deadline
    by (induction evs arbitrary: f) (simp_all add: step)
  moreover have "stamped shard (fs_stream (fleet_init NewSource shard w))" by (simp add: fleet_init_def stamped_def)
  ultimately show ?thesis unfolding runShard_def by blast
qed

text \<open>What a finished shard owes the ingester.\<close>

definition accounts :: "shardState \<Rightarrow> TelemetryBatch list \<Rightarrow> bool" where
  "accounts st bs \<longleftrightarrow>
     i64 (tally tb_Sent bs) = ss_sent st \<and> i64 (tally tb_Acked bs) = ss_acked st \<and>
     i64 (tally tb_Errors bs) = ss_errors st \<and> i64 (tally tb_Violations bs) = ss_violations st \<and>
     i64 (ss_acked st + ss_errors st) = ss_sent st \<and>
     i64 (tally (\<lambda>d. gsum (tb_Hist d)) bs) = ss_acked st \<and>
     i64 (tally (\<lambda>d. gsum (tb_SecAcks d)) bs) = ss_acked st \<and>
     i64 (tally (\<lambda>d. gsum (tb_SecErrs d)) bs) = ss_errors st"

lemma done_accounts:
  assumes "f = runShard Log quote post del NewSource shard start w evs" "fs_done f"
  shows "accounts (fs_state f) (fs_stream f)" "\<exists>n. map tb_Final (fs_stream f) = replicate n False @ [True]"
proof -
  have "ledger f" unfolding assms(1) by (rule ledger_run)
  then show "accounts (fs_state f) (fs_stream f)" "\<exists>n. map tb_Final (fs_stream f) = replicate n False @ [True]"
    using assms(2) by (auto simp: accounts_def ledger_def balanced_def drained_def)
qed

section \<open>Sums over interleaved batches\<close>

lemma sum_by_shard:
  fixes sel :: "TelemetryBatch \<Rightarrow> int"
  assumes "\<forall>b \<in> set bs. tb_Shard b \<in> int ` {..<n}"
  shows "sum_list (map sel bs) = (\<Sum>i<n. tally sel (filter (\<lambda>b. tb_Shard b = int i) bs))"
  using assms
proof (induction bs)
  case (Cons b bs)
  then obtain k where k: "k < n" "tb_Shard b = int k" by auto
  have "(\<Sum>i<n. tally sel (filter (\<lambda>b. tb_Shard b = int i) (b # bs))) =
      (\<Sum>i<n. (if i = k then sel b else 0) + tally sel (filter (\<lambda>b. tb_Shard b = int i) bs))"
    by (rule sum.cong) (auto simp: k(2) tally_def)
  also have "\<dots> = sel b + (\<Sum>i<n. tally sel (filter (\<lambda>b. tb_Shard b = int i) bs))"
    using k(1) by (simp add: sum.distrib)
  finally show ?case using Cons by simp
qed (simp add: tally_def)

lemma i64_sum: "i64 (\<Sum>i<n. i64 (g i)) = i64 (\<Sum>i<n. g i)" for n :: nat
proof (induction n)
  case (Suc n)
  have "i64 ((\<Sum>i<n. i64 (g i)) + i64 (g n)) = i64 (i64 (\<Sum>i<n. i64 (g i)) + g n)" by simp
  also have "\<dots> = i64 ((\<Sum>i<n. g i) + g n)" unfolding Suc.IH by simp
  finally show ?case by simp
qed simp

lemma i64_sum_cong:
  "(\<And>i. i < n \<Longrightarrow> i64 (g i) = h i) \<Longrightarrow> i64 (\<Sum>i<n. g i) = i64 (\<Sum>i<n. h i)" for n :: nat
  using i64_sum[of g n] sum.cong[OF refl, of "{..<n}" "\<lambda>i. i64 (g i)" h] by simp

lemma gsum_gm_adds: "gm_ok m \<Longrightarrow> i64 (gsum (gm_adds m kvs)) = i64 (gsum m + sum_list (map snd kvs))"
proof (induction kvs arbitrary: m)
  case (Cons kv kvs)
  then have "i64 (gsum (gm_adds (gm_add m (fst kv) (snd kv)) kvs)) = i64 (gsum (gm_add m (fst kv) (snd kv)) + sum_list (map snd kvs))"
    by simp
  also have "\<dots> = i64 (sum_list (map snd kvs) + gsum m + snd kv)"
    using gsum_gm_add[OF Cons.prems, of "sum_list (map snd kvs)" "fst kv" "snd kv"] by (simp add: add.commute)
  finally show ?case by (cases kv) (simp add: algebra_simps)
qed simp

lemma sum_parts: "sum_list (map snd (parts sel bts)) = sum_list (map (\<lambda>b. gsum (sel b)) (map fst bts))"
  by (induction bts) (simp_all add: gsum_def)

section \<open>When the run is complete\<close>

text \<open>The batches of \<open>n\<close> shards, mixed in any way that keeps the order of each shard.\<close>

definition interleaving :: "nat \<Rightarrow> (nat \<Rightarrow> TelemetryBatch list) \<Rightarrow> TelemetryBatch list \<Rightarrow> bool" where
  "interleaving n streams bs \<longleftrightarrow>
     (\<forall>b \<in> set bs. tb_Shard b \<in> int ` {..<n}) \<and> (\<forall>i < n. filter (\<lambda>b. tb_Shard b = int i) bs = streams i)"

definition closing :: "TelemetryBatch list \<Rightarrow> bool" where
  "closing bs \<longleftrightarrow> (\<exists>m. map tb_Final bs = replicate m False @ [True])"

lemma closing_snoc: "closing (bs @ [b]) \<longleftrightarrow> (\<forall>x \<in> set bs. \<not> tb_Final x) \<and> tb_Final b"
proof -
  have "map tb_Final bs = replicate m False \<longleftrightarrow> m = length bs \<and> (\<forall>x \<in> set bs. \<not> tb_Final x)" for m
    by (auto simp: list_eq_iff_nth_eq all_set_conv_all_nth)
  then show ?thesis by (auto simp: closing_def)
qed

abbreviation final_shards :: "TelemetryBatch list \<Rightarrow> int set" where
  "final_shards bs \<equiv> {tb_Shard b |b. b \<in> set bs \<and> tb_Final b}"

lemma final_shards_all:
  assumes "interleaving n streams bs" "\<forall>i < n. closing (streams i)"
  shows "final_shards bs = int ` {..<n}"
proof -
  have "int i \<in> final_shards bs" if i: "i < n" for i
  proof -
    have s: "filter (\<lambda>b. tb_Shard b = int i) bs = streams i" using assms(1) i by (simp add: interleaving_def)
    obtain m where "map tb_Final (streams i) = replicate m False @ [True]" using assms(2)[rule_format, OF i] unfolding closing_def by (rule exE)
    then have "True \<in> set (map tb_Final (streams i))" by simp
    then obtain x where "x \<in> set (streams i)" "tb_Final x" by auto
    then have "x \<in> set bs" "tb_Shard x = int i" "tb_Final x" unfolding s[symmetric] by simp_all
    then show ?thesis by (intro CollectI exI[of _ x]) simp
  qed
  then show ?thesis using assms(1) by (auto simp: interleaving_def)
qed

lemma final_shards_before:
  assumes "interleaving n streams (bs @ b # bs')" "\<forall>i < n. closing (streams i)"
  shows "card (final_shards bs) < n"
proof -
  obtain cs c where cs: "b # bs' = cs @ [c]" by (metis list.distinct(1) rev_exhaust)
  then have il: "interleaving n streams ((bs @ cs) @ [c])" using assms(1) by simp
  then obtain i where i: "i < n" "tb_Shard c = int i" by (auto simp: interleaving_def)
  then have "closing (filter (\<lambda>b. tb_Shard b = int i) (bs @ cs) @ [c])"
    using il assms(2) unfolding interleaving_def by auto
  then have "\<forall>x \<in> set (filter (\<lambda>b. tb_Shard b = int i) (bs @ cs)). \<not> tb_Final x" unfolding closing_snoc by blast
  then have "int i \<notin> final_shards bs" by auto
  moreover have "final_shards bs \<subseteq> int ` {..<n}" using assms(1) by (auto simp: interleaving_def)
  ultimately have "final_shards bs \<subset> int ` {..<n}" using i(1) by blast
  then have "card (final_shards bs) < card (int ` {..<n})" by (intro psubset_card_mono) simp
  then show ?thesis by (simp add: card_image)
qed

lemma final_count: "length (a_finalShards (absorb_all bts new_agg)) = card (final_shards (map fst bts))"
proof -
  have g: "gm_ok (a_finalShards new_agg)" by (simp add: new_agg_def)
  have "card (fst ` set (a_finalShards (absorb_all bts new_agg))) = length (a_finalShards (absorb_all bts new_agg))"
    using absorb_all_shards(1)[OF g, of bts] by (metis distinct_card gm_ok_def length_map set_map)
  then show ?thesis unfolding absorb_all_shards(2)[OF g] by (simp add: new_agg_def)
qed

lemma finalized_iff:
  assumes "\<forall>b \<in> fst ` set bts. tb_TotalShards b = int n" "0 < n"
  shows "a_finalized (absorb_all bts new_agg) \<longleftrightarrow> bts \<noteq> [] \<and> n \<le> card (final_shards (map fst bts))"
proof (cases bts rule: rev_cases)
  case (snoc ys y)
  let ?x = "absorb_all bts new_agg"
  have "a_finalized ?x \<longleftrightarrow> a_totalShards ?x > 0 \<and> int (length (a_finalShards ?x)) \<ge> a_totalShards ?x"
    unfolding absorb_all_def by (simp add: snoc split_beta) (simp add: absorb_agg_def Let_def)
  moreover have "a_totalShards ?x = int n"
    using assms(1) unfolding absorb_all_def by (simp add: snoc split_beta) (simp add: absorb_agg_def Let_def)
  ultimately show ?thesis using assms(2) by (simp add: final_count snoc)
qed (simp add: absorb_all_def new_agg_def)

lemma complete_exactly_at_end:
  assumes "interleaving n streams (map fst bts)" "\<forall>i < n. closing (streams i)" "0 < n"
    "\<forall>b \<in> fst ` set bts. tb_TotalShards b = int n"
  shows "a_finalized (absorb_all bts new_agg)" "k < length bts \<Longrightarrow> \<not> a_finalized (absorb_all (take k bts) new_agg)"
proof -
  have "streams 0 \<noteq> []" using assms(2,3) by (auto simp: closing_def)
  then have "bts \<noteq> []" using assms(1,3) by (auto simp: interleaving_def)
  then show "a_finalized (absorb_all bts new_agg)"
    using finalized_iff[OF assms(4,3)] final_shards_all[OF assms(1,2)] by (simp add: card_image)
  assume k: "k < length bts"
  then have "map fst (take k bts) @ fst (bts ! k) # map fst (drop (Suc k) bts) = map fst bts"
    by (metis id_take_nth_drop list.simps(9) map_append)
  then have "card (final_shards (map fst (take k bts))) < n"
    using final_shards_before[OF _ assms(2), of "map fst (take k bts)" "fst (bts ! k)" "map fst (drop (Suc k) bts)"] assms(1) by simp
  moreover have "\<forall>b \<in> fst ` set (take k bts). tb_TotalShards b = int n" using assms(4) set_take_subset by fastforce
  ultimately show "\<not> a_finalized (absorb_all (take k bts) new_agg)" using finalized_iff[OF _ assms(3)] by simp
qed

section \<open>The ingester on the batches of one run\<close>

text \<open>\<open>absorb\<close> for each batch; what it returns says whether to call \<open>finalize\<close>.\<close>

fun absorb_seq :: "(TelemetryBatch \<times> int) list \<Rightarrow> 'r ingester \<Rightarrow> 'r ingester \<times> (nat \<times> bool) option list" where
  "absorb_seq [] ing = (ing, [])"
| "absorb_seq ((b, t) # bts) ing =
     (case absorb b t ing of (ing1, x) \<Rightarrow> case absorb_seq bts ing1 of (ing2, xs) \<Rightarrow> (ing2, x # xs))"

lemma absorb_seq_append:
  "absorb_seq (xs @ ys) ing =
     (case absorb_seq xs ing of (ing1, as) \<Rightarrow> case absorb_seq ys ing1 of (ing2, bs) \<Rightarrow> (ing2, as @ bs))"
  by (induction xs arbitrary: ing) (auto split: prod.splits)

lemma absorb_seq_run:
  assumes "map_of (i_runs ing) run = None" "\<forall>b \<in> fst ` set bts. tb_RunID b = run"
    "\<forall>k < length bts. \<not> a_finalized (absorb_all (take k bts) new_agg)" "bts \<noteq> []"
  defines "p \<equiv> length (i_heap ing)"
  shows "\<exists>ing'. absorb_seq bts ing =
      (ing', map (\<lambda>k. Some (p, a_finalized (absorb_all (take (Suc k) bts) new_agg))) [0..<length bts]) \<and>
    map_of (i_runs ing') run = Some p \<and> length (i_heap ing') = Suc p \<and> i_heap ing' ! p = absorb_all bts new_agg"
  using assms(2-4)
proof (induction bts rule: rev_induct)
  case (snoc bt bts)
  obtain b t where bt: "bt = (b, t)" by fastforce
  have all: "absorb_all (bts @ [bt]) new_agg = absorb_agg b t (absorb_all bts new_agg)"
    by (simp add: absorb_all_def bt)
  have nf: "\<not> a_finalized (absorb_all bts new_agg)" using snoc.prems(2)[rule_format, of "length bts"] by simp
  show ?case
  proof (cases "bts = []")
    case True
    have "absorb b t ing = (ing\<lparr>i_heap := i_heap ing @ [absorb_agg b t new_agg], i_runs := gm_put (i_runs ing) run p\<rparr>,
        Some (p, a_finalized (absorb_agg b t new_agg)))"
      using snoc.prems(1) nf assms(1) True by (simp add: absorb_def absorb_all_def bt p_def Let_def)
    then show ?thesis using True by (simp add: bt absorb_all_def p_def)
  next
    case False
    have open_k: "\<forall>k < length bts. \<not> a_finalized (absorb_all (take k bts) new_agg)"
    proof (intro allI impI)
      fix k assume "k < length bts"
      then show "\<not> a_finalized (absorb_all (take k bts) new_agg)" using snoc.prems(2)[rule_format, of k] by simp
    qed
    have run: "\<forall>b \<in> fst ` set bts. tb_RunID b = run" using snoc.prems(1) by simp
    obtain ing' where I: "absorb_seq bts ing =
        (ing', map (\<lambda>k. Some (p, a_finalized (absorb_all (take (Suc k) bts) new_agg))) [0..<length bts])"
      "map_of (i_runs ing') run = Some p" "length (i_heap ing') = Suc p" "i_heap ing' ! p = absorb_all bts new_agg"
      using snoc.IH[OF run open_k False] by (elim exE conjE) (rule that)
    have "absorb b t ing' = (ing'\<lparr>i_heap := (i_heap ing')[p := absorb_agg b t (absorb_all bts new_agg)]\<rparr>,
        Some (p, a_finalized (absorb_agg b t (absorb_all bts new_agg))))"
      using I nf snoc.prems(1) by (simp add: absorb_def bt Let_def)
    then show ?thesis
      using I by (simp add: absorb_seq_append bt all[unfolded bt])
  qed
qed simp

section \<open>Totals\<close>

lemma pipeline_total:
  assumes "interleaving n streams (map fst bts)" "\<And>i. i < n \<Longrightarrow> i64 (tally sel (streams i)) = h i"
  shows "i64 (total_of sel bts) = i64 (\<Sum>i<n. h i)"
proof -
  have "total_of sel bts = sum_list (map sel (map fst bts))" by simp
  also have "\<dots> = (\<Sum>i<n. tally sel (filter (\<lambda>b. tb_Shard b = int i) (map fst bts)))"
    using assms(1) by (intro sum_by_shard) (simp add: interleaving_def)
  also have "\<dots> = (\<Sum>i<n. tally sel (streams i))"
    using assms(1) by (intro sum.cong) (auto simp: interleaving_def)
  finally have "total_of sel bts = (\<Sum>i<n. tally sel (streams i))" .
  then show ?thesis using i64_sum_cong[OF assms(2), of n] by (simp only:)
qed

text \<open>The aggregate of the whole run holds what its shards counted.\<close>

lemma pipeline_counters:
  assumes "interleaving n streams (map fst bts)" "\<And>i. i < n \<Longrightarrow> accounts (st i) (streams i)" "bts \<noteq> []"
  defines "agg \<equiv> absorb_all bts new_agg"
  shows "a_sent agg = i64 (\<Sum>i<n. ss_sent (st i))" "a_acked agg = i64 (\<Sum>i<n. ss_acked (st i))"
    "a_errors agg = i64 (\<Sum>i<n. ss_errors (st i))" "a_violations agg = i64 (\<Sum>i<n. ss_violations (st i))"
    "i64 (a_acked agg + a_errors agg) = a_sent agg" "i64 (gsum (a_hist agg)) = a_acked agg"
    "i64 (gsum (a_secAcks agg)) = a_acked agg" "i64 (gsum (a_secErrs agg)) = a_errors agg"
proof -
  note acc = assms(2)[unfolded accounts_def]
  have T: "i64 (total_of sel bts) = i64 (\<Sum>i<n. h i)" if "\<And>i. i < n \<Longrightarrow> i64 (tally sel (streams i)) = h i" for sel h
    using pipeline_total[OF assms(1) that] .
  show sent: "a_sent agg = i64 (\<Sum>i<n. ss_sent (st i))"
    using T[of tb_Sent] acc assms(3) by (simp add: agg_def absorb_all_counters new_agg_def)
  show acked: "a_acked agg = i64 (\<Sum>i<n. ss_acked (st i))"
    using T[of tb_Acked] acc assms(3) by (simp add: agg_def absorb_all_counters new_agg_def)
  show errors: "a_errors agg = i64 (\<Sum>i<n. ss_errors (st i))"
    using T[of tb_Errors] acc assms(3) by (simp add: agg_def absorb_all_counters new_agg_def)
  show "a_violations agg = i64 (\<Sum>i<n. ss_violations (st i))"
    using T[of tb_Violations] acc assms(3) by (simp add: agg_def absorb_all_counters new_agg_def)
  have "i64 (\<Sum>i<n. ss_acked (st i) + ss_errors (st i)) = i64 (\<Sum>i<n. ss_sent (st i))"
    by (rule i64_sum_cong) (use acc in simp)
  then show "i64 (a_acked agg + a_errors agg) = a_sent agg" unfolding sent acked errors by (simp add: sum.distrib)
  have empty: "a_hist agg = gm_adds [] (parts tb_Hist bts)" "a_secAcks agg = gm_adds [] (parts tb_SecAcks bts)"
    "a_secErrs agg = gm_adds [] (parts tb_SecErrs bts)"
    unfolding agg_def absorb_all_maps by (simp_all add: new_agg_def)
  have maps: "i64 (gsum (gm_adds [] (parts sel bts))) = i64 (total_of (\<lambda>b. gsum (sel b)) bts)"
    for sel :: "TelemetryBatch \<Rightarrow> (int, int) gomap"
    using gsum_gm_adds[of "[]" "parts sel bts"] sum_parts[of sel bts] by (simp add: comp_def)
  show "i64 (gsum (a_hist agg)) = a_acked agg"
    unfolding empty(1) maps acked by (rule T) (use acc in simp)
  show "i64 (gsum (a_secAcks agg)) = a_acked agg"
    unfolding empty(2) maps acked by (rule T) (use acc in simp)
  show "i64 (gsum (a_secErrs agg)) = a_errors agg"
    unfolding empty(3) maps errors by (rule T) (use acc in simp)
qed

text \<open>Every interleaved batch carries the run and the number of shards of the job.\<close>

lemma interleaved_stamp:
  assumes "partition_ok job per ls" "interleaving (length ls) streams (map fst bts)"
    "\<And>i. i < length ls \<Longrightarrow> stamped (ls ! i) (streams i)" "b \<in> fst ` set bts"
  shows "tb_RunID b = rj_RunID job \<and> tb_TotalShards b = int (length ls)"
proof -
  have b: "b \<in> set (map fst bts)" using assms(4) by simp
  with assms(2) obtain i where i: "i < length ls" "tb_Shard b = int i" unfolding interleaving_def by blast
  have "b \<in> set (filter (\<lambda>b. tb_Shard b = int i) (map fst bts))" using b i(2) by simp
  then have "b \<in> set (streams i)" using assms(2) i(1) unfolding interleaving_def by metis
  then show ?thesis using assms(1) assms(3)[OF i(1)] nth_mem[OF i(1)] by (simp add: stamped_def partition_ok_def)
qed

lemma verdict_flags:
  assumes "bts \<noteq> []" "a_finalized (absorb_all bts new_agg)"
    "\<And>k. k < length bts \<Longrightarrow> \<not> a_finalized (absorb_all (take k bts) new_agg)"
  shows "map (\<lambda>k. Some (p, a_finalized (absorb_all (take (Suc k) bts) new_agg))) [0..<length bts] =
    replicate (length bts - 1) (Some (p, False)) @ [Some (p, True)]"
proof -
  obtain m where m: "length bts = Suc m" using assms(1) by (cases bts) auto
  have "take (Suc m) bts = bts" by (simp flip: m)
  moreover have "map (\<lambda>k. Some (p, a_finalized (absorb_all (take (Suc k) bts) new_agg))) [0..<m] = replicate m (Some (p, False))"
    using assms(3) by (intro nth_equalityI) (simp_all add: m)
  ultimately show ?thesis using assms(2) by (simp add: m)
qed

section \<open>The conformance score as text\<close>

lemma four_digits:
  assumes "0 \<le> x" "x \<le> 1"
  shows "\<bar>ParseFloat (fmt_f 4 x) - x\<bar> \<le> 1 / 10000" "0 \<le> ParseFloat (fmt_f 4 x)" "ParseFloat (fmt_f 4 x) \<le> 1"
proof -
  define z where "z = real_of_int (round_even (x * 10 ^ 4)) / 10 ^ 4"
  have p: "ParseFloat (fmt_f 4 x) = fl z" unfolding z_def by (rule ParseFloat_fmt_f[OF assms(1)])
  have r: "0 \<le> round_even (x * 10 ^ 4)" "round_even (x * 10 ^ 4) \<le> 10000"
    using assms by (auto intro!: round_even_ge round_even_le)
  then have z: "0 \<le> z" "z \<le> 1" by (simp_all add: z_def)
  have "\<bar>real_of_int (round_even (x * 10 ^ 4)) - x * 10 ^ 4\<bar> \<le> 1 / 2" by (rule round_even_err)
  then have zx: "\<bar>z - x\<bar> \<le> 1 / 20000" by (simp add: z_def field_simps abs_le_iff)
  have "\<bar>fl z - z\<bar> \<le> z / 2 ^ 53" using z fl_err_pos[of z] by (cases "z = 0") auto
  also have "\<dots> \<le> 1 / 20000" using z by simp
  finally show "\<bar>ParseFloat (fmt_f 4 x) - x\<bar> \<le> 1 / 10000" using zx unfolding p by linarith
  show "0 \<le> ParseFloat (fmt_f 4 x)" unfolding p by (rule fl_nonneg[OF z(1)])
  show "ParseFloat (fmt_f 4 x) \<le> 1" unfolding p using fl_mono[OF z(2)] by simp
qed

lemma conformance_text:
  fixes post :: "'w post"
  assumes "x = fst (conformance quote post del w)"
  shows "ParseFloat (fmt_f 4 x) = 1 \<longleftrightarrow> agrees post del New w scenario" "0 \<le> x" "x \<le> 1"
proof -
  have b: "fl (29 / 30) \<le> 9667 / 10000" "fl (9667 / 10000) < 1" by code_simp+
  note V = conformance_value[of post del w quote, folded assms]
  show x: "0 \<le> x" "x \<le> 1" using V b(1) assms by (auto split: if_splits)
  show "ParseFloat (fmt_f 4 x) = 1 \<longleftrightarrow> agrees post del New w scenario"
  proof (cases "agrees post del New w scenario")
    case True
    then have "x = 1" using V assms by simp
    then show ?thesis using True ParseFloat_fmt_f[of 1 4] round_even_of_int[of 10000] by simp
  next
    case False
    then have "round_even (x * 10 ^ 4) \<le> 9667" using V b(1) by (intro round_even_le) simp
    then have "fl (of_int (round_even (x * 10 ^ 4)) / 10 ^ 4) \<le> fl (9667 / 10000)" by (intro fl_mono) simp
    with False b(2) show ?thesis unfolding ParseFloat_fmt_f[OF x(1)] by linarith
  qed
qed

section \<open>Two interleavings of the same batches\<close>

lemma mset_by_shard:
  "\<forall>b \<in> set bs. tb_Shard b \<in> int ` {..<n} \<Longrightarrow> mset bs = (\<Sum>i<n. mset (filter (\<lambda>b. tb_Shard b = int i) bs))"
proof (induction bs)
  case (Cons b bs)
  then obtain k where k: "k < n" "tb_Shard b = int k" by auto
  have "(\<Sum>i<n. mset (filter (\<lambda>b. tb_Shard b = int i) (b # bs))) =
      (\<Sum>i<n. (if i = k then {#b#} else {#}) + mset (filter (\<lambda>b. tb_Shard b = int i) bs))"
    by (rule sum.cong) (auto simp: k(2))
  also have "\<dots> = {#b#} + (\<Sum>i<n. mset (filter (\<lambda>b. tb_Shard b = int i) bs))"
    using k(1) by (simp add: sum.distrib)
  finally show ?case using Cons by simp
qed simp

lemma interleaving_mem:
  assumes "interleaving n streams bs" "b \<in> set bs"
  shows "\<exists>i < n. b \<in> set (streams i)"
proof -
  obtain i where i: "i < n" "tb_Shard b = int i" using assms unfolding interleaving_def by blast
  then have "b \<in> set (filter (\<lambda>b. tb_Shard b = int i) bs)" using assms(2) by simp
  then show ?thesis using assms(1) i(1) unfolding interleaving_def by metis
qed

lemma interleaving_mset:
  assumes "interleaving n streams bs" "interleaving n streams bs'"
  shows "mset bs = mset bs'"
proof -
  have "mset xs = (\<Sum>i<n. mset (streams i))" if "interleaving n streams xs" for xs
  proof -
    have "mset xs = (\<Sum>i<n. mset (filter (\<lambda>b. tb_Shard b = int i) xs))"
      using that by (intro mset_by_shard) (simp add: interleaving_def)
    also have "\<dots> = (\<Sum>i<n. mset (streams i))" using that by (intro sum.cong refl) (simp add: interleaving_def del: mset_filter)
    finally show ?thesis .
  qed
  then show ?thesis using assms by metis
qed

text \<open>What \<open>absorb\<close> makes of a whole run, batch by batch and with its guard.\<close>

lemma absorb_whole_run:
  assumes "interleaving n streams (map fst bts)" "\<forall>i < n. closing (streams i)" "0 < n"
    "\<forall>b \<in> fst ` set bts. tb_TotalShards b = int n" "\<forall>b \<in> fst ` set bts. tb_RunID b = run" "map_of (i_runs ing) run = None"
  obtains ing' where
    "absorb_seq bts ing = (ing', replicate (length bts - 1) (Some (length (i_heap ing), False)) @ [Some (length (i_heap ing), True)])"
    "map_of (i_runs ing') run = Some (length (i_heap ing))" "i_heap ing' ! length (i_heap ing) = absorb_all bts new_agg" "bts \<noteq> []"
proof -
  note fin = complete_exactly_at_end[OF assms(1-4)]
  have ne: "bts \<noteq> []" using fin(1) by (auto simp: absorb_all_def new_agg_def)
  have prefixes: "\<forall>k < length bts. \<not> a_finalized (absorb_all (take k bts) new_agg)" using fin(2) by blast
  have flags: "map (\<lambda>k. Some (p, a_finalized (absorb_all (take (Suc k) bts) new_agg))) [0..<length bts] =
      replicate (length bts - 1) (Some (p, False)) @ [Some (p, True)]" for p :: nat
    by (rule verdict_flags[OF ne fin])
  show thesis
    using absorb_seq_run[OF assms(6,5) prefixes ne] ne unfolding flags by (elim exE conjE) (rule that)
qed

lemma absorb_rdb: "i_rdb (fst (absorb b t ing)) = i_rdb ing"
  by (simp add: absorb_def Let_def split_beta split: option.split)

lemma absorb_seq_rdb: "i_rdb (fst (absorb_seq bts ing)) = i_rdb ing"
proof (induction bts arbitrary: ing)
  case (Cons bt bts)
  then show ?case using absorb_rdb[of "fst bt" "snd bt" ing] by (cases bt) (simp add: split_beta)
qed simp

section \<open>An engine that never answers\<close>

definition mute :: "shardState \<Rightarrow> bool" where
  "mute st \<longleftrightarrow> counts (ss_hist st) = [] \<and> ss_secAcks st = [] \<and> ss_acked st = 0"

definition mute_fleet :: "'w fleet \<Rightarrow> bool" where
  "mute_fleet f \<longleftrightarrow> mute (fs_state f) \<and> (\<forall>b \<in> set (fs_stream f). tb_Hist b = [] \<and> tb_SecAcks b = [])"

lemma mute_send:
  assumes "mute st" "\<exists>e. snd (Do w) = TransportError e"
  shows "mute (fst (send Log tm Do st w))"
  using assms by (auto simp: send_def Let_def mute_def tickErr_def split_beta)

lemma mute_turn:
  assumes "\<And>w od. \<exists>e. snd (post w od) = TransportError e" "\<And>w i. \<exists>e. snd (del w i) = TransportError e" "mute_fleet f"
  shows "mute_fleet (bot_turn Log quote post del shard deadline f i tm)"
proof -
  have "mute (fst (bot_iter Log quote post del shard (int i) tm (fs_state f) (fs_world f) (fs_bots f ! i)))"
  proof (rule bot_iter_preserves[where P = mute])
    show "mute (fst (send Log tm (\<lambda>w. post w od) st w))" if "mute st" for od st w
      by (rule mute_send[where Do = "\<lambda>w. post w od", OF that assms(1)])
    show "mute (fst (send Log tm (\<lambda>w. del w i) st w))" if "mute st" for i st w
      by (rule mute_send[where Do = "\<lambda>w. del w i", OF that assms(2)])
    show "mute (violate st v)" if "mute st" for st v using that by (simp add: mute_def violate_def Let_def)
    show "mute (fs_state f)" using assms(3) by (simp add: mute_fleet_def)
  qed
  then show ?thesis using assms(3) by (simp add: bot_turn_def mute_fleet_def Let_def split_beta)
qed

lemma mute_flush: "mute_fleet f \<Longrightarrow> mute_fleet (fleet_flush shard final f)"
  by (auto simp: mute_fleet_def mute_def fleet_flush_def flush_def TakeDelta_def Let_def)

lemma mute_run:
  assumes "\<And>w od. \<exists>e. snd (post w od) = TransportError e" "\<And>w i. \<exists>e. snd (del w i) = TransportError e"
  shows "mute_fleet (runShard Log quote post del NewSource shard start w evs)"
proof -
  have done_cong: "mute_fleet (f\<lparr>fs_done := True\<rparr>) = mute_fleet f" for f :: "'a fleet" by (simp add: mute_fleet_def)
  have step: "mute_fleet (fleet_step Log quote post del shard deadline ev f)" if "mute_fleet f" for deadline ev f
    using that mute_turn[OF assms that] mute_flush[OF that] by (cases ev) (simp_all add: fleet_step_def done_cong)
  have "mute_fleet f \<Longrightarrow> mute_fleet (fold (fleet_step Log quote post del shard deadline) evs f)" for f deadline
    by (induction evs arbitrary: f) (simp_all add: step)
  moreover have "mute_fleet (fleet_init NewSource shard w)"
    by (simp add: mute_fleet_def mute_def fleet_init_def new_state_def NewHist_def)
  ultimately show ?thesis unfolding runShard_def by blast
qed

lemma compute_mute:
  assumes "a_hist agg = []" "a_secAcks agg = []" "a_acked agg = 0"
  shows "p99 (compute powf agg) = 0" "tps (compute powf agg) = 0" "correctness (compute powf agg) = 0"
  using assms by (simp_all add: compute_def Quantile_def quantile_total_def)

lemma absorb_all_mute:
  assumes "\<forall>b \<in> fst ` set bts. tb_Hist b = [] \<and> tb_SecAcks b = []"
  shows "a_hist (absorb_all bts new_agg) = []" "a_secAcks (absorb_all bts new_agg) = []"
proof -
  have e: "parts tb_Hist bts = []" "parts tb_SecAcks bts = []" using assms by auto
  show "a_hist (absorb_all bts new_agg) = []" "a_secAcks (absorb_all bts new_agg) = []"
    unfolding absorb_all_maps e by (simp_all add: new_agg_def)
qed

end
