(* ===== verification/Spec2Isabelle.thy ===== *)
theory Spec2Isabelle
  imports Book_Properties Score Telemetry RefEngine Conformance Botfleet Orchestrator Ingester_Schedules
    Gateway_Properties Hub Streams Services Pipeline
begin

text \<open>
  A verification of the trading-engine arena: a platform that accepts order-matching engines,
  runs each in a sandbox, checks it against a reference book, loads it with bots, and ranks it.

  \<^bold>\<open>The program.\<close> Contestants upload a bundle to the \<^emph>\<open>gateway\<close> (\<open>cmd/gateway\<close>) and request
  runs. A run is a job on a Redis stream. The \<^emph>\<open>orchestrator\<close> (\<open>cmd/orchestrator\<close>) builds and
  starts the engine, probes it against the reference book (\<open>internal/matching\<close>), puts load
  shards on a second stream, and waits for the verdict. The \<^emph>\<open>load generator\<close>
  (\<open>cmd/botfleet\<close>) runs the bots of a shard, validates every answer and flushes telemetry
  batches (\<open>internal/telemetry\<close>) to a third stream. The \<^emph>\<open>ingester\<close> (\<open>cmd/ingester\<close>) merges
  the batches of a run, computes its metrics and score (\<open>internal/score\<close>), keeps the leaderboard
  and publishes it; the gateway relays it to WebSocket clients.
  \<open>examples/reference-engine\<close> is an engine that keeps the contract. The messages between the
  services are the types of \<open>internal/protocol\<close>.

  \<^bold>\<open>Library.\<close> \<open>Prelude\<close>: signed 64-bit wrap-around and Go maps. \<open>GoFloat\<close>: binary64 rounding as a
  function on the reals, with the exponent range left unbounded. \<open>GoStrings\<close>, \<open>GoFormat\<close>,
  \<open>GoRand\<close>: the parts of the string, formatting and random number libraries that the services
  use. \<open>Redis\<close>: the commands as a record of parameters, their documented behaviour
  \<open>redis_ok\<close>, and a server in memory that satisfies it.

  \<^bold>\<open>The reference book\<close> (\<open>internal/matching/book.go\<close>). \<open>Protocol\<close> and \<open>Matching\<close> translate the
  types and \<open>Submit\<close>, \<open>Cancel\<close> and their helpers; resting orders are shared by the id index and
  the levels, so they live in a heap. \<open>Priority_Book\<close> is the abstract specification: two lists of
  resting orders in price-time order. \<open>Contract\<close> states what any engine promises as the locale
  \<open>price_time_engine\<close> and derives from it conservation, soundness of acknowledgements and the
  absence of crossed books; \<open>Book_Refinement\<close> proves that the heap representation simulates
  the specification and interprets the locale; \<open>Book_Properties\<close> states the results.

  \<^bold>\<open>The example engine\<close> (\<open>RefEngine\<close>, \<open>examples/reference-engine/main.go\<close>): the same contract,
  interpreted a second time, hence equal answers; the HTTP handlers, the chaos knob and the top
  of the book.

  \<^bold>\<open>Measuring.\<close> \<open>Telemetry\<close> (\<open>internal/telemetry/hist.go\<close>): histogram, delta, merge, quantile;
  the quantile is the nearest rank of the recorded samples, also after merging. \<open>Score\<close>
  (\<open>internal/score/score.go\<close>): bounds and monotonicity under rounding, for any \<open>math.Log10\<close>
  that is zero at one, monotone from there on, and separates the constants of the formula.

  \<^bold>\<open>The orchestrator\<close> (\<open>cmd/orchestrator/main.go\<close>). \<open>Conformance\<close>: the probe, and that a full score is
  exactly agreement with the reference book. \<open>Orchestrator\<close>: \<open>handle\<close> as a function from the
  answers of docker, Redis, the engine and the clock to the trace of effects; the container is
  always removed, the statuses follow the life cycle, and the shards split the job. The two
  waiting loops terminate because each turn sleeps; no fuel is used.

  \<^bold>\<open>The load generator\<close> (\<open>Botfleet\<close>, \<open>cmd/botfleet/main.go\<close>): the bots, the validator and the
  accounting, with the goroutines of a shard as any interleaving of their turns. An engine of
  the contract is never accused, also when messages are lost; the batches account for every
  request.

  \<^bold>\<open>The ingester\<close> (\<open>cmd/ingester/main.go\<close>). \<open>Ingester\<close>: absorbing, metrics, verdicts, the snapshot
  and the archive, and the consumer and the sweeper as a step relation over shared
  aggregates, with a verdict split at its comparison with the leaderboard.
  \<open>Ingester_Properties\<close>: no aggregate is judged twice, used after its deletion or changed after
  its verdict, and a verdict keeps the best score. \<open>Ingester_Schedules\<close>: a silent run gets its
  verdict; two schedules in which overlapping or late work spoils a result; and a state in
  which the sweeper's unlocked lookup meets a write of the table.

  \<^bold>\<open>The gateway\<close> (\<open>cmd/gateway/main.go\<close>). \<open>Gateway\<close> and \<open>Gateway_Properties\<close>: the handlers; what an
  upload and a run request leave behind on every path. \<open>Hub\<close>: the WebSocket fan-out as a step
  relation; clients are in step with the publications, except for what was published while
  they were joining.

  \<^bold>\<open>Between the services.\<close> \<open>Streams\<close>: the three consumer loops, with the locales \<open>stream_consumer\<close>,
  \<open>ack_on_claim\<close> and \<open>ack_when_done\<close> for their bodies. \<open>Services\<close>: the configuration and a bound on
  the work for a job. \<open>Pipeline\<close>: the batches of all shards of a run meet in the ingester. The
  theorems of this theory compose the services: from the request to the shards, from the bots
  to the aggregate and the verdict, whatever the interleaving of the shards, and from the probe
  to the score. Delivery of every batch that was issued is a hypothesis of these theorems.

  \<^bold>\<open>Parameters.\<close> Redis, docker, the database, the engine under test, the clock, the scheduler,
  randomness, JSON and multipart codecs, and the transcendental functions of \<open>math\<close> are
  arguments of the definitions; what a theorem needs of them is among its hypotheses. A finite
  run of a loop that serves for ever is a finite sequence of events; every theorem holds for
  all such sequences.

  \<^bold>\<open>Not modelled.\<close> The web page, the deployment files and scripts (no logic of the benchmark); the
  Python example engine (another language, a contestant); the HTTP and WebSocket protocols,
  the routing table and the static file server of the gateway; log lines, except the one that
  announces a verdict; float64 overflow, underflow, infinities and NaN, which the quantities
  here do not reach; the refusal of a telemetry batch by \<open>XADD\<close>, which the load generator only
  logs (\<open>fs_stream\<close> is what it issued); the error of \<open>http.NewRequest\<close>, which the targets the
  orchestrator makes do not cause; data races. There are two of those in the ingester: it reads
  counters of an aggregate outside its mutex when it writes a live result, and the sweeper
  reads the table \<open>ing.runs\<close> outside it when it calls \<open>finalize\<close>, which the model takes as one step
  although the Go runtime may abort the process when the consumer writes the table meanwhile.
\<close>

section \<open>From the upload to the load\<close>

text \<open>
  (C7) A job of the gateway is handled in bounded time and its load is complete: a request for
  a known submission puts one job on the stream; the orchestrator's loop decodes it, handles
  it and acknowledges it; whatever docker, Redis, the engine and the clock answer, handling
  it ends after at most 631 effects (a probe of the engine counts as one), is pinned to a core
  that exists, and offers either no load or shards that split the bots exactly, at most 250
  each. No assumption on the request is needed: the gateway's defaults and limits imply those
  of the orchestrator's arithmetic.
\<close>

theorem gateway_job_handled:
  assumes "Decode d body = Inr req" "EXISTS (g_rdb d) (st_db s) (''submission:'' @ SubmissionID req) \<noteq> 0"
    "unm (MarshalJob d job) = Inr job" "job = job_of (rid rnd) (run_limits req)"
    "c = orch_config Getenv NumCPU" "t = run_trace quote post del w c ans job t0"
  shows "(\<exists>r. st_db (fst (createRun d rnd now body s)) = fst (XADD (g_rdb d) r ''runs.jobs'' (MarshalJob d job))) \<and>
    orch_main unm [ReadMsgs [[\<lparr>msg_ID = i, msg_payload = Some (MarshalJob d job)\<rparr>]]] = [Act job, XAck i] \<and>
    length t \<le> 631 \<and>
    (\<exists>k. 0 \<le> k \<and> k < o_cores c \<and> pinCore (rj_SubmissionID job) (o_cores c) = Itoa k) \<and>
    (if ''load'' \<in> set (status_writes t) then partition_ok job 250 (loads t) else loads t = [])"
proof -
  have ok: "1 \<le> rj_Bots job" "rj_Bots job \<le> 5000" "1 \<le> rj_DurationS job" "rj_DurationS job \<le> 300" "0 \<le> rj_MaxRPS job"
    using job_of_ok[of "rid rnd" req] by (simp_all add: assms(4) job_ok_def maxBots_def maxDuration_def)
  have c: "o_botsPerShard c = 250" "0 < o_cores c" by (simp_all add: assms(5))
  have "st_db (fst (createRun d rnd now body s)) = fst (XADD (g_rdb d)
      (LTRIM (g_rdb d) (LPUSH (g_rdb d) (HSET (g_rdb d) (st_db s) (''run:'' @ rj_RunID job) (run_fields job now)) ''runs.index'' (rj_RunID job))
        ''runs.index'' 0 99) ''runs.jobs'' (MarshalJob d job))"
    unfolding createRun_def assms(1) sum.case if_not_P[OF assms(2)] Let_def assms(4)[symmetric] split_beta by simp
  moreover have "orch_main unm [ReadMsgs [[\<lparr>msg_ID = i, msg_payload = Some (MarshalJob d job)\<rparr>]]] = [Act job, XAck i]"
    by (simp add: orch_main_def orch_turn_def assms(3))
  moreover have "length t \<le> 631"
    using handle_length[OF ok(1-4) c(1), of quote post del w ans "\<lparr>tr = [], clk = t0\<rparr>"] by (simp add: assms(6) run_trace_def)
  moreover have "if ''load'' \<in> set (status_writes t) then partition_ok job (o_botsPerShard c) (loads t) else loads t = []"
    by (rule run_loads_partition[OF _ _ _ _ ok(5) assms(6)]) (use ok c in simp_all)
  ultimately show ?thesis using pinCore_in_range[OF c(2)] unfolding c(1) by blast
qed

theorem gateway_job_handled_witness:
  "\<exists>job. rj_Bots job = 5000 \<and> length (run_trace id (\<lambda>w od. (w, TransportError ''EOF'')) (\<lambda>w i. (w, TransportError ''EOF'')) ()
     (orch_config (\<lambda>k. []) 8) demo_answers job 0) \<le> 631"
proof -
  define req where "req = \<lparr>SubmissionID = ''s1'', Bots = 9000, DurationS = 0, MaxRPS = 10\<rparr>"
  define job where "job = job_of (rid ''abcdef'') (run_limits req)"
  have h: "Decode demo_gdeps ''body'' = Inr req" by (simp add: demo_gdeps_def req_def)
  have e: "EXISTS (g_rdb demo_gdeps) (st_db demo_store) (''submission:'' @ SubmissionID req) \<noteq> 0"
    by (simp add: demo_gdeps_def demo_store_def mem_def req_def)
  have "rj_Bots job = 5000" by (simp add: job_def job_of_def run_limits_def req_def maxBots_def)
  moreover have "length (run_trace id (\<lambda>w od. (w, TransportError ''EOF'')) (\<lambda>w i. (w, TransportError ''EOF'')) ()
     (orch_config (\<lambda>k. []) 8) demo_answers job 0) \<le> 631"
    by (rule gateway_job_handled[OF h e, of "\<lambda>p. Inr job", OF refl job_def refl refl, THEN conjunct2, THEN conjunct2, THEN conjunct1])
  ultimately show ?thesis by blast
qed

section \<open>From the bots to the verdict\<close>

text \<open>
  (C4) The aggregate of a run is the sum of its shards, and the run is judged at the right
  moment: take any job, the shards it was split into, any run of each shard to its end against
  any engine, and any interleaving of their batches that keeps the order of each shard. The
  ingester calls the run complete on the last batch and on no earlier one; its counters are
  then the sums of the shards' counters (modulo \<open>2^64\<close>, as everywhere), every request is counted
  as acknowledged or as an error, and the histogram and the per-second maps have an entry for
  every one of them.
\<close>

theorem telemetry_pipeline_exact:
  assumes "partition_ok job per ls" "ls \<noteq> []"
    "\<And>i. i < length ls \<Longrightarrow> f i = runShard Log quote post del NewSource (ls ! i) (start i) (w i) (evs i)"
    "\<And>i. i < length ls \<Longrightarrow> fs_done (f i)"
    "interleaving (length ls) (\<lambda>i. fs_stream (f i)) (map fst bts)"
    "map_of (i_runs ing) (rj_RunID job) = None"
  shows "\<exists>ing' p agg.
    absorb_seq bts ing = (ing', replicate (length bts - 1) (Some (p, False)) @ [Some (p, True)]) \<and>
    map_of (i_runs ing') (rj_RunID job) = Some p \<and> i_heap ing' ! p = agg \<and>
    a_sent agg = i64 (\<Sum>i<length ls. ss_sent (fs_state (f i))) \<and>
    a_acked agg = i64 (\<Sum>i<length ls. ss_acked (fs_state (f i))) \<and>
    a_errors agg = i64 (\<Sum>i<length ls. ss_errors (fs_state (f i))) \<and>
    a_violations agg = i64 (\<Sum>i<length ls. ss_violations (fs_state (f i))) \<and>
    i64 (a_acked agg + a_errors agg) = a_sent agg \<and> i64 (gsum (a_hist agg)) = a_acked agg \<and>
    i64 (gsum (a_secAcks agg)) = a_acked agg \<and> i64 (gsum (a_secErrs agg)) = a_errors agg"
proof -
  let ?n = "length ls" and ?streams = "\<lambda>i. fs_stream (f i)" and ?agg = "absorb_all bts new_agg"
  note il = assms(5)
  have n: "0 < ?n" using assms(2) by simp
  have acc: "accounts (fs_state (f i)) (?streams i)" "closing (?streams i)" if "i < ?n" for i
    using done_accounts[OF assms(3)[OF that] assms(4)[OF that]] by (simp_all add: closing_def)
  have stamps: "tb_RunID b = rj_RunID job \<and> tb_TotalShards b = int ?n" if "b \<in> fst ` set bts" for b
    by (rule interleaved_stamp[OF assms(1) il _ that]) (simp add: assms(3) stamped_run)
  have parts: "\<forall>i < ?n. closing (?streams i)" "\<forall>b \<in> fst ` set bts. tb_TotalShards b = int ?n"
    "\<forall>b \<in> fst ` set bts. tb_RunID b = rj_RunID job" using acc(2) stamps by blast+
  obtain ing' where I: "absorb_seq bts ing =
      (ing', replicate (length bts - 1) (Some (length (i_heap ing), False)) @ [Some (length (i_heap ing), True)])"
    "map_of (i_runs ing') (rj_RunID job) = Some (length (i_heap ing))" "i_heap ing' ! length (i_heap ing) = ?agg" "bts \<noteq> []"
    by (rule absorb_whole_run[OF il parts(1) n parts(2,3) assms(6)])
  with pipeline_counters[OF il acc(1) I(4)] show ?thesis
    by (intro exI[of _ ing'] exI[of _ "length (i_heap ing)"] exI[of _ ?agg]) (simp only: simp_thms)
qed

definition demo_small_job :: RunJob where
  "demo_small_job = \<lparr>rj_RunID = ''r1'', rj_SubmissionID = ''s1'', rj_Bots = 1, rj_DurationS = 60, rj_MaxRPS = 100\<rparr>"

theorem telemetry_pipeline_exact_witness:
  "\<exists>ing' p agg. absorb_seq (map (\<lambda>b. (b, 5)) (fs_stream demo_finished)) (ing_init mem_empty) =
      (ing', [Some (p, False), Some (p, True)]) \<and>
    i_heap ing' ! p = agg \<and> a_sent agg = i64 (ss_sent (fs_state demo_finished))"
proof -
  let ?l = "demo_shard\<lparr>ls_Bots := 1\<rparr>" and ?bts = "map (\<lambda>b. (b, 5)) (fs_stream demo_finished)"
  have p: "partition_ok demo_small_job 250 [?l]" by (simp add: partition_ok_def demo_small_job_def demo_shard_def)
  note d = demo_finished_done
  have "stamped ?l (fs_stream demo_finished)" unfolding demo_finished_def by (rule stamped_run)
  then have b: "\<forall>b \<in> set (fs_stream demo_finished). tb_Shard b = 0" by (simp add: stamped_def demo_shard_def)
  then have il: "interleaving (length [?l]) (\<lambda>i. fs_stream demo_finished) (map fst ?bts)"
    by (simp add: interleaving_def comp_def)
  have new: "map_of (i_runs (ing_init mem_empty)) (rj_RunID demo_small_job) = None" by (simp add: ing_init_def)
  have f: "(\<lambda>i. demo_finished) i = runShard ln id (lossy_post (\<lambda>k. Delivered) int e_submit) (lossy_delete (\<lambda>k. Delivered) int e_cancel)
     (\<lambda>seed. \<lparr>ints = \<lambda>k. k, floats = \<lambda>k. 1 / 2, pos = 0\<rparr>) ([?l] ! i) 0 (newBook, 0)
     [BotTurn 0 demo_timing, Tick, BotTurn 0 (demo_timing\<lparr>t_test := 10 ^ 12\<rparr>), Done]" if "i < length [?l]" for i
    using that by (simp add: demo_finished_def)
  show ?thesis
    using telemetry_pipeline_exact[OF p _ f _ il new] d by (auto simp: numeral_2_eq_2)
qed

text \<open>
  (C15) The verdict does not depend on how the shards' batches are interleaved: for two deliveries
  of the batches of a run that keep the order of each shard, as the stream does, and at
  whatever times, \<open>absorb\<close> (with its guard against finalized runs) calls the run complete on the
  last batch of either, and the aggregates give the same metrics, the same counters and the
  same score. The order within a shard does matter: a shard's final batch must be its last.
\<close>

theorem ingest_order_independent:
  assumes "interleaving n streams (map fst bts)" "interleaving n streams (map fst bts')"
    "\<forall>i < n. closing (streams i)" "0 < n"
    "\<forall>i < n. \<forall>b \<in> set (streams i). tb_TotalShards b = int n \<and> tb_RunID b = run"
    "map_of (i_runs ing) run = None"
  shows "\<exists>x y p.
    absorb_seq bts ing = (x, replicate (length bts - 1) (Some (p, False)) @ [Some (p, True)]) \<and>
    absorb_seq bts' ing = (y, replicate (length bts' - 1) (Some (p, False)) @ [Some (p, True)]) \<and>
    compute powf (i_heap x ! p) = compute powf (i_heap y ! p) \<and>
    a_sent (i_heap x ! p) = a_sent (i_heap y ! p) \<and> a_acked (i_heap x ! p) = a_acked (i_heap y ! p) \<and>
    a_errors (i_heap x ! p) = a_errors (i_heap y ! p) \<and> a_violations (i_heap x ! p) = a_violations (i_heap y ! p) \<and>
    v_score (snd (finalize_read d run p now x)) = v_score (snd (finalize_read d run p now' y))"
proof -
  let ?p = "length (i_heap ing)"
  have stamps: "\<forall>b \<in> fst ` set zs. tb_TotalShards b = int n" "\<forall>b \<in> fst ` set zs. tb_RunID b = run"
    if "interleaving n streams (map fst zs)" for zs
    using interleaving_mem[OF that] assms(5) by (metis set_map)+
  obtain x where x: "absorb_seq bts ing = (x, replicate (length bts - 1) (Some (?p, False)) @ [Some (?p, True)])"
    "i_heap x ! ?p = absorb_all bts new_agg"
    by (rule absorb_whole_run[OF assms(1,3,4) stamps[OF assms(1)] assms(6)])
  obtain y where y: "absorb_seq bts' ing = (y, replicate (length bts' - 1) (Some (?p, False)) @ [Some (?p, True)])"
    "i_heap y ! ?p = absorb_all bts' new_agg"
    by (rule absorb_whole_run[OF assms(2,3,4) stamps[OF assms(2)] assms(6)])
  have r: "i_rdb x = i_rdb ing" "i_rdb y = i_rdb ing"
    using absorb_seq_rdb[of bts ing] absorb_seq_rdb[of bts' ing] x(1) y(1) by simp_all
  note P = absorb_all_perm[OF interleaving_mset[OF assms(1,2)]]
  have "v_score (snd (finalize_read d run ?p now x)) = v_score (snd (finalize_read d run ?p now' y))"
    unfolding finalize_read_score x(2) y(2) r using P[of "mPow d"] by simp
  then show ?thesis using x y P[of powf] by (intro exI[of _ x] exI[of _ y] exI[of _ ?p]) simp
qed

definition demo_first :: TelemetryBatch where
  "demo_first = demo_batch\<lparr>tb_Final := True\<rparr>"

definition demo_second :: TelemetryBatch where
  "demo_second = demo_batch\<lparr>tb_Shard := 1, tb_Final := True, tb_Errors := 2\<rparr>"

text \<open>Two shards with a final batch each, delivered in either order.\<close>

theorem ingest_order_independent_witness:
  "\<exists>x y p.
    absorb_seq [(demo_first, 1), (demo_second, 2)] (ing_init mem_empty) = (x, [Some (p, False), Some (p, True)]) \<and>
    absorb_seq [(demo_second, 7), (demo_first, 9)] (ing_init mem_empty) = (y, [Some (p, False), Some (p, True)]) \<and>
    compute (powr) (i_heap x ! p) = compute (powr) (i_heap y ! p) \<and>
    v_score (snd (finalize_read demo_deps ''r1'' p 3 x)) = v_score (snd (finalize_read demo_deps ''r1'' p 10 y))"
proof -
  let ?s = "\<lambda>i :: nat. if i = 0 then [demo_first] else [demo_second]"
  have t: "tb_Shard demo_first = 0" "tb_Shard demo_second = 1" "tb_Final demo_first" "tb_Final demo_second"
    "tb_TotalShards demo_first = 2" "tb_TotalShards demo_second = 2" "tb_RunID demo_first = ''r1''" "tb_RunID demo_second = ''r1''"
    by (simp_all add: demo_first_def demo_second_def demo_batch_def)
  have lt: "i < 2 \<longleftrightarrow> i = 0 \<or> i = 1" for i :: nat by auto
  have "interleaving 2 ?s (map fst [(demo_first, 1 :: int), (demo_second, 2)])"
    "interleaving 2 ?s (map fst [(demo_second, 7 :: int), (demo_first, 9)])"
    by (auto simp: interleaving_def t lt image_iff)
  moreover have "\<forall>i < 2. closing (?s i)" using closing_snoc[of "[]"] by (simp add: t)
  moreover have "\<forall>i < 2. \<forall>b \<in> set (?s i). tb_TotalShards b = int 2 \<and> tb_RunID b = ''r1''" by (simp add: t)
  ultimately show ?thesis
    using ingest_order_independent[of 2 ?s "[(demo_first, 1), (demo_second, 2)]" "[(demo_second, 7), (demo_first, 9)]" "''r1''"
        "ing_init mem_empty" "(powr)" demo_deps 3 10]
    by (auto simp: ing_init_def)
qed


definition demo_dead :: "unit fleet" where
  "demo_dead = runShard ln id (\<lambda>w od. (w, TransportError ''EOF'')) (\<lambda>w i. (w, TransportError ''EOF''))
     (\<lambda>seed. \<lparr>ints = \<lambda>k. k, floats = \<lambda>k. 1 / 2, pos = 0\<rparr>) (demo_shard\<lparr>ls_Bots := 1\<rparr>) 0 ()
     [BotTurn 0 demo_timing, Tick, BotTurn 0 (demo_timing\<lparr>t_test := 10 ^ 12\<rparr>), Done]"


text \<open>
  (C14) The conformance score survives its trip through Redis: the orchestrator stores it as text
  with four digits, the ingester parses it into the score. The value the verdict is computed
  with is within 1/10000 of the measured one, stays in \<open>[0, 1]\<close>, and is 1, the full mark,
  exactly when the engine agreed with the reference book on all ten exchanges: neither the
  printing nor the rounding turns a failed check into a pass or a pass into a failure.
\<close>

theorem conformance_reaches_verdict:
  fixes post :: "'w post" and d :: "'r deps"
  assumes "HGET (rdb d) (i_rdb ing) (''run:'' @ runID) ''conformance_score'' = Some (fmt_f 4 (fst (conformance quote post del w)))"
    "m = compute (mPow d) (i_heap ing ! p)"
  shows "\<exists>conf. v_score (snd (finalize_read d runID p now ing)) = Composite (Log10 d) (p99 m) (tps m) (correctness m) conf \<and>
    (conf = 1 \<longleftrightarrow> agrees post del New w scenario) \<and> 0 \<le> conf \<and> conf \<le> 1 \<and>
    \<bar>conf - fst (conformance quote post del w)\<bar> \<le> 1 / 10000"
proof -
  let ?x = "fst (conformance quote post del w)"
  have "v_score (snd (finalize_read d runID p now ing)) =
      Composite (Log10 d) (p99 m) (tps m) (correctness m) (ParseFloat (fmt_f 4 ?x))"
    unfolding finalize_read_score assms by simp
  then show ?thesis
    using conformance_text[OF refl, where quote = quote and post = post and del = del and w = w]
      four_digits[of ?x] by (intro exI[of _ "ParseFloat (fmt_f 4 ?x)"]) blast
qed

theorem conformance_reaches_verdict_witness:
  "\<exists>conf. v_score (snd (finalize_read demo_deps ''r1'' 0 9 ((ing_init
        (HSET mem mem_empty ''run:r1'' [(''conformance_score'',
           fmt_f 4 (fst (conformance id (\<lambda>w od. (w, TransportError ''EOF'')) (\<lambda>w i. (w, TransportError ''EOF'')) ())))]))
        \<lparr>i_heap := [new_agg]\<rparr>))) =
      Composite (Log10 demo_deps) (p99 (compute (mPow demo_deps) new_agg)) (tps (compute (mPow demo_deps) new_agg))
        (correctness (compute (mPow demo_deps) new_agg)) conf \<and> 0 \<le> conf \<and> conf \<le> 1"
proof -
  let ?t = "fmt_f 4 (fst (conformance id (\<lambda>w od. (w, TransportError ''EOF'')) (\<lambda>w i. (w, TransportError ''EOF'')) ()))"
  let ?ing = "(ing_init (HSET mem mem_empty ''run:r1'' [(''conformance_score'', ?t)]))\<lparr>i_heap := [new_agg]\<rparr>"
  have h: "HGET (rdb demo_deps) (i_rdb ?ing) (''run:'' @ ''r1'') ''conformance_score'' = Some ?t"
    by (simp add: ing_init_def HGET_def mem_def mem_empty_def gm_put_def gm_get_def)
  have "new_agg = i_heap ?ing ! 0" by simp
  then show ?thesis using conformance_reaches_verdict[OF h refl, of 0 9] by metis
qed

end
